(* ===== verification/Nv_Prelude.thy ===== *)
theory Nv_Prelude
  imports Main "HOL-Library.Word" "HOL-Library.Multiset"
begin

text \<open>
  Shared vocabulary of the development: machine integers, the result codes of Vulkan and of
  errno that the sources compare with, the resource events every allocation path emits, and the
  interface of operations that own what they return.
\<close>

unbundle bit_operations_syntax

section \<open>Machine types and constants\<close>

type_synonym u8 = "8 word"
type_synonym u32 = "32 word"
type_synonym u64 = "64 word"
type_synonym handle = "64 word"
type_synonym vk_result = int

named_theorems codes "numeric values of the result codes and flags"

definition VK_SUCCESS :: vk_result where [codes]: "VK_SUCCESS = 0"
definition VK_NOT_READY :: vk_result where [codes]: "VK_NOT_READY = 1"
definition VK_ERROR_OUT_OF_HOST_MEMORY :: vk_result where [codes]: "VK_ERROR_OUT_OF_HOST_MEMORY = -1"
definition VK_ERROR_OUT_OF_DEVICE_MEMORY :: vk_result where [codes]: "VK_ERROR_OUT_OF_DEVICE_MEMORY = -2"
definition VK_ERROR_INITIALIZATION_FAILED :: vk_result where [codes]: "VK_ERROR_INITIALIZATION_FAILED = -3"
definition VK_ERROR_DEVICE_LOST :: vk_result where [codes]: "VK_ERROR_DEVICE_LOST = -4"
definition VK_ERROR_EXTENSION_NOT_PRESENT :: vk_result where [codes]: "VK_ERROR_EXTENSION_NOT_PRESENT = -7"
definition VK_ERROR_FEATURE_NOT_PRESENT :: vk_result where [codes]: "VK_ERROR_FEATURE_NOT_PRESENT = -8"
definition VK_ERROR_TOO_MANY_OBJECTS :: vk_result where [codes]: "VK_ERROR_TOO_MANY_OBJECTS = -10"
definition VK_ERROR_FORMAT_NOT_SUPPORTED :: vk_result where [codes]: "VK_ERROR_FORMAT_NOT_SUPPORTED = -11"
definition VK_ERROR_INVALID_EXTERNAL_HANDLE :: vk_result where [codes]: "VK_ERROR_INVALID_EXTERNAL_HANDLE = -1000072003"

definition EPERM :: int where [codes]: "EPERM = 1"
definition EINTR :: int where [codes]: "EINTR = 4"
definition EIO :: int where [codes]: "EIO = 5"
definition EAGAIN :: int where [codes]: "EAGAIN = 11"
definition ENOMEM :: int where [codes]: "ENOMEM = 12"
definition EACCES :: int where [codes]: "EACCES = 13"
definition EBUSY :: int where [codes]: "EBUSY = 16"
definition ENODEV :: int where [codes]: "ENODEV = 19"
definition EINVAL :: int where [codes]: "EINVAL = 22"
definition EMFILE :: int where [codes]: "EMFILE = 24"
definition EFBIG :: int where [codes]: "EFBIG = 27"
definition EPROTO :: int where [codes]: "EPROTO = 71"

section \<open>Resource events\<close>

text \<open>
  A path of the code that creates and releases driver objects, file descriptors or mappings is
  described by the sequence of its events. Running the sequence on what is held gives what is
  held afterwards; releasing something that is not held (a double close, a stray free) has no
  result.
\<close>

datatype 'r ev = Acq 'r | Rel 'r

fun run_ev :: "'r multiset \<Rightarrow> 'r ev list \<Rightarrow> 'r multiset option" where
  "run_ev M [] = Some M"
| "run_ev M (Acq r # es) = run_ev (add_mset r M) es"
| "run_ev M (Rel r # es) = (if r \<in># M then run_ev (M - {#r#}) es else None)"

lemma run_ev_append:
  "run_ev M (xs @ ys) = (case run_ev M xs of None \<Rightarrow> None | Some N \<Rightarrow> run_ev N ys)"
  by (induction M xs rule: run_ev.induct) auto

lemma run_ev_frame: "run_ev M es = Some N \<Longrightarrow> run_ev (K + M) es = Some (K + N)"
proof (induction M es arbitrary: N rule: run_ev.induct)
  case (1 M)
  then show ?case by simp
next
  case (2 M r es)
  then have "run_ev (K + add_mset r M) es = Some (K + N)" by simp
  then show ?case by simp
next
  case (3 M r es)
  then have r: "r \<in># M" and "run_ev (M - {#r#}) es = Some N"
    by (auto split: if_splits)
  with 3 have "run_ev (K + (M - {#r#})) es = Some (K + N)" by simp
  moreover have "run_ev (K + M) (Rel r # es) = run_ev (K + (M - {#r#})) es"
    using r by (simp only: run_ev.simps diff_union_single_conv union_iff if_True simp_thms)
  ultimately show ?case by (simp only:)
qed

text \<open>Events of a part, read as events of the whole.\<close>

lemma run_ev_map:
  assumes "inj f" "run_ev M es = Some N"
  shows "run_ev (image_mset f M) (map (map_ev f) es) = Some (image_mset f N)"
  using assms(2)
proof (induction M es arbitrary: N rule: run_ev.induct)
  case (3 M r es)
  then have r: "r \<in># M" "run_ev (M - {#r#}) es = Some N" by (auto split: if_splits)
  moreover have "image_mset f (M - {#r#}) = image_mset f M - {#f r#}" using r(1) by (simp add: image_mset_Diff)
  ultimately show ?case using 3(1) by simp
qed auto

text \<open>
  The contract of an operation that hands resources to its caller: whatever it is given, a run
  from nothing held ends with exactly what the result owns, and a failure owns nothing. From it,
  no history of calls leaks or releases twice.
\<close>

locale owned_op =
  fixes op :: "'e \<Rightarrow> 'r ev list \<times> ('x + 'o)"
    and ok :: "'e \<Rightarrow> bool"
    and owned :: "'o \<Rightarrow> 'r multiset"
  assumes op_clean: "ok e \<Longrightarrow> op e = (tr, res) \<Longrightarrow>
    run_ev {#} tr = Some (case res of Inl _ \<Rightarrow> {#} | Inr out \<Rightarrow> owned out)"
begin

definition held_by :: "'x + 'o \<Rightarrow> 'r multiset" where
  "held_by res = (case res of Inl _ \<Rightarrow> {#} | Inr out \<Rightarrow> owned out)"

lemma op_frame: "ok e \<Longrightarrow> run_ev K (fst (op e)) = Some (K + held_by (snd (op e)))"
  using run_ev_frame [of "{#}" "fst (op e)" _ K] op_clean [of e "fst (op e)" "snd (op e)"]
  by (simp add: held_by_def)

lemma history_clean:
  "list_all ok es \<Longrightarrow>
   run_ev K (concat (map (\<lambda>e. fst (op e)) es)) = Some (K + sum_list (map (\<lambda>e. held_by (snd (op e))) es))"
  by (induction es arbitrary: K) (simp_all add: run_ev_append op_frame add.assoc)

lemma failure_owns_nothing: "ok e \<Longrightarrow> op e = (tr, Inl x) \<Longrightarrow> run_ev K tr = Some K"
  using op_frame [of e K] by (simp add: held_by_def)

end

section \<open>Lists\<close>

lemma length_take_update [simp]: "length (take m (xs[i := x])) = min m (length xs)"
  by simp

lemma set_nth_eq: "set xs = {xs ! i | i. i < length xs}"
  by (auto simp: in_set_conv_nth)

lemma find_SomeD: "find P xs = Some x \<Longrightarrow> x \<in> set xs \<and> P x"
  by (induction xs) (auto split: if_splits)

section \<open>Words\<close>

lemma unat_and_not_mask: "unat ((w :: 'a::len word) AND NOT (mask k)) = unat w div 2 ^ k * 2 ^ k"
proof -
  have "push_bit k (drop_bit k w) = w AND NOT (mask k)"
    by (rule bit_word_eqI) (auto simp: bit_simps)
  then have "(w AND NOT (mask k)) + take_bit k w = w" using bits_ident [of k w] by simp
  then have eq: "w AND NOT (mask k) = w - take_bit k w" by (metis add_diff_cancel_right')
  have t: "unat (take_bit k w) = unat w mod 2 ^ k" 
    by (simp only: unsigned_take_bit_eq) (simp add: take_bit_eq_mod)
  then have "take_bit k w \<le> w" by (simp add: word_le_nat_alt)
  then show ?thesis using t by (simp add: eq unat_sub minus_mod_eq_div_mult)
qed

lemma unat_align_up: 
  assumes "unat (v :: 'a::len word) + (2^k - 1) < 2^LENGTH('a)"
  shows "unat ((v + 2^k - 1) AND NOT (2^k - 1)) = (unat v + (2^k - 1)) div 2^k * 2^k"
proof -
  have "v + 2^k - 1 = of_nat (unat v + (2^k - 1))" by (simp only: of_nat_add of_nat_diff [OF one_le_power [of 2 k, simplified]]) simp
  then have "unat (v + 2^k - 1) = unat v + (2^k - 1)" using assms
    by (simp only: unsigned_of_nat take_bit_eq_mod mod_less of_nat_id)
  then show ?thesis using unat_and_not_mask [of "v + 2^k - 1" k] by (simp add: mask_eq_decr_exp)
qed

lemma align_up_nat: fixes n :: nat shows "n \<le> (n + (2^k - 1)) div 2^k * 2^k \<and> (n + (2^k - 1)) div 2^k * 2^k < n + 2^k"
proof -
  define r where "r = (n + (2^k - 1)) mod 2^k"
  have "(n + (2^k - 1)) div 2^k * 2^k = n + (2^k - 1) - r" by (simp add: r_def minus_mod_eq_div_mult)
  moreover have "r < 2^k" by (simp add: r_def)
  ultimately show ?thesis by (simp; linarith)
qed

lemma unat_ucast64 [simp]: "unat (ucast (a :: u32) :: u64) = unat a"
proof -
  have "unat a < 2 ^ 32" using unsigned_less [of a] by simp
  then show ?thesis by (simp only: unsigned_ucast_eq take_bit_eq_mod) simp
qed

lemma unat_u32_less: "unat (a :: u32) < 4294967296"
  using unsigned_less [of a] by simp

lemma unat_ucast_mult: "unat ((ucast (a :: u32) :: u64) * ucast (b :: u32)) = unat a * unat b"
proof -
  have "unat a * unat b \<le> 4294967295 * 4294967295"
    by (rule mult_le_mono) (use unat_u32_less [of a] unat_u32_less [of b] in simp_all)
  then show ?thesis by (simp add: unat_word_ariths)
qed

section \<open>Memory types\<close>

text \<open>
  The search all allocators share: the first memory type that the requirement allows and whose
  flags include the wanted ones.
\<close>

fun find_mem_type :: "u32 \<Rightarrow> u32 \<Rightarrow> u32 list \<Rightarrow> nat \<Rightarrow> nat option" where
  "find_mem_type bits want [] i = None"
| "find_mem_type bits want (flags # rest) i =
    (if bits AND push_bit i 1 \<noteq> 0 \<and> (flags AND want) = want then Some i
     else find_mem_type bits want rest (Suc i))"

lemma find_mem_type_spec:
  "case find_mem_type bits want fs i of
     Some j \<Rightarrow> i \<le> j \<and> j < i + length fs \<and> bits AND push_bit j 1 \<noteq> 0 \<and> (fs ! (j - i) AND want) = want
   | None \<Rightarrow> \<forall>j < length fs. bits AND push_bit (i + j) 1 \<noteq> 0 \<longrightarrow> (fs ! j AND want) \<noteq> want"
proof (induction bits want fs i rule: find_mem_type.induct)
  case (2 bits want flags rest i)
  show ?case
  proof (cases "bits AND push_bit i 1 \<noteq> 0 \<and> (flags AND want) = want")
    case True
    then show ?thesis by simp
  next
    case False
    then show ?thesis using 2
      by (auto split: option.splits simp: nth_Cons' Suc_diff_le less_Suc_eq_0_disj)
  qed
qed simp

end
