(* ===== verification/Handle_Table.thy ===== *)
theory Handle_Table
  imports Nv_Prelude
begin

text \<open>
  The interface the HAL's clients use for a table of handles (nvidia-prolapse/hal/src/nvhal.h,
  "handle maps" and "read-mostly hash tables"): lookups return NULL for an absent key, an insert
  may run out of host memory and then changes nothing, a delete returns what was stored. Both
  tables of util.c are interpretations (theories Handle_Map and Handle_Hash).
\<close>

datatype table_op = TPut bool handle handle | TDel handle

text \<open>
  The reference behaviour of a history: \<open>storable\<close> says which keys the table takes at all, the
  flag of a put whether the allocator had memory when (and if) it was asked. The reference leaves
  open whether a put without memory succeeds, so it is a relation between maps.
\<close>

inductive ref_step :: "(handle \<Rightarrow> bool) \<Rightarrow> (handle \<rightharpoonup> handle) \<Rightarrow> table_op \<Rightarrow> (handle \<rightharpoonup> handle) \<Rightarrow> bool"
  for storable where
  put_ok: "storable k \<Longrightarrow> ref_step storable M (TPut ok k v) (M(k \<mapsto> v))"
| put_oom: "ref_step storable M (TPut False k v) M"
| put_refused: "\<not> storable k \<Longrightarrow> ref_step storable M (TPut ok k v) M"
| del: "ref_step storable M (TDel k) (M(k := None))"

inductive ref_run :: "(handle \<Rightarrow> bool) \<Rightarrow> (handle \<rightharpoonup> handle) \<Rightarrow> table_op list \<Rightarrow> (handle \<rightharpoonup> handle) \<Rightarrow> bool"
  for storable where
  run_nil: "ref_run storable M [] M"
| run_cons: "ref_step storable M x M' \<Longrightarrow> ref_run storable M' xs M'' \<Longrightarrow> ref_run storable M (x # xs) M''"

inductive_simps ref_run_Nil [simp]: "ref_run storable M [] M'"
inductive_cases ref_step_PutE: "ref_step storable M (TPut ok k v) M'"
inductive_cases ref_step_DelE: "ref_step storable M (TDel k) M'"

text \<open>A put that had memory and a storable key is in the map; nothing else changes.\<close>

lemma ref_step_put_True:
  "ref_step storable M (TPut True k v) M' \<Longrightarrow> storable k \<Longrightarrow> M' = M(k \<mapsto> v)"
  by (auto elim: ref_step_PutE)

lemma ref_step_other: "ref_step storable M x M' \<Longrightarrow>
  (case x of TPut _ k _ \<Rightarrow> k | TDel k \<Rightarrow> k) \<noteq> j \<Longrightarrow> M' j = M j"
  by (erule ref_step.cases) auto

locale handle_table =
  fixes get :: "'m \<Rightarrow> handle \<Rightarrow> handle"
    and put :: "bool \<Rightarrow> 'm \<Rightarrow> handle \<Rightarrow> handle \<Rightarrow> (bool \<times> 'm) option"
    and del :: "'m \<Rightarrow> handle \<Rightarrow> handle \<times> 'm"
    and inv :: "'m \<Rightarrow> bool"
    and abs :: "'m \<Rightarrow> handle \<rightharpoonup> handle"
    and storable :: "handle \<Rightarrow> bool"
  assumes get_abs: "inv m \<Longrightarrow> get m k = (case abs m k of None \<Rightarrow> 0 | Some v \<Rightarrow> v)"
    and put_returns: "inv m \<Longrightarrow> put ok m k v \<noteq> None"
    and put_inv: "inv m \<Longrightarrow> put ok m k v = Some (b, m') \<Longrightarrow> inv m'"
    and put_done: "inv m \<Longrightarrow> put ok m k v = Some (True, m') \<Longrightarrow> storable k \<and> abs m' = (abs m)(k \<mapsto> v)"
    and put_failed: "inv m \<Longrightarrow> put ok m k v = Some (False, m') \<Longrightarrow> abs m' = abs m \<and> \<not> (ok \<and> storable k)"
    and del_inv: "inv m \<Longrightarrow> inv (snd (del m k))"
    and del_abs: "inv m \<Longrightarrow> abs (snd (del m k)) = (abs m)(k := None)"
    and del_ret: "inv m \<Longrightarrow> fst (del m k) = get m k"
begin

fun table_step :: "'m \<Rightarrow> table_op \<Rightarrow> 'm option" where
  "table_step m (TPut ok k v) = map_option snd (put ok m k v)"
| "table_step m (TDel k) = Some (snd (del m k))"

fun table_run :: "'m \<Rightarrow> table_op list \<Rightarrow> 'm option" where
  "table_run m [] = Some m"
| "table_run m (x # xs) = (case table_step m x of None \<Rightarrow> None | Some m' \<Rightarrow> table_run m' xs)"

lemma step_refines: "inv m \<Longrightarrow> \<exists>m'. table_step m x = Some m' \<and> inv m' \<and> ref_step storable (abs m) x (abs m')"
proof (cases x)
  case (TPut ok k v)
  assume m: "inv m"
  then obtain b m' where put: "put ok m k v = Some (b, m')"
    using put_returns by fastforce
  with m have inv: "inv m'" by (rule put_inv)
  have "ref_step storable (abs m) (TPut ok k v) (abs m')"
  proof (cases b)
    case True
    with m put put_done [of m ok k v m'] show ?thesis by (auto intro: ref_step.put_ok)
  next
    case False
    with m put put_failed [of m ok k v m'] have "abs m' = abs m" "\<not> (ok \<and> storable k)" by auto
    then show ?thesis by (cases ok) (auto intro: ref_step.intros)
  qed
  with put inv TPut show ?thesis by auto
next
  case (TDel k)
  assume "inv m"
  with TDel show ?thesis by (auto simp: del_inv del_abs intro: ref_step.del)
qed

lemma run_refines:
  "inv m \<Longrightarrow> \<exists>m'. table_run m xs = Some m' \<and> inv m' \<and> ref_run storable (abs m) xs (abs m')"
proof (induction xs arbitrary: m)
  case Nil
  then show ?case by simp
next
  case (Cons x xs)
  then obtain m1 where "table_step m x = Some m1" "inv m1" "ref_step storable (abs m) x (abs m1)"
    using step_refines by blast
  with Cons.IH [of m1] show ?case by (auto intro: ref_run.run_cons)
qed

lemma get_after_put: "inv m \<Longrightarrow> put ok m k v = Some (True, m') \<Longrightarrow>
  get m' j = (if j = k then v else get m j)"
  using put_done [of m ok k v m'] put_inv [of m ok k v True m'] by (simp add: get_abs)

lemma get_after_failed_put: "inv m \<Longrightarrow> put ok m k v = Some (False, m') \<Longrightarrow> get m' j = get m j"
  using put_failed [of m ok k v m'] put_inv [of m ok k v False m'] by (simp add: get_abs)

lemma get_after_del: "inv m \<Longrightarrow> get (snd (del m k)) j = (if j = k then 0 else get m j)"
  by (simp add: get_abs del_inv del_abs)

end

end
