(* ===== verification/Handle_Map.thy ===== *)
theory Handle_Map
  imports Handle_Table
begin

text \<open>
  The mutex-protected handle maps of nvidia-prolapse/hal/src/util.c: an unordered array of
  (key, value) pairs with swap-with-last deletion. Every operation runs under nvhal_lock, so a
  call is one atomic step on the record. The list \<open>m_e\<close> is the live prefix e[0..n) of the C
  array, \<open>m_cap\<close> its capacity; the outcome of realloc is an argument.
\<close>

section \<open>State and operations\<close>

record nvhal_map =
  m_e :: "(handle \<times> handle) list"
  m_cap :: nat

definition map_empty :: nvhal_map where
  "map_empty = \<lparr>m_e = [], m_cap = 0\<rparr>"

fun key_index :: "(handle \<times> handle) list \<Rightarrow> handle \<Rightarrow> nat option" where
  "key_index [] k = None"
| "key_index ((k', v) # es) k = (if k' = k then Some 0 else map_option Suc (key_index es k))"

definition nvhal_map_get :: "nvhal_map \<Rightarrow> handle \<Rightarrow> handle" where
  "nvhal_map_get m key = (case key_index (m_e m) key of None \<Rightarrow> 0 | Some i \<Rightarrow> snd (m_e m ! i))"

definition nvhal_map_put :: "bool \<Rightarrow> nvhal_map \<Rightarrow> handle \<Rightarrow> handle \<Rightarrow> bool \<times> nvhal_map" where
  "nvhal_map_put realloc_ok m key val =
    (case key_index (m_e m) key of
       Some i \<Rightarrow> (True, m\<lparr>m_e := (m_e m)[i := (key, val)]\<rparr>)
     | None \<Rightarrow>
         if length (m_e m) = m_cap m \<and> \<not> realloc_ok then (False, m)
         else (True, m\<lparr>m_e := m_e m @ [(key, val)],
                      m_cap := (if length (m_e m) = m_cap m
                                then (if m_cap m \<noteq> 0 then m_cap m * 2 else 8) else m_cap m)\<rparr>))"

text \<open>\<open>e[i] = e[--n]\<close>: the last live entry moves into slot \<open>i\<close>.\<close>

definition swap_del :: "'a list \<Rightarrow> nat \<Rightarrow> 'a list" where
  "swap_del es i = take (length es - 1) (es[i := es ! (length es - 1)])"

definition nvhal_map_del :: "nvhal_map \<Rightarrow> handle \<Rightarrow> handle \<times> nvhal_map" where
  "nvhal_map_del m key =
    (case key_index (m_e m) key of
       None \<Rightarrow> (0, m)
     | Some i \<Rightarrow> (snd (m_e m ! i), m\<lparr>m_e := swap_del (m_e m) i\<rparr>))"

function del_val_loop :: "(handle \<times> handle) list \<Rightarrow> handle \<Rightarrow> nat \<Rightarrow> (handle \<times> handle) list" where
  "del_val_loop es val i =
    (if i < length es
     then (if snd (es ! i) = val then del_val_loop (swap_del es i) val i
           else del_val_loop es val (Suc i))
     else es)"
  by pat_completeness auto
termination
  by (relation "measure (\<lambda>(es, val, i). length es - i)") (auto simp: swap_del_def)

declare del_val_loop.simps [simp del]

definition nvhal_map_del_val :: "nvhal_map \<Rightarrow> handle \<Rightarrow> nvhal_map" where
  "nvhal_map_del_val m val = m\<lparr>m_e := del_val_loop (m_e m) val 0\<rparr>"

definition nvhal_map_free :: "nvhal_map \<Rightarrow> nvhal_map" where
  "nvhal_map_free m = \<lparr>m_e = [], m_cap = 0\<rparr>"

section \<open>Invariant and abstraction\<close>

definition map_inv :: "nvhal_map \<Rightarrow> bool" where
  "map_inv m \<longleftrightarrow> distinct (map fst (m_e m)) \<and> length (m_e m) \<le> m_cap m"

definition map_abs :: "nvhal_map \<Rightarrow> handle \<rightharpoonup> handle" where
  "map_abs m = map_of (m_e m)"

section \<open>Lemmas\<close>

lemma key_index_None: "key_index es k = None \<longleftrightarrow> map_of es k = None"
  by (induction es k rule: key_index.induct) auto

lemma key_index_SomeD:
  "key_index es k = Some i \<Longrightarrow> i < length es \<and> fst (es ! i) = k \<and> map_of es k = Some (snd (es ! i))"
  by (induction es k arbitrary: i rule: key_index.induct) (auto split: if_splits)

lemma map_get_abs: "nvhal_map_get m k = (case map_abs m k of None \<Rightarrow> 0 | Some v \<Rightarrow> v)"
  by (auto simp: nvhal_map_get_def map_abs_def key_index_None split: option.splits
      dest: key_index_SomeD)

lemma swap_del_snoc: "i < length es \<Longrightarrow> swap_del (es @ [x]) i = es[i := x]"
  by (simp add: swap_del_def nth_append list_update_append)

lemma swap_del_last: "swap_del (es @ [x]) (length es) = es"
  by (simp add: swap_del_def list_update_append)

lemma swap_del_cases:
  assumes "i < length es"
  obtains (last) xs x where "es = xs @ [x]" "i = length xs" "swap_del es i = xs"
  | (inner) xs x where "es = xs @ [x]" "i < length xs" "swap_del es i = xs[i := x]"
proof -
  from assms obtain xs x where es: "es = xs @ [x]" by (cases es rule: rev_cases) auto
  with assms have "i = length xs \<or> i < length xs" by auto
  with es that show ?thesis by (auto simp: swap_del_snoc swap_del_last)
qed

lemma mset_swap_del: "i < length es \<Longrightarrow> mset (swap_del es i) = mset es - {#es ! i#}"
  by (erule swap_del_cases) (simp_all add: nth_append mset_update)

lemma mset_remove_key:
  assumes "distinct (map fst es)" "i < length es"
  shows "mset es - {#es ! i#} = mset (filter (\<lambda>e. fst e \<noteq> fst (es ! i)) es)"
proof -
  have es: "es = take i es @ es ! i # drop (Suc i) es"
    using assms(2) by (simp add: id_take_nth_drop)
  have dist: "distinct (map fst (take i es @ es ! i # drop (Suc i) es))"
    using assms(1) es by simp
  then have notin: "fst (es ! i) \<notin> fst ` set (take i es)" "fst (es ! i) \<notin> fst ` set (drop (Suc i) es)"
    by auto
  then have f: "filter (\<lambda>e. fst e \<noteq> fst (es ! i)) (take i es) = take i es"
    "filter (\<lambda>e. fst e \<noteq> fst (es ! i)) (drop (Suc i) es) = drop (Suc i) es"
    by (auto simp: filter_id_conv image_iff)
  have "filter (\<lambda>e. fst e \<noteq> fst (es ! i)) es = take i es @ drop (Suc i) es"
    by (subst (2) es) (simp add: f)
  moreover have "mset es = add_mset (es ! i) (mset (take i es @ drop (Suc i) es))"
    by (subst es) simp
  ultimately show ?thesis by simp
qed

lemma distinct_fst_mset: "mset xs = mset ys \<Longrightarrow> distinct (map fst xs) = distinct (map fst ys)"
  by (metis mset_eq_imp_distinct_iff mset_map)

lemma map_of_mset_eq:
  "distinct (map fst xs) \<Longrightarrow> mset xs = mset ys \<Longrightarrow> map_of xs = map_of ys"
  by (metis distinct_fst_mset map_of_inject_set mset_eq_setD)

lemma map_of_filter_key:
  "map_of (filter (\<lambda>e. fst e \<noteq> k) es) = (map_of es)(k := None)"
  by (induction es) (auto simp: fun_eq_iff)

lemma distinct_fst_filter: "distinct (map fst es) \<Longrightarrow> distinct (map fst (filter P es))"
  by (induction es) auto

lemma map_of_filter_val:
  "distinct (map fst es) \<Longrightarrow>
   map_of (filter (\<lambda>e. snd e \<noteq> v) es) k = (case map_of es k of None \<Rightarrow> None | Some u \<Rightarrow> if u = v then None else Some u)"
proof (induction es)
  case (Cons e es)
  have "fst e \<notin> fst ` set es \<Longrightarrow> map_of (filter P es) (fst e) = None" for P
    by (auto simp: map_of_eq_None_iff)
  with Cons show ?case by auto
qed simp

lemma swap_del_filter:
  "distinct (map fst es) \<Longrightarrow> i < length es \<Longrightarrow>
   mset (swap_del es i) = mset (filter (\<lambda>e. fst e \<noteq> fst (es ! i)) es)"
  by (simp add: mset_swap_del mset_remove_key)

lemma map_del_spec:
  assumes "map_inv m"
  shows "map_inv (snd (nvhal_map_del m k))"
    and "map_abs (snd (nvhal_map_del m k)) = (map_abs m)(k := None)"
proof -
  have "map_inv (snd (nvhal_map_del m k)) \<and> map_abs (snd (nvhal_map_del m k)) = (map_abs m)(k := None)"
  proof (cases "key_index (m_e m) k")
    case None
    then show ?thesis
      using assms by (auto simp: nvhal_map_del_def map_abs_def key_index_None [symmetric] fun_eq_iff)
  next
    case (Some i)
    let ?es = "m_e m" and ?f = "filter (\<lambda>e. fst e \<noteq> k) (m_e m)"
    from key_index_SomeD [OF Some] have i: "i < length ?es" "fst (?es ! i) = k" by auto
    with assms have ms: "mset (swap_del ?es i) = mset ?f"
      using swap_del_filter [of ?es i] by (simp add: map_inv_def)
    have d: "distinct (map fst (swap_del ?es i))"
      using assms distinct_fst_mset [OF ms] by (simp add: map_inv_def distinct_fst_filter)
    have "map_of (swap_del ?es i) = (map_of ?es)(k := None)"
      using map_of_mset_eq [OF d ms] by (simp add: map_of_filter_key)
    with d Some i assms show ?thesis
      by (auto simp: nvhal_map_del_def map_abs_def map_inv_def swap_del_def)
  qed
  then show "map_inv (snd (nvhal_map_del m k))"
    and "map_abs (snd (nvhal_map_del m k)) = (map_abs m)(k := None)" by auto
qed

lemma update_found:
  assumes "key_index es k = Some i"
  shows "map fst (es[i := (k, v)]) = map fst es"
    and "map_of (es[i := (k, v)]) = (map_of es)(k \<mapsto> v)"
proof -
  from key_index_SomeD [OF assms] have "i < length es" "map fst es ! i = k" by auto
  then show "map fst (es[i := (k, v)]) = map fst es"
    by (metis fst_conv list_update_id map_update)
  from assms show "map_of (es[i := (k, v)]) = (map_of es)(k \<mapsto> v)"
    by (induction es k arbitrary: i rule: key_index.induct) (auto split: if_splits)
qed

lemma map_put_inv:
  assumes "map_inv m" "nvhal_map_put ok m k v = (b, m')"
  shows "map_inv m'"
proof (cases "key_index (m_e m) k")
  case None
  then have "k \<notin> fst ` set (m_e m)" by (simp add: key_index_None map_of_eq_None_iff)
  with assms None show ?thesis
    by (auto simp: nvhal_map_put_def map_inv_def split: if_splits)
next
  case (Some i)
  with assms update_found(1) [OF Some] show ?thesis
    by (auto simp: nvhal_map_put_def map_inv_def)
qed

lemma map_put_done:
  "nvhal_map_put ok m k v = (True, m') \<Longrightarrow> map_abs m' = (map_abs m)(k \<mapsto> v)"
  by (auto simp: nvhal_map_put_def map_abs_def update_found(2) map_add_def key_index_None fun_eq_iff
      split: option.splits if_splits)

lemma map_put_failed:
  "nvhal_map_put ok m k v = (False, m') \<Longrightarrow> m' = m \<and> \<not> ok \<and> length (m_e m) = m_cap m \<and> map_abs m k = None"
  by (auto simp: nvhal_map_put_def map_abs_def key_index_None split: option.splits if_splits)

lemma map_del_ret: "fst (nvhal_map_del m k) = nvhal_map_get m k"
  by (auto simp: nvhal_map_del_def nvhal_map_get_def split: option.splits)

lemma del_val_loop_mset:
  "\<forall>e \<in> set (take i es). snd e \<noteq> val \<Longrightarrow> mset (del_val_loop es val i) = mset (filter (\<lambda>e. snd e \<noteq> val) es)"
proof (induction es val i rule: del_val_loop.induct)
  case (1 es val i)
  consider (stop) "\<not> i < length es" | (del) "i < length es" "snd (es ! i) = val" | (keep) "i < length es" "snd (es ! i) \<noteq> val"
    by blast
  then show ?case
  proof cases
    case stop
    with 1(3) show ?thesis by (simp add: del_val_loop.simps [of es val i] filter_id_conv)
  next
    case del
    have "take i (swap_del es i) = take i es"
      using del(1) by (cases rule: swap_del_cases) auto
    with 1(1) [OF del] 1(3) have "mset (del_val_loop (swap_del es i) val i) = mset (filter (\<lambda>e. snd e \<noteq> val) (swap_del es i))"
      by simp
    also have "\<dots> = filter_mset (\<lambda>e. snd e \<noteq> val) (mset es - {#es ! i#})"
      using del(1) by (simp add: mset_swap_del)
    also have "\<dots> = filter_mset (\<lambda>e. snd e \<noteq> val) (mset es)"
      using del by (simp add: filter_diff_mset)
    finally show ?thesis using del by (simp add: del_val_loop.simps [of es val i])
  next
    case keep
    have "\<forall>e \<in> set (take (Suc i) es). snd e \<noteq> val"
      using keep 1(3) by (auto simp: take_Suc_conv_app_nth)
    with 1(2) [OF keep] show ?thesis using keep by (simp add: del_val_loop.simps [of es val i])
  qed
qed

lemma map_del_val_spec:
  assumes "map_inv m"
  shows "map_inv (nvhal_map_del_val m val)"
    and "map_abs (nvhal_map_del_val m val) k =
      (case map_abs m k of None \<Rightarrow> None | Some u \<Rightarrow> if u = val then None else Some u)"
proof -
  let ?es' = "del_val_loop (m_e m) val 0" and ?f = "filter (\<lambda>e. snd e \<noteq> val) (m_e m)"
  have ms: "mset ?es' = mset ?f" by (simp add: del_val_loop_mset)
  have d: "distinct (map fst ?es')"
    using assms distinct_fst_mset [OF ms] by (simp add: map_inv_def distinct_fst_filter)
  have "length ?es' \<le> length (m_e m)"
    using mset_eq_length [OF ms] by simp
  with assms d show "map_inv (nvhal_map_del_val m val)"
    by (simp add: map_inv_def nvhal_map_del_val_def)
  show "map_abs (nvhal_map_del_val m val) k =
      (case map_abs m k of None \<Rightarrow> None | Some u \<Rightarrow> if u = val then None else Some u)"
    using assms map_of_mset_eq [OF d ms] map_of_filter_val [of "m_e m" val k]
    by (simp add: map_abs_def nvhal_map_del_val_def map_inv_def)
qed

lemma map_empty_inv [simp]: "map_inv map_empty" "map_abs map_empty = Map.empty"
  by (simp_all add: map_inv_def map_abs_def map_empty_def)

section \<open>The map implements the table interface\<close>

interpretation hmap: handle_table nvhal_map_get "\<lambda>ok m k v. Some (nvhal_map_put ok m k v)"
  nvhal_map_del map_inv map_abs "\<lambda>_. True"
proof unfold_locales
  show "map_inv m \<Longrightarrow> nvhal_map_get m k = (case map_abs m k of None \<Rightarrow> 0 | Some v \<Rightarrow> v)" for m k
    by (rule map_get_abs)
  show "map_inv m \<Longrightarrow> map_inv (snd (nvhal_map_del m k))" for m k
    by (rule map_del_spec(1))
  show "map_inv m \<Longrightarrow> map_abs (snd (nvhal_map_del m k)) = (map_abs m)(k := None)" for m k
    by (rule map_del_spec(2))
qed (auto simp: map_del_ret dest: map_put_inv map_put_done map_put_failed)

section \<open>Properties\<close>

definition map_run :: "nvhal_map \<Rightarrow> table_op list \<Rightarrow> nvhal_map option" where
  "map_run = hmap.table_run"

text \<open>
  C28. Every history of inserts and deletes, with the allocator failing at any insert, leaves the
  linear map in a state whose lookups are those of a reference map reached by the same history,
  and removing a value afterwards removes exactly the keys that carry it.
\<close>

theorem map_history_del_val:
  "\<exists>m M. map_run map_empty xs = Some m \<and> map_inv m \<and> ref_run (\<lambda>_. True) Map.empty xs M \<and>
     (\<forall>k. nvhal_map_get m k = (case M k of None \<Rightarrow> 0 | Some v \<Rightarrow> v)) \<and>
     (\<forall>k. nvhal_map_get (nvhal_map_del_val m val) k =
       (case M k of None \<Rightarrow> 0 | Some v \<Rightarrow> if v = val then 0 else v))"
proof -
  obtain m where m: "map_run map_empty xs = Some m" "map_inv m" "ref_run (\<lambda>_. True) Map.empty xs (map_abs m)"
    using hmap.run_refines [OF map_empty_inv(1), of xs] by (auto simp: map_run_def)
  have "nvhal_map_get (nvhal_map_del_val m val) k =
    (case map_abs m k of None \<Rightarrow> 0 | Some v \<Rightarrow> if v = val then 0 else v)" for k
    using map_del_val_spec(2) [OF m(2)] by (simp add: map_get_abs split: option.splits)
  then show ?thesis using m map_get_abs by blast
qed

end
