(* ===== verification/Handle_Hash.thy ===== *)
theory Handle_Hash
  imports Handle_Table
begin

text \<open>
  The read-mostly hash tables of nvidia-prolapse/hal/src/util.c (struct nvhal_hash): open
  addressing with linear probing on 64-bit handles, tombstones, a load limit of 3/4 and a rehash
  that drops the tombstones. Writers hold the write lock of the table and readers its read lock,
  so each operation is one step. The probe loops of insert and rehash have no bound in the code;
  they are partial functions here and the invariant shows that they return.
\<close>

section \<open>State and operations\<close>

record nvhal_hash =
  hk :: "u64 list"
  hv :: "handle list"
  hn :: nat
  hused :: nat

abbreviation hcap :: "nvhal_hash \<Rightarrow> nat" where
  "hcap h \<equiv> length (hk h)"

definition NVHAL_HASH_INIT :: nvhal_hash where
  "NVHAL_HASH_INIT = \<lparr>hk = [], hv = [], hn = 0, hused = 0\<rparr>"

definition HASH_TOMB :: u64 where
  "HASH_TOMB = 0xffffffffffffffff"

definition hash_slot :: "u64 \<Rightarrow> nat \<Rightarrow> nat" where
  "hash_slot k0 cap =
    (let k1 = k0 XOR drop_bit 33 k0;
         k2 = k1 * 0xff51afd7ed558ccd;
         k3 = k2 XOR drop_bit 33 k2
     in unat (k3 AND (of_nat cap - 1)))"

text \<open>\<open>(i + 1) & (cap - 1)\<close>\<close>

definition next_slot :: "nat \<Rightarrow> nat \<Rightarrow> nat" where
  "next_slot cap i = (i + 1) AND (cap - 1)"

fun find_from :: "u64 list \<Rightarrow> u64 \<Rightarrow> nat \<Rightarrow> nat \<Rightarrow> nat option" where
  "find_from ks key i 0 = None"
| "find_from ks key i (Suc r) =
    (if ks ! i = 0 then None
     else if ks ! i = key then Some i
     else find_from ks key (next_slot (length ks) i) r)"

definition hash_find_locked :: "nvhal_hash \<Rightarrow> u64 \<Rightarrow> nat option" where
  "hash_find_locked h key =
    (if hcap h = 0 then None else find_from (hk h) key (hash_slot key (hcap h)) (hcap h))"

definition nvhal_hash_get :: "nvhal_hash \<Rightarrow> u64 \<Rightarrow> handle" where
  "nvhal_hash_get h key =
    (if key = 0 \<or> key = HASH_TOMB then 0
     else (case hash_find_locked h key of None \<Rightarrow> 0 | Some at \<Rightarrow> hv h ! at))"

text \<open>The capacity loop of the rehash; the code starts it at the old capacity or at 64, never at 0.\<close>

function grow_cap :: "nat \<Rightarrow> nat \<Rightarrow> nat" where
  "grow_cap n cap = (if cap \<noteq> 0 \<and> (n + 1) * 2 > cap then grow_cap n (cap * 2) else cap)"
  by pat_completeness auto
termination
  by (relation "measure (\<lambda>(n, cap). (n + 1) * 2 - cap)") auto

declare grow_cap.simps [simp del]

partial_function (option) probe_while :: "(u64 \<Rightarrow> bool) \<Rightarrow> u64 list \<Rightarrow> nat \<Rightarrow> nat option" where
  "probe_while busy ks i =
    (if busy (ks ! i) then probe_while busy ks (next_slot (length ks) i) else Some i)"

fun rehash :: "(u64 \<times> handle) list \<Rightarrow> u64 list \<Rightarrow> handle list \<Rightarrow> (u64 list \<times> handle list) option" where
  "rehash [] k v = Some (k, v)"
| "rehash ((key, val) # es) k v =
    (if key \<noteq> 0 \<and> key \<noteq> HASH_TOMB
     then (case probe_while (\<lambda>x. x \<noteq> 0) k (hash_slot key (length k)) of
             None \<Rightarrow> None
           | Some j \<Rightarrow> rehash es (k[j := key]) (v[j := val]))
     else rehash es k v)"

definition hash_grow_locked :: "bool \<Rightarrow> nvhal_hash \<Rightarrow> (bool \<times> nvhal_hash) option" where
  "hash_grow_locked calloc_ok h =
    (let cap = grow_cap (hn h) (if hcap h \<noteq> 0 then hcap h else 64)
     in if \<not> calloc_ok then Some (False, h)
        else (case rehash (zip (hk h) (hv h)) (replicate cap 0) (replicate cap 0) of
                None \<Rightarrow> None
              | Some (k, v) \<Rightarrow> Some (True, h\<lparr>hk := k, hv := v, hused := hn h\<rparr>)))"

definition hash_insert :: "nvhal_hash \<Rightarrow> u64 \<Rightarrow> handle \<Rightarrow> (bool \<times> nvhal_hash) option" where
  "hash_insert h key val =
    (case probe_while (\<lambda>x. x \<noteq> 0 \<and> x \<noteq> HASH_TOMB) (hk h) (hash_slot key (hcap h)) of
       None \<Rightarrow> None
     | Some i \<Rightarrow> Some (True, h\<lparr>hk := (hk h)[i := key], hv := (hv h)[i := val],
                              hused := (if hk h ! i = 0 then hused h + 1 else hused h),
                              hn := hn h + 1\<rparr>))"

definition nvhal_hash_put :: "bool \<Rightarrow> nvhal_hash \<Rightarrow> u64 \<Rightarrow> handle \<Rightarrow> (bool \<times> nvhal_hash) option" where
  "nvhal_hash_put calloc_ok h key val =
    (if key = 0 \<or> key = HASH_TOMB then Some (False, h)
     else (case hash_find_locked h key of
             Some at \<Rightarrow> Some (True, h\<lparr>hv := (hv h)[at := val]\<rparr>)
           | None \<Rightarrow>
               if (hused h + 1) * 4 > hcap h * 3
               then (case hash_grow_locked calloc_ok h of
                       None \<Rightarrow> None
                     | Some (ok, h') \<Rightarrow> if ok then hash_insert h' key val else Some (False, h'))
               else hash_insert h key val))"

definition nvhal_hash_del :: "nvhal_hash \<Rightarrow> u64 \<Rightarrow> handle \<times> nvhal_hash" where
  "nvhal_hash_del h key =
    (if key = 0 \<or> key = HASH_TOMB then (0, h)
     else (case hash_find_locked h key of
             None \<Rightarrow> (0, h)
           | Some at \<Rightarrow> (hv h ! at, h\<lparr>hk := (hk h)[at := HASH_TOMB], hv := (hv h)[at := 0],
                                     hn := hn h - 1\<rparr>)))"

text \<open>
  The sweep deletes every live entry whose value satisfies the predicate and hands each deleted
  value to a callback; the list holds the values in callback order.
\<close>

definition sweep_at :: "(handle \<Rightarrow> bool) \<Rightarrow> nat \<Rightarrow> nvhal_hash \<times> handle list \<Rightarrow> nvhal_hash \<times> handle list" where
  "sweep_at pred i = (\<lambda>(h, ds).
    if hk h ! i \<noteq> 0 \<and> hk h ! i \<noteq> HASH_TOMB \<and> pred (hv h ! i)
    then (h\<lparr>hk := (hk h)[i := HASH_TOMB], hv := (hv h)[i := 0], hn := hn h - 1\<rparr>, ds @ [hv h ! i])
    else (h, ds))"

definition nvhal_hash_sweep :: "nvhal_hash \<Rightarrow> (handle \<Rightarrow> bool) \<Rightarrow> nat \<times> nvhal_hash \<times> handle list" where
  "nvhal_hash_sweep h pred =
    (case fold (sweep_at pred) [0..<hcap h] (h, []) of (h', ds) \<Rightarrow> (length ds, h', ds))"

section \<open>Invariant and abstraction\<close>

definition live :: "u64 \<Rightarrow> bool" where
  "live k \<longleftrightarrow> k \<noteq> 0 \<and> k \<noteq> HASH_TOMB"

definition pow2 :: "nat \<Rightarrow> bool" where
  "pow2 n \<longleftrightarrow> (\<exists>p. n = 2 ^ p)"

text \<open>A key at \<open>i\<close> is reachable: the probe sequence from its slot meets no empty slot before \<open>i\<close>.\<close>

definition reach :: "u64 list \<Rightarrow> nat \<Rightarrow> bool" where
  "reach ks i \<longleftrightarrow> (\<exists>d < length ks. i = (hash_slot (ks ! i) (length ks) + d) mod length ks \<and>
     (\<forall>e < d. ks ! ((hash_slot (ks ! i) (length ks) + e) mod length ks) \<noteq> 0))"

definition keys_ok :: "u64 list \<Rightarrow> bool" where
  "keys_ok ks \<longleftrightarrow> (ks = [] \<or> pow2 (length ks)) \<and>
     (\<forall>i < length ks. live (ks ! i) \<longrightarrow> reach ks i) \<and>
     (\<forall>i < length ks. \<forall>j < length ks. live (ks ! i) \<longrightarrow> ks ! i = ks ! j \<longrightarrow> i = j)"

definition hash_inv :: "nvhal_hash \<Rightarrow> bool" where
  "hash_inv h \<longleftrightarrow> keys_ok (hk h) \<and> length (hv h) = hcap h \<and>
     hn h = length (filter live (hk h)) \<and>
     hused h = length (filter (\<lambda>k. k \<noteq> 0) (hk h)) \<and>
     hused h * 4 \<le> hcap h * 3"

definition entry_index :: "u64 list \<Rightarrow> u64 \<Rightarrow> nat option" where
  "entry_index ks key = (if live key then List.find (\<lambda>i. ks ! i = key) [0..<length ks] else None)"

definition lookup :: "u64 list \<Rightarrow> handle list \<Rightarrow> u64 \<rightharpoonup> handle" where
  "lookup ks vs key = map_option (\<lambda>i. vs ! i) (entry_index ks key)"

definition hash_abs :: "nvhal_hash \<Rightarrow> u64 \<rightharpoonup> handle" where
  "hash_abs h = lookup (hk h) (hv h)"

section \<open>Probe sequences\<close>

lemma tomb_nonzero [simp]: "HASH_TOMB \<noteq> 0"
  by (simp add: HASH_TOMB_def)

lemma next_slot_mod: "pow2 (length ks) \<Longrightarrow> next_slot (length ks) i = (i + 1) mod length ks"
  using take_bit_eq_mask [of _ "i + 1"]
  by (auto simp: pow2_def next_slot_def mask_eq_exp_minus_1 take_bit_eq_mod)

lemma hash_slot_less: "pow2 cap \<Longrightarrow> hash_slot k cap < cap"
proof -
  assume "pow2 cap"
  then obtain p where cap: "cap = 2 ^ p" by (auto simp: pow2_def)
  have "unat (x AND (of_nat cap - 1)) < cap" for x :: u64
  proof (cases "p < 64")
    case True
    have m: "(of_nat cap - 1 :: u64) = mask p"
      using cap by (simp add: mask_eq_exp_minus_1)
    have "x AND (of_nat cap - 1) = take_bit p x"
      unfolding m by (simp add: take_bit_eq_mask)
    then have "unat (x AND (of_nat cap - 1)) = take_bit p (unat x)"
      by (simp add: unsigned_take_bit_eq)
    then show ?thesis using cap by (simp add: take_bit_eq_mod)
  next
    case False
    have "unat (x AND (of_nat cap - 1)) < 2 ^ 64"
      using unsigned_less [of "x AND (of_nat cap - 1)"] by simp
    also have "(2::nat) ^ 64 \<le> cap"
      unfolding cap using False by (intro power_increasing) auto
    finally show ?thesis .
  qed
  then show ?thesis by (simp add: hash_slot_def Let_def)
qed


lemma pow2_pos: "pow2 n \<Longrightarrow> 0 < n"
  by (auto simp: pow2_def)

text \<open>The slot reached after \<open>d\<close> steps of linear probing.\<close>

definition probe :: "u64 list \<Rightarrow> nat \<Rightarrow> nat \<Rightarrow> nat" where
  "probe ks s d = (s + d) mod length ks"

lemma probe_0: "s < length ks \<Longrightarrow> probe ks s 0 = s"
  by (simp add: probe_def)

lemma probe_less: "0 < length ks \<Longrightarrow> probe ks s d < length ks"
  by (simp add: probe_def)

lemma next_probe:
  assumes "pow2 (length ks)"
  shows "next_slot (length ks) (probe ks s d) = probe ks s (Suc d)"
  using next_slot_mod [OF assms] by (simp add: probe_def mod_Suc_eq)

lemma probe_hits: "i < length ks \<Longrightarrow> s < length ks \<Longrightarrow> \<exists>d < length ks. probe ks s d = i"
proof -
  assume i: "i < length ks" and s: "s < length ks"
  show ?thesis
  proof (cases "s \<le> i")
    case True
    then show ?thesis using i by (intro exI [of _ "i - s"]) (simp add: probe_def)
  next
    case False
    then show ?thesis using i s by (intro exI [of _ "length ks - s + i"]) (simp add: probe_def)
  qed
qed

lemma probe_update [simp]: "probe (ks[j := x]) = probe ks"
  by (simp add: probe_def fun_eq_iff)

lemma probe_while_idle: "\<not> busy (ks ! i) \<Longrightarrow> probe_while busy ks i = Some i"
  by (subst probe_while.simps) simp

lemma probe_while_busy:
  "busy (ks ! i) \<Longrightarrow> probe_while busy ks i = probe_while busy ks (next_slot (length ks) i)"
  by (subst probe_while.simps) simp

lemma probe_while_until:
  assumes "pow2 (length ks)" "\<not> busy (ks ! probe ks s (d + n))"
    "\<And>e. e < n \<Longrightarrow> busy (ks ! probe ks s (d + e))"
  shows "probe_while busy ks (probe ks s d) = Some (probe ks s (d + n))"
  using assms(2,3)
proof (induction n arbitrary: d)
  case 0
  then show ?case by (simp add: probe_while_idle)
next
  case (Suc n)
  have "probe_while busy ks (probe ks s (Suc d)) = Some (probe ks s (Suc d + n))"
    using Suc.IH [of "Suc d"] Suc.prems(1) Suc.prems(2) [of "Suc e" for e] by simp
  then show ?case using Suc.prems(2) [of 0] next_probe [OF assms(1)]
    by (simp add: probe_while_busy)
qed

lemma probe_while_stops:
  assumes p: "pow2 (length ks)" and s: "s < length ks" and i: "i < length ks" "\<not> busy (ks ! i)"
  shows "\<exists>d < length ks. probe_while busy ks s = Some (probe ks s d) \<and>
           \<not> busy (ks ! probe ks s d) \<and> (\<forall>e < d. busy (ks ! probe ks s e))"
proof -
  obtain D where D: "D < length ks" "probe ks s D = i" using probe_hits [OF i(1) s] by blast
  define P where "P d \<longleftrightarrow> \<not> busy (ks ! probe ks s d)" for d
  define d where "d = (LEAST d. P d)"
  have P: "P D" using D i(2) by (simp add: P_def)
  have d: "P d" "d \<le> D" unfolding d_def using LeastI [of P, OF P] Least_le [of P, OF P] by blast+
  have before: "busy (ks ! probe ks s e)" if "e < d" for e
    using not_less_Least [OF that [unfolded d_def]] by (simp add: P_def)
  have "probe_while busy ks (probe ks s 0) = Some (probe ks s (0 + d))"
    by (rule probe_while_until [OF p]) (use d(1) before in \<open>auto simp: P_def\<close>)
  then have "probe_while busy ks s = Some (probe ks s d)" by (simp add: probe_0 [OF s])
  then show ?thesis using d before D(1) unfolding P_def by (intro exI [of _ d]) (simp add: le_less_trans)
qed

lemma find_from_hit:
  assumes "pow2 (length ks)" "key \<noteq> 0" "d + r = D" "ks ! probe ks s D = key"
    "\<forall>e < D. ks ! probe ks s e \<noteq> 0 \<and> ks ! probe ks s e \<noteq> key"
  shows "find_from ks key (probe ks s d) (Suc r + x) = Some (probe ks s D)"
  using assms(3)
proof (induction r arbitrary: d)
  case 0
  then show ?case using assms by simp
next
  case (Suc r)
  then have "ks ! probe ks s d \<noteq> 0 \<and> ks ! probe ks s d \<noteq> key" using assms(5) by auto
  then show ?case using Suc.IH [of "Suc d"] Suc.prems by (simp add: next_probe [OF assms(1)])
qed

lemma find_from_SomeD:
  assumes "find_from ks key (probe ks s d) r = Some i" "pow2 (length ks)"
  shows "i < length ks \<and> ks ! i = key"
  using assms(1)
proof (induction r arbitrary: d)
  case (Suc r)
  then show ?case using probe_less [of ks s d] pow2_pos [OF assms(2)]
    by (auto simp: next_probe [OF assms(2)] split: if_splits)
qed simp

section \<open>Search under the invariant\<close>

lemma keys_okD:
  assumes "keys_ok ks"
  shows "i < length ks \<Longrightarrow> live (ks ! i) \<Longrightarrow> reach ks i"
    and "i < length ks \<Longrightarrow> j < length ks \<Longrightarrow> live (ks ! i) \<Longrightarrow> ks ! i = ks ! j \<Longrightarrow> i = j"
    and "ks \<noteq> [] \<Longrightarrow> pow2 (length ks)"
  using assms unfolding keys_ok_def by blast+

lemma keys_okI:
  assumes "ks \<noteq> [] \<Longrightarrow> pow2 (length ks)"
    "\<And>i. i < length ks \<Longrightarrow> live (ks ! i) \<Longrightarrow> reach ks i"
    "\<And>i j. i < length ks \<Longrightarrow> j < length ks \<Longrightarrow> live (ks ! i) \<Longrightarrow> ks ! i = ks ! j \<Longrightarrow> i = j"
  shows "keys_ok ks"
  using assms unfolding keys_ok_def by blast

lemma entry_index_SomeD: "entry_index ks key = Some i \<Longrightarrow> live key \<and> i < length ks \<and> ks ! i = key"
  by (auto simp: entry_index_def find_Some_iff split: if_splits)

lemma entry_index_None: "entry_index ks key = None \<longleftrightarrow> \<not> live key \<or> key \<notin> set ks"
  by (auto simp: entry_index_def find_None_iff in_set_conv_nth)

lemma entry_indexI:
  assumes "live key" "i < length ks" "ks ! i = key"
    "\<And>j. j < length ks \<Longrightarrow> ks ! j = key \<Longrightarrow> j = i"
  shows "entry_index ks key = Some i"
proof (cases "entry_index ks key")
  case None
  then show ?thesis using assms(1-3) nth_mem [of i ks] by (simp add: entry_index_None)
next
  case (Some j)
  then show ?thesis using entry_index_SomeD [OF Some] assms(4) by blast
qed

lemma find_from_absent:
  assumes "pow2 (length ks)" "key \<notin> set ks"
  shows "find_from ks key (probe ks s d) r = None"
proof (rule ccontr)
  assume "find_from ks key (probe ks s d) r \<noteq> None"
  then obtain i where "find_from ks key (probe ks s d) r = Some i" by blast
  from find_from_SomeD [OF this assms(1)] show False using assms(2) nth_mem [of i ks] by simp
qed

lemma reach_probe:
  assumes "reach ks i" "ks ! i = key"
  shows "\<exists>d < length ks. probe ks (hash_slot key (length ks)) d = i \<and>
     (\<forall>e < d. ks ! probe ks (hash_slot key (length ks)) e \<noteq> 0)"
  using assms unfolding reach_def probe_def by metis

lemma find_from_present:
  assumes p: "pow2 (length ks)" and l: "key \<noteq> 0" and i: "ks ! i = key"
    and d: "d < length ks" "probe ks s d = i" "\<forall>e < d. ks ! probe ks s e \<noteq> 0"
    and uniq: "\<And>j. j < length ks \<Longrightarrow> ks ! j = key \<Longrightarrow> j = i"
  shows "find_from ks key (probe ks s 0) (length ks) = Some i"
proof -
  define D where "D = (LEAST d. probe ks s d = i)"
  have D: "probe ks s D = i" "D \<le> d"
    unfolding D_def using LeastI [of "\<lambda>d. probe ks s d = i", OF d(2)]
      Least_le [of "\<lambda>d. probe ks s d = i", OF d(2)] by blast+
  have before: "ks ! probe ks s e \<noteq> 0 \<and> ks ! probe ks s e \<noteq> key" if e: "e < D" for e
  proof
    show "ks ! probe ks s e \<noteq> 0" using d(3) D(2) e by simp
    have "probe ks s e \<noteq> i" using not_less_Least [OF e [unfolded D_def]] .
    then show "ks ! probe ks s e \<noteq> key" using uniq [OF probe_less [OF pow2_pos [OF p]]] by blast
  qed
  have hit: "find_from ks key (probe ks s 0) (Suc D + (length ks - Suc D)) = Some (probe ks s D)"
    by (rule find_from_hit [OF p l]) (use D(1) i before in auto)
  have fuel: "Suc D + (length ks - Suc D) = length ks" using D(2) d(1) by linarith
  show ?thesis using hit unfolding fuel D(1) .
qed

lemma find_entry:
  assumes ok: "keys_ok (hk h)" and l: "live key"
  shows "hash_find_locked h key = entry_index (hk h) key"
proof (cases "hk h = []")
  case True
  then show ?thesis by (simp add: hash_find_locked_def entry_index_def)
next
  case False
  define ks s where "ks = hk h" and "s = hash_slot key (length ks)"
  have p: "pow2 (length ks)" using keys_okD(3) [OF ok False] by (simp add: ks_def)
  have "s < length ks" unfolding s_def by (rule hash_slot_less [OF p])
  then have find: "hash_find_locked h key = find_from ks key (probe ks s 0) (length ks)"
    using False by (simp add: hash_find_locked_def probe_0 ks_def s_def)
  show ?thesis
  proof (cases "entry_index ks key")
    case None
    then have "key \<notin> set ks" using l by (simp add: entry_index_None)
    then show ?thesis using find find_from_absent [OF p] None by (simp add: ks_def)
  next
    case (Some i)
    then have i: "i < length ks" "ks ! i = key" using entry_index_SomeD by blast+
    have r: "reach ks i" using keys_okD(1) [OF ok] i l by (simp add: ks_def)
    obtain d where d: "d < length ks" "probe ks s d = i" "\<forall>e < d. ks ! probe ks s e \<noteq> 0"
      using reach_probe [OF r i(2)] unfolding s_def by blast
    have uniq: "j = i" if "j < length ks" "ks ! j = key" for j
      using keys_okD(2) [OF ok, of j i] i l that by (simp add: ks_def)
    have k0: "key \<noteq> 0" using l by (simp add: live_def)
    have "find_from ks key (probe ks s 0) (length ks) = Some i"
      by (rule find_from_present [OF p k0 i(2) d uniq])
    then show ?thesis using find Some by (simp add: ks_def)
  qed
qed

section \<open>Writing a slot\<close>

lemma length_filter_update:
  "i < length ks \<Longrightarrow> length (filter P (ks[i := x])) + (if P (ks ! i) then 1 else 0) =
     length (filter P ks) + (if P x then 1 else 0)"
proof (induction ks arbitrary: i)
  case (Cons k ks)
  then show ?case by (cases i) (auto split: if_splits)
qed simp

lemma nth_update_nonzero: "x \<noteq> 0 \<Longrightarrow> ks ! j \<noteq> 0 \<Longrightarrow> ks[i := x] ! j \<noteq> (0 :: u64)"
  by (cases "i < length ks") (auto simp: nth_list_update list_update_beyond)

lemma reach_update:
  assumes "reach ks j" "j \<noteq> i" "x \<noteq> 0"
  shows "reach (ks[i := x]) j"
  using assms nth_update_nonzero [OF assms(3)] unfolding reach_def by auto

lemma keys_ok_tomb:
  assumes ok: "keys_ok ks" and i: "i < length ks" "live (ks ! i)"
  shows "keys_ok (ks[i := HASH_TOMB])"
proof -
  have l: "j \<noteq> i \<and> live (ks ! j)" if "j < length ks" "live (ks[i := HASH_TOMB] ! j)" for j
    using that i(1) by (auto simp: nth_list_update live_def split: if_splits)
  have "reach (ks[i := HASH_TOMB]) j" if "j < length ks" "live (ks[i := HASH_TOMB] ! j)" for j
    using l [OF that] keys_okD(1) [OF ok that(1)] by (simp add: reach_update)
  moreover have "a = b" if "a < length ks" "b < length ks" "live (ks[i := HASH_TOMB] ! a)"
    "ks[i := HASH_TOMB] ! a = ks[i := HASH_TOMB] ! b" for a b
    using l [OF that(1,3)] l [OF that(2)] that keys_okD(2) [OF ok that(1,2)] by simp
  moreover have "pow2 (length ks)" using keys_okD(3) [OF ok] i(1) by (cases ks) auto
  ultimately show ?thesis by (intro keys_okI) (simp_all only: length_list_update)
qed

lemma keys_ok_insert:
  assumes ok: "keys_ok ks" and i: "i < length ks" "\<not> live (ks ! i)"
    and key: "live key" "key \<notin> set ks"
    and d: "d < length ks" "probe ks (hash_slot key (length ks)) d = i"
      "\<And>e. e < d \<Longrightarrow> ks ! probe ks (hash_slot key (length ks)) e \<noteq> 0"
  shows "keys_ok (ks[i := key])"
proof -
  have k0: "key \<noteq> 0" using key(1) by (simp add: live_def)
  have "reach (ks[i := key]) i"
    using d i(1) nth_update_nonzero [OF k0 d(3)] unfolding reach_def probe_def by auto
  then have "reach (ks[i := key]) j" if "j < length ks" "live (ks[i := key] ! j)" for j
    using keys_okD(1) [OF ok that(1)] that(2) reach_update [OF _ _ k0] by (cases "j = i") auto
  moreover have "a = b" if "a < length ks" "b < length ks" "live (ks[i := key] ! a)"
    "ks[i := key] ! a = ks[i := key] ! b" for a b
  proof -
    have "ks ! a \<noteq> key" "ks ! b \<noteq> key" using key(2) that(1,2) nth_mem by blast+
    then show ?thesis using that keys_okD(2) [OF ok that(1,2)]
      by (cases "a = i"; cases "b = i") auto
  qed
  moreover have "pow2 (length ks)" using keys_okD(3) [OF ok] i(1) by (cases ks) auto
  ultimately show ?thesis by (intro keys_okI) (simp_all only: length_list_update)
qed

lemma entry_index_iff:
  assumes "keys_ok ks"
  shows "entry_index ks key = Some i \<longleftrightarrow> live key \<and> i < length ks \<and> ks ! i = key"
proof
  assume "live key \<and> i < length ks \<and> ks ! i = key"
  then show "entry_index ks key = Some i"
    using entry_indexI [of key i ks] keys_okD(2) [OF assms, of i] by simp
qed (rule entry_index_SomeD)

lemma option_eqI: "(\<And>j. x = Some j \<longleftrightarrow> y = Some j) \<Longrightarrow> x = y"
  by (cases x; cases y) auto

lemma entry_index_insert:
  assumes "keys_ok ks" "keys_ok (ks[i := key])" "i < length ks" "\<not> live (ks ! i)" "live key"
  shows "entry_index (ks[i := key]) k' = (if k' = key then Some i else entry_index ks k')"
proof (cases "k' = key")
  case True
  then show ?thesis using assms by (simp add: entry_index_iff)
next
  case False
  have "entry_index (ks[i := key]) k' = Some j \<longleftrightarrow> entry_index ks k' = Some j" for j
    using assms False by (auto simp: entry_index_iff nth_list_update)
  from option_eqI [OF this] show ?thesis using False by simp
qed

lemma entry_index_tomb:
  assumes "keys_ok ks" "i < length ks" "live (ks ! i)"
  shows "entry_index (ks[i := HASH_TOMB]) k' = (if k' = ks ! i then None else entry_index ks k')"
proof (rule option_eqI)
  fix j
  show "entry_index (ks[i := HASH_TOMB]) k' = Some j \<longleftrightarrow>
    (if k' = ks ! i then None else entry_index ks k') = Some j"
  proof (cases "j = i")
    case True
    then show ?thesis
      using assms by (simp add: entry_index_iff keys_ok_tomb) (auto simp: live_def)
  next
    case False
    have "ks ! j \<noteq> ks ! i" if "j < length ks"
      using False keys_okD(2) [OF assms(1,2) that assms(3)] by metis
    then show ?thesis
      using False entry_index_iff [OF keys_ok_tomb [OF assms], of k' j] entry_index_iff [OF assms(1), of k' j]
      by (cases "k' = ks ! i") auto
  qed
qed

lemma lookup_insert:
  assumes "keys_ok ks" "keys_ok (ks[i := key])" "i < length ks" "\<not> live (ks ! i)" "live key"
    "length vs = length ks"
  shows "lookup (ks[i := key]) (vs[i := val]) = (lookup ks vs)(key \<mapsto> val)"
proof
  fix k'
  show "lookup (ks[i := key]) (vs[i := val]) k' = ((lookup ks vs)(key \<mapsto> val)) k'"
    using entry_index_insert [OF assms(1-5), of k'] entry_index_SomeD [of ks k' i] assms(3,4,6)
    by (cases "entry_index ks k'") (auto simp: lookup_def nth_list_update)
qed

lemma lookup_tomb:
  assumes "keys_ok ks" "i < length ks" "live (ks ! i)" "length vs = length ks"
  shows "lookup (ks[i := HASH_TOMB]) (vs[i := 0]) = (lookup ks vs)(ks ! i := None)"
proof
  fix k'
  show "lookup (ks[i := HASH_TOMB]) (vs[i := 0]) k' = ((lookup ks vs)(ks ! i := None)) k'"
    using entry_index_tomb [OF assms(1-3), of k'] entry_index_SomeD [of ks k' i] assms(2,4)
    by (cases "entry_index ks k'") (auto simp: lookup_def nth_list_update)
qed

lemma lookup_val:
  assumes "keys_ok ks" "entry_index ks key = Some i" "length vs = length ks"
  shows "lookup ks (vs[i := val]) = (lookup ks vs)(key \<mapsto> val)"
proof
  fix k'
  show "lookup ks (vs[i := val]) k' = ((lookup ks vs)(key \<mapsto> val)) k'"
    using assms entry_index_SomeD [of ks key i] entry_index_SomeD [of ks k' i]
    by (cases "entry_index ks k'") (auto simp: lookup_def nth_list_update)
qed

section \<open>Operations keep the invariant and implement the map\<close>

lemma filter_less_exists: "length (filter P ks) < length ks \<Longrightarrow> \<exists>i < length ks. \<not> P (ks ! i)"
  by (metis filter_True in_set_conv_nth less_irrefl)

text \<open>One insertion by linear probing, as both loops of the code do it.\<close>

lemma probe_insert:
  assumes ok: "keys_ok ks" and key: "live key" "key \<notin> set ks"
    and room: "length (filter (\<lambda>k. k \<noteq> 0) ks) < length ks"
    and busy: "\<And>x. live x \<Longrightarrow> busy x" "\<not> busy 0" "\<And>x. busy x \<Longrightarrow> x \<noteq> 0"
      "\<And>x. x \<in> set ks \<Longrightarrow> busy x \<Longrightarrow> live x"
  shows "\<exists>i < length ks. probe_while busy ks (hash_slot key (length ks)) = Some i \<and>
     \<not> live (ks ! i) \<and> keys_ok (ks[i := key])"
proof -
  have "ks \<noteq> []" using room by auto
  then have p: "pow2 (length ks)" by (rule keys_okD(3) [OF ok])
  define s where "s = hash_slot key (length ks)"
  have s: "s < length ks" unfolding s_def by (rule hash_slot_less [OF p])
  obtain z where "z < length ks" "ks ! z = 0" using filter_less_exists [OF room] by blast
  then obtain d where d: "d < length ks" "probe_while busy ks s = Some (probe ks s d)"
    "\<not> busy (ks ! probe ks s d)" "\<forall>e < d. busy (ks ! probe ks s e)"
    using probe_while_stops [OF p s, of z busy] busy(2) by auto
  have i: "probe ks s d < length ks" by (rule probe_less [OF pow2_pos [OF p]])
  have nl: "\<not> live (ks ! probe ks s d)" using d(3) busy(1) by blast
  have "keys_ok (ks[probe ks s d := key])"
    using keys_ok_insert [OF ok i nl key d(1)] d(4) busy(3) unfolding s_def by blast
  then show ?thesis using d(2) i nl unfolding s_def by blast
qed

lemma hash_insert_spec:
  assumes inv: "hash_inv h" and key: "live key" "key \<notin> set (hk h)"
    and load: "(hused h + 1) * 4 \<le> hcap h * 3"
  shows "\<exists>h'. hash_insert h key val = Some (True, h') \<and> hash_inv h' \<and>
    hash_abs h' = (hash_abs h)(key \<mapsto> val)"
proof -
  have ok: "keys_ok (hk h)" using inv by (simp add: hash_inv_def)
  have room: "length (filter (\<lambda>k. k \<noteq> 0) (hk h)) < hcap h" using inv load by (simp add: hash_inv_def)
  obtain i where i: "i < hcap h" "\<not> live (hk h ! i)" "keys_ok ((hk h)[i := key])"
    "probe_while (\<lambda>x. x \<noteq> 0 \<and> x \<noteq> HASH_TOMB) (hk h) (hash_slot key (hcap h)) = Some i"
    using probe_insert [OF ok key room, of "\<lambda>x. x \<noteq> 0 \<and> x \<noteq> HASH_TOMB"] by (auto simp: live_def)
  have k0: "key \<noteq> 0" using key(1) by (simp add: live_def)
  let ?h = "h\<lparr>hk := (hk h)[i := key], hv := (hv h)[i := val],
              hused := (if hk h ! i = 0 then hused h + 1 else hused h), hn := hn h + 1\<rparr>"
  have "hash_inv ?h"
    using inv i(1-3) load key(1) k0 length_filter_update [of i "hk h" live key]
      length_filter_update [of i "hk h" "\<lambda>k. k \<noteq> 0" key]
    by (auto simp: hash_inv_def)
  moreover have "hash_abs ?h = (hash_abs h)(key \<mapsto> val)"
    using lookup_insert [OF ok i(3,1,2) key(1)] inv by (simp add: hash_abs_def hash_inv_def)
  ultimately show ?thesis by (simp add: hash_insert_def i(4))
qed

lemma grow_cap_pow2: "pow2 cap \<Longrightarrow> pow2 (grow_cap n cap) \<and> (n + 1) * 2 \<le> grow_cap n cap"
proof (induction n cap rule: grow_cap.induct)
  case (1 n cap)
  have "pow2 (cap * 2)" using 1(2) by (auto simp: pow2_def intro: exI [of _ "Suc _"])
  then show ?case using 1 pow2_pos [of cap] by (subst (1 2) grow_cap.simps) auto
qed

lemma rehash_spec:
  assumes "keys_ok k" "length v = length k" "HASH_TOMB \<notin> set k"
    "distinct (filter live (map fst es))" "set (filter live (map fst es)) \<inter> set k = {}"
    "length (filter (\<lambda>x. x \<noteq> 0) k) + length (filter live (map fst es)) < length k"
  shows "\<exists>k' v'. rehash es k v = Some (k', v') \<and> keys_ok k' \<and> length k' = length k \<and>
    length v' = length k \<and> HASH_TOMB \<notin> set k' \<and>
    length (filter (\<lambda>x. x \<noteq> 0) k') = length (filter (\<lambda>x. x \<noteq> 0) k) + length (filter live (map fst es)) \<and>
    lookup k' v' = lookup k v ++ map_of (filter (\<lambda>e. live (fst e)) es)"
  using assms
proof (induction es arbitrary: k v)
  case Nil
  then show ?case by simp
next
  case (Cons e es)
  obtain key val where e: "e = (key, val)" by (cases e)
  show ?case
  proof (cases "live key")
    case False
    then have "rehash (e # es) k v = rehash es k v" by (auto simp: e live_def)
    then show ?thesis using Cons.IH [OF Cons.prems(1-3)] Cons.prems(4-6) False e by simp
  next
    case True
    have new: "key \<notin> set k" using Cons.prems(5) e True by simp
    obtain j where j: "j < length k" "probe_while (\<lambda>x. x \<noteq> 0) k (hash_slot key (length k)) = Some j"
      "\<not> live (k ! j)" "keys_ok (k[j := key])"
      using probe_insert [OF Cons.prems(1) True new, of "\<lambda>x. x \<noteq> 0"] Cons.prems(3,6)
      by (auto simp: live_def)
    have kj: "k ! j = 0" using j(3) Cons.prems(3) nth_mem [OF j(1)] unfolding live_def by metis
    have nt: "key \<noteq> HASH_TOMB" "key \<noteq> 0" using True by (auto simp: live_def)
    have cnt: "length (filter (\<lambda>x. x \<noteq> 0) (k[j := key])) = Suc (length (filter (\<lambda>x. x \<noteq> 0) k))"
      using length_filter_update [OF j(1), of "\<lambda>x. x \<noteq> 0" key] kj nt by simp
    have fresh: "key \<notin> set (filter live (map fst es))" using Cons.prems(4) e True by simp
    have "set (filter live (map fst es)) \<subseteq> set (filter live (map fst (e # es)))" by auto
    then have "set (filter live (map fst es)) \<inter> set (k[j := key]) = {}"
      using Cons.prems(5) fresh set_update_subset_insert [of k j key] by blast
    moreover have "HASH_TOMB \<notin> set (k[j := key])"
      using Cons.prems(3) nt set_update_subset_insert [of k j key] by blast
    ultimately have IH: "\<exists>k' v'. rehash es (k[j := key]) (v[j := val]) = Some (k', v') \<and> keys_ok k' \<and>
      length k' = length k \<and> length v' = length k \<and> HASH_TOMB \<notin> set k' \<and>
      length (filter (\<lambda>x. x \<noteq> 0) k') = Suc (length (filter (\<lambda>x. x \<noteq> 0) k)) + length (filter live (map fst es)) \<and>
      lookup k' v' = lookup (k[j := key]) (v[j := val]) ++ map_of (filter (\<lambda>e. live (fst e)) es)"
      using Cons.IH [OF j(4), of "v[j := val]"] Cons.prems(2-4,6) e True nt cnt by simp
    have "key \<notin> dom (map_of (filter (\<lambda>e. live (fst e)) es))"
      using fresh by (auto simp: dom_map_of_conv_image_fst)
    then have upd: "(lookup k v)(key \<mapsto> val) ++ map_of (filter (\<lambda>e. live (fst e)) es) =
      lookup k v ++ map_of (filter (\<lambda>e. live (fst e)) (e # es))"
      using e True by (simp add: map_add_upd_left)
    have step: "rehash (e # es) k v = rehash es (k[j := key]) (v[j := val])"
      using j(2) nt e by simp
    have count: "length (filter live (map fst (e # es))) = Suc (length (filter live (map fst es)))"
      using e True by simp
    from IH show ?thesis
      unfolding step count lookup_insert [OF Cons.prems(1) j(4,1,3) True Cons.prems(2)] upd by simp
  qed
qed

lemma distinct_filter_index:
  "(\<And>i j. i < length ks \<Longrightarrow> j < length ks \<Longrightarrow> P (ks ! i) \<Longrightarrow> ks ! i = ks ! j \<Longrightarrow> i = j) \<Longrightarrow>
   distinct (filter P ks)"
proof (induction ks)
  case (Cons k ks)
  have "i = j" if "i < length ks" "j < length ks" "P (ks ! i)" "ks ! i = ks ! j" for i j
    using Cons.prems [of "Suc i" "Suc j"] that by simp
  then have "distinct (filter P ks)" by (rule Cons.IH)
  moreover have "k \<notin> set ks" if "P k"
  proof
    assume "k \<in> set ks"
    then obtain j where "j < length ks" "ks ! j = k" by (auto simp: in_set_conv_nth)
    then show False using Cons.prems [of 0 "Suc j"] that by simp
  qed
  ultimately show ?case by simp
qed simp

lemma live_keys_zip: "length vs = length ks \<Longrightarrow>
  map fst (filter (\<lambda>e. live (fst e)) (zip ks vs)) = filter live ks"
  by (induction ks vs rule: list_induct2') auto

lemma lookup_map_of:
  assumes "keys_ok ks" "length vs = length ks"
  shows "lookup ks vs = map_of (filter (\<lambda>e. live (fst e)) (zip ks vs))"
proof
  fix key
  let ?es = "filter (\<lambda>e. live (fst e)) (zip ks vs)"
  have dist: "distinct (map fst ?es)"
    using distinct_filter_index [of ks live, OF keys_okD(2) [OF assms(1)]] by (simp add: live_keys_zip assms(2))
  show "lookup ks vs key = map_of ?es key"
  proof (cases "entry_index ks key")
    case None
    then have "key \<notin> set (map fst ?es)"
      unfolding live_keys_zip [OF assms(2)] by (auto simp: entry_index_None)
    then have "map_of ?es key = None" unfolding map_of_eq_None_iff set_map .
    then show ?thesis using None by (simp only: lookup_def option.map)
  next
    case (Some i)
    then have "(key, vs ! i) \<in> set ?es"
      using entry_index_SomeD [OF Some] assms(2) by (auto simp: set_zip)
    then show ?thesis using Some dist by (simp add: lookup_def)
  qed
qed

lemma filter_nonzero_live:
  "HASH_TOMB \<notin> set k \<Longrightarrow> filter (\<lambda>x. x \<noteq> 0) k = filter live k"
  by (induction k) (auto simp: live_def)

lemma keys_ok_zeros: "pow2 n \<Longrightarrow> keys_ok (replicate n 0)"
  by (rule keys_okI) (auto simp: live_def)

lemma hash_grow_spec:
  assumes inv: "hash_inv h"
  shows "\<exists>h'. hash_grow_locked True h = Some (True, h') \<and> hash_inv h' \<and> hash_abs h' = hash_abs h \<and>
    (hused h' + 1) * 4 \<le> hcap h' * 3 \<and> HASH_TOMB \<notin> set (hk h')"
proof -
  define cap where "cap = grow_cap (hn h) (if hcap h \<noteq> 0 then hcap h else 64)"
  have ok: "keys_ok (hk h)" and len: "length (hv h) = length (hk h)"
    and n: "hn h = length (filter live (hk h))" using inv by (auto simp: hash_inv_def)
  have "pow2 (if hcap h \<noteq> 0 then hcap h else 64)"
    using keys_okD(3) [OF ok] by (auto simp: pow2_def intro: exI [of _ 6])
  then have cap: "pow2 cap" "(hn h + 1) * 2 \<le> cap" unfolding cap_def using grow_cap_pow2 by blast+
  define es where "es = zip (hk h) (hv h)"
  have fst_es: "map fst es = hk h" using len by (simp add: es_def)
  have dist: "distinct (filter live (map fst es))"
    unfolding fst_es by (rule distinct_filter_index) (rule keys_okD(2) [OF ok])
  have room: "length (filter (\<lambda>x. x \<noteq> 0) (replicate cap (0::u64))) + length (filter live (map fst es))
    < length (replicate cap (0::u64))" using cap(2) n by (simp add: fst_es)
  have disj: "set (filter live (map fst es)) \<inter> set (replicate cap 0) = {}" by (auto simp: live_def)
  have "HASH_TOMB \<notin> set (replicate cap 0)" by simp
  from rehash_spec [OF keys_ok_zeros [OF cap(1)] _ this dist disj room, of "replicate cap 0"]
  obtain k v where kv: "rehash es (replicate cap 0) (replicate cap 0) = Some (k, v)" "keys_ok k"
    "length k = cap" "length v = cap" "HASH_TOMB \<notin> set k"
    "length (filter (\<lambda>x. x \<noteq> 0) k) = hn h"
    "lookup k v = lookup (replicate cap 0) (replicate cap 0) ++ map_of (filter (\<lambda>e. live (fst e)) es)"
    by (auto simp: fst_es n)
  have "lookup (replicate cap 0) (replicate cap 0) = Map.empty"
    by (auto simp: lookup_def entry_index_None live_def)
  then have "lookup k v = lookup (hk h) (hv h)" using kv(7) by (simp add: lookup_map_of [OF ok len] es_def)
  moreover have "hash_grow_locked True h = Some (True, h\<lparr>hk := k, hv := v, hused := hn h\<rparr>)"
    using kv(1) by (simp add: hash_grow_locked_def Let_def cap_def es_def)
  moreover have "length (filter live k) = hn h" using kv(6) filter_nonzero_live [OF kv(5)] by simp
  ultimately show ?thesis using kv cap(2) by (simp add: hash_inv_def hash_abs_def)
qed

lemma hash_grow_failed: "hash_grow_locked False h = Some (False, h)"
  by (simp add: hash_grow_locked_def Let_def)

lemma absent_in_abs: "hash_inv h \<Longrightarrow> live key \<Longrightarrow> hash_abs h key = None \<longleftrightarrow> key \<notin> set (hk h)"
  by (auto simp: hash_abs_def lookup_def entry_index_None)

lemma hash_put_found:
  assumes inv: "hash_inv h" and l: "live key" and at: "entry_index (hk h) key = Some at"
  shows "\<exists>h'. nvhal_hash_put calloc_ok h key val = Some (True, h') \<and> hash_inv h' \<and>
    hash_abs h' = (hash_abs h)(key \<mapsto> val)"
proof -
  have ok: "keys_ok (hk h)" and len: "length (hv h) = hcap h" using inv by (auto simp: hash_inv_def)
  have "nvhal_hash_put calloc_ok h key val = Some (True, h\<lparr>hv := (hv h)[at := val]\<rparr>)"
    using l at by (simp add: nvhal_hash_put_def find_entry [OF ok l] live_def)
  then show ?thesis using inv lookup_val [OF ok at len] by (simp add: hash_inv_def hash_abs_def)
qed

lemma hash_put_new:
  assumes inv: "hash_inv h" and l: "live key" and new: "entry_index (hk h) key = None"
  shows "\<exists>b h'. nvhal_hash_put calloc_ok h key val = Some (b, h') \<and> hash_inv h' \<and>
    (calloc_ok \<longrightarrow> b) \<and> hash_abs h' = (if b then (hash_abs h)(key \<mapsto> val) else hash_abs h)"
proof -
  have ok: "keys_ok (hk h)" using inv by (simp add: hash_inv_def)
  have key: "key \<notin> set (hk h)" using new l by (simp add: entry_index_None)
  have put: "nvhal_hash_put calloc_ok h key val =
    (if (hused h + 1) * 4 > hcap h * 3
     then (case hash_grow_locked calloc_ok h of None \<Rightarrow> None
           | Some (ok, h') \<Rightarrow> if ok then hash_insert h' key val else Some (False, h'))
     else hash_insert h key val)"
    using l new by (simp add: nvhal_hash_put_def find_entry [OF ok l] live_def)
  consider "(hused h + 1) * 4 \<le> hcap h * 3" | "(hused h + 1) * 4 > hcap h * 3" "calloc_ok"
    | "(hused h + 1) * 4 > hcap h * 3" "\<not> calloc_ok" by linarith
  then show ?thesis
  proof cases
    case 1
    then show ?thesis using hash_insert_spec [OF inv l key 1, of val] put by auto
  next
    case 2
    obtain g where g: "hash_grow_locked True h = Some (True, g)" "hash_inv g" "hash_abs g = hash_abs h"
      "(hused g + 1) * 4 \<le> hcap g * 3" using hash_grow_spec [OF inv] by blast
    have "key \<notin> set (hk g)"
      using absent_in_abs [OF g(2) l] absent_in_abs [OF inv l] g(3) key by simp
    then show ?thesis using hash_insert_spec [OF g(2) l _ g(4), of val] put g(1,3) 2 by auto
  next
    case 3
    then show ?thesis using put inv by (intro exI [of _ False] exI [of _ h]) (simp add: hash_grow_failed)
  qed
qed

lemma hash_put_spec:
  assumes "hash_inv h"
  shows "\<exists>b h'. nvhal_hash_put calloc_ok h key val = Some (b, h') \<and> hash_inv h' \<and>
    (b \<longrightarrow> live key) \<and> (calloc_ok \<and> live key \<longrightarrow> b) \<and>
    hash_abs h' = (if b then (hash_abs h)(key \<mapsto> val) else hash_abs h)"
proof (cases "live key")
  case False
  then show ?thesis using assms by (auto simp: nvhal_hash_put_def live_def)
next
  case True
  show ?thesis
  proof (cases "entry_index (hk h) key")
    case None
    then show ?thesis using hash_put_new [OF assms True None] True by blast
  next
    case (Some at)
    obtain h' where "nvhal_hash_put calloc_ok h key val = Some (True, h')" "hash_inv h'"
      "hash_abs h' = (hash_abs h)(key \<mapsto> val)"
      using hash_put_found [OF assms True Some] by blast
    then show ?thesis using True by (intro exI [of _ True] exI [of _ h']) simp
  qed
qed

lemma hash_get_spec:
  assumes "hash_inv h"
  shows "nvhal_hash_get h key = (case hash_abs h key of None \<Rightarrow> 0 | Some v \<Rightarrow> v)"
proof (cases "live key")
  case False
  then have "entry_index (hk h) key = None" by (simp add: entry_index_None)
  then show ?thesis using False by (simp add: nvhal_hash_get_def hash_abs_def lookup_def live_def)
next
  case True
  then show ?thesis using assms find_entry [of h key]
    by (cases "entry_index (hk h) key") (auto simp: nvhal_hash_get_def hash_inv_def hash_abs_def lookup_def live_def)
qed

lemma hash_inv_tomb:
  assumes inv: "hash_inv h" and i: "i < hcap h" "live (hk h ! i)"
  shows "hash_inv (h\<lparr>hk := (hk h)[i := HASH_TOMB], hv := (hv h)[i := 0], hn := hn h - 1\<rparr>)"
proof -
  have ok: "keys_ok (hk h)" using inv by (simp add: hash_inv_def)
  have "hk h ! i \<noteq> 0" using i(2) by (simp add: live_def)
  then show ?thesis
    using inv keys_ok_tomb [OF ok i] i length_filter_update [OF i(1), of live HASH_TOMB]
      length_filter_update [OF i(1), of "\<lambda>k. k \<noteq> 0" HASH_TOMB]
    by (auto simp: hash_inv_def live_def)
qed

lemma hash_del_spec:
  assumes inv: "hash_inv h"
  shows "hash_inv (snd (nvhal_hash_del h key))" (is ?inv)
    and "hash_abs (snd (nvhal_hash_del h key)) = (hash_abs h)(key := None)" (is ?abs)
    and "fst (nvhal_hash_del h key) = nvhal_hash_get h key" (is ?ret)
proof -
  have ok: "keys_ok (hk h)" and len: "length (hv h) = hcap h" using inv by (auto simp: hash_inv_def)
  have "?inv \<and> ?abs \<and> ?ret"
  proof (cases "entry_index (hk h) key")
    case None
    then have "nvhal_hash_del h key = (0, h)" "nvhal_hash_get h key = 0"
      using find_entry [OF ok, of key] by (auto simp: nvhal_hash_del_def nvhal_hash_get_def live_def)
    then show ?thesis using None inv by (simp add: hash_abs_def lookup_def fun_upd_idem)
  next
    case (Some i)
    then have i: "live key" "i < hcap h" "hk h ! i = key" using entry_index_SomeD by blast+
    have l: "live (hk h ! i)" using i by simp
    have "nvhal_hash_del h key =
      (hv h ! i, h\<lparr>hk := (hk h)[i := HASH_TOMB], hv := (hv h)[i := 0], hn := hn h - 1\<rparr>)"
      "nvhal_hash_get h key = hv h ! i"
      using Some i(1) find_entry [OF ok i(1)] by (auto simp: nvhal_hash_del_def nvhal_hash_get_def live_def)
    then show ?thesis using hash_inv_tomb [OF inv i(2) l] lookup_tomb [OF ok i(2) l len] i(3)
      by (simp add: hash_abs_def)
  qed
  then show ?inv ?abs ?ret by blast+
qed

lemma hash_init_inv: "hash_inv NVHAL_HASH_INIT" "hash_abs NVHAL_HASH_INIT = Map.empty"
  by (auto simp: NVHAL_HASH_INIT_def hash_inv_def keys_ok_def hash_abs_def lookup_def entry_index_None)

lemma hash_put_results:
  assumes "hash_inv h" "nvhal_hash_put calloc_ok h key val = Some (b, h')"
  shows "hash_inv h'" "b \<longrightarrow> live key" "calloc_ok \<and> live key \<longrightarrow> b"
    "hash_abs h' = (if b then (hash_abs h)(key \<mapsto> val) else hash_abs h)"
  using hash_put_spec [OF assms(1), of calloc_ok key val] assms(2) by auto

interpretation hhash: handle_table nvhal_hash_get nvhal_hash_put nvhal_hash_del hash_inv hash_abs live
proof
  fix m k ok v b m'
  assume inv: "hash_inv m"
  show "nvhal_hash_get m k = (case hash_abs m k of None \<Rightarrow> 0 | Some v \<Rightarrow> v)"
    by (rule hash_get_spec [OF inv])
  show "nvhal_hash_put ok m k v \<noteq> None"
    using hash_put_spec [OF inv, of ok k v] by auto
  show "hash_inv (snd (nvhal_hash_del m k))" by (rule hash_del_spec(1) [OF inv])
  show "hash_abs (snd (nvhal_hash_del m k)) = (hash_abs m)(k := None)" by (rule hash_del_spec(2) [OF inv])
  show "fst (nvhal_hash_del m k) = nvhal_hash_get m k" by (rule hash_del_spec(3) [OF inv])
  { assume put: "nvhal_hash_put ok m k v = Some (b, m')"
    show "hash_inv m'" by (rule hash_put_results(1) [OF inv put]) }
  { assume put: "nvhal_hash_put ok m k v = Some (True, m')"
    show "live k \<and> hash_abs m' = (hash_abs m)(k \<mapsto> v)"
      using hash_put_results(2,4) [OF inv put] by simp }
  { assume put: "nvhal_hash_put ok m k v = Some (False, m')"
    show "hash_abs m' = hash_abs m \<and> \<not> (ok \<and> live k)"
      using hash_put_results(3,4) [OF inv put] by simp }
qed

section \<open>Sweep\<close>

definition swept :: "(handle \<Rightarrow> bool) \<Rightarrow> nvhal_hash \<Rightarrow> nat \<Rightarrow> bool" where
  "swept pred h i \<longleftrightarrow> live (hk h ! i) \<and> pred (hv h ! i)"

lemma sweep_at_eq: "sweep_at pred i (h, ds) =
    (if swept pred h i
     then (h\<lparr>hk := (hk h)[i := HASH_TOMB], hv := (hv h)[i := 0], hn := hn h - 1\<rparr>, ds @ [hv h ! i])
     else (h, ds))"
  by (simp add: sweep_at_def swept_def live_def)

lemma sweep_loop:
  assumes inv: "hash_inv h" and m: "m \<le> hcap h"
  shows "\<exists>h'. fold (sweep_at pred) [0..<m] (h, []) =
      (h', map ((!) (hv h)) (filter (swept pred h) [0..<m])) \<and>
    hash_inv h' \<and> hcap h' = hcap h \<and>
    (\<forall>j < hcap h. hk h' ! j = (if j < m \<and> swept pred h j then HASH_TOMB else hk h ! j) \<and>
                  hv h' ! j = (if j < m \<and> swept pred h j then 0 else hv h ! j))"
  using m
proof (induction m)
  case 0
  then show ?case using inv by simp
next
  case (Suc m)
  then obtain g where g: "fold (sweep_at pred) [0..<m] (h, []) =
      (g, map ((!) (hv h)) (filter (swept pred h) [0..<m]))" "hash_inv g" "hcap g = hcap h"
    "\<forall>j < hcap h. hk g ! j = (if j < m \<and> swept pred h j then HASH_TOMB else hk h ! j) \<and>
                  hv g ! j = (if j < m \<and> swept pred h j then 0 else hv h ! j)" by auto
  have len: "length (hv g) = hcap h" using g(2,3) by (simp add: hash_inv_def)
  have at: "hk g ! m = hk h ! m" "hv g ! m = hv h ! m" "m < hcap g" using g(3,4) Suc.prems by auto
  then have sw: "swept pred g m = swept pred h m" by (simp add: swept_def)
  show ?case
  proof (cases "swept pred h m")
    case False
    then show ?thesis using g sw by (auto simp: sweep_at_eq less_Suc_eq)
  next
    case True
    let ?g = "g\<lparr>hk := (hk g)[m := HASH_TOMB], hv := (hv g)[m := 0], hn := hn g - 1\<rparr>"
    have "hash_inv ?g" using hash_inv_tomb [OF g(2) at(3)] True at(1) by (simp add: swept_def)
    moreover have "fold (sweep_at pred) [0..<Suc m] (h, []) =
      (?g, map ((!) (hv h)) (filter (swept pred h) [0..<Suc m]))"
      using g(1) True sw at by (simp add: sweep_at_eq)
    moreover have "\<forall>j < hcap h.
      hk ?g ! j = (if j < Suc m \<and> swept pred h j then HASH_TOMB else hk h ! j) \<and>
      hv ?g ! j = (if j < Suc m \<and> swept pred h j then 0 else hv h ! j)"
      using g(3,4) True at(3) len by (auto simp: nth_list_update less_Suc_eq)
    ultimately show ?thesis using g(3) by (intro exI [of _ ?g]) simp
  qed
qed

lemma sweep_abs:
  assumes inv: "hash_inv h" "hash_inv g" and cap: "hcap g = hcap h"
    and k: "\<And>j. j < hcap h \<Longrightarrow> hk g ! j = (if swept pred h j then HASH_TOMB else hk h ! j)"
    and v: "\<And>j. j < hcap h \<Longrightarrow> hv g ! j = (if swept pred h j then 0 else hv h ! j)"
  shows "hash_abs g key = (case hash_abs h key of None \<Rightarrow> None | Some v \<Rightarrow> if pred v then None else Some v)"
proof -
  have ok: "keys_ok (hk h)" "keys_ok (hk g)" using inv by (auto simp: hash_inv_def)
  have iff: "entry_index (hk g) key = Some j \<longleftrightarrow> entry_index (hk h) key = Some j \<and> \<not> swept pred h j" for j
    unfolding entry_index_iff [OF ok(1)] entry_index_iff [OF ok(2)] cap using k [of j]
    by (auto simp: swept_def live_def)
  show ?thesis
  proof (cases "entry_index (hk h) key")
    case None
    then have "entry_index (hk g) key \<noteq> Some j" for j unfolding iff by simp
    then have "entry_index (hk g) key = None" by blast
    then show ?thesis using None by (simp add: hash_abs_def lookup_def)
  next
    case (Some i)
    have i: "live (hk h ! i)" "i < hcap h" using entry_index_SomeD [OF Some] by auto
    show ?thesis
    proof (cases "pred (hv h ! i)")
      case True
      then have "entry_index (hk g) key \<noteq> Some j" for j
        unfolding iff using Some i(1) by (auto simp: swept_def)
      then have "entry_index (hk g) key = None" by blast
      then show ?thesis using Some True by (simp add: hash_abs_def lookup_def)
    next
      case False
      then have "entry_index (hk g) key = Some i" using iff Some by (simp add: swept_def)
      then show ?thesis using Some False v [OF i(2)] by (simp add: hash_abs_def lookup_def swept_def)
    qed
  qed
qed

lemma hash_sweep_spec:
  assumes inv: "hash_inv h"
  shows "\<exists>g. nvhal_hash_sweep h pred = (length (filter (swept pred h) [0..<hcap h]), g,
      map ((!) (hv h)) (filter (swept pred h) [0..<hcap h])) \<and> hash_inv g \<and>
    (\<forall>key. hash_abs g key = (case hash_abs h key of None \<Rightarrow> None | Some v \<Rightarrow> if pred v then None else Some v))"
proof -
  from sweep_loop [OF inv order_refl, of pred] obtain g where
    g: "fold (sweep_at pred) [0..<hcap h] (h, []) = (g, map ((!) (hv h)) (filter (swept pred h) [0..<hcap h]))"
    "hash_inv g" "hcap g = hcap h"
    "\<forall>j < hcap h. hk g ! j = (if swept pred h j then HASH_TOMB else hk h ! j) \<and>
                  hv g ! j = (if swept pred h j then 0 else hv h ! j)"
    by auto
  then show ?thesis using sweep_abs [OF inv g(2,3), of pred] by (simp add: nvhal_hash_sweep_def)
qed

text \<open>The deleted values are those of the removed keys, each key once.\<close>

lemma swept_values:
  assumes inv: "hash_inv h"
  shows "mset (map ((!) (hv h)) (filter (swept pred h) [0..<hcap h])) =
    image_mset (\<lambda>k. the (hash_abs h k)) (mset_set {k. \<exists>v. hash_abs h k = Some v \<and> pred v})"
proof -
  have ok: "keys_ok (hk h)" using inv by (simp add: hash_inv_def)
  define S where "S = {i. i < hcap h \<and> swept pred h i}"
  have e: "entry_index (hk h) (hk h ! i) = Some i" if "i \<in> S" for i
    using that entry_index_iff [OF ok] by (auto simp: S_def swept_def)
  then have the: "the (hash_abs h (hk h ! i)) = hv h ! i" if "i \<in> S" for i
    using that by (simp add: hash_abs_def lookup_def)
  have inj: "inj_on ((!) (hk h)) S"
    using e by (intro inj_onI) (metis option.inject)
  have img: "(!) (hk h) ` S = {k. \<exists>v. hash_abs h k = Some v \<and> pred v}"
  proof
    show "(!) (hk h) ` S \<subseteq> {k. \<exists>v. hash_abs h k = Some v \<and> pred v}"
      using e by (auto simp: hash_abs_def lookup_def) (auto simp: S_def swept_def)
    show "{k. \<exists>v. hash_abs h k = Some v \<and> pred v} \<subseteq> (!) (hk h) ` S"
      by (auto simp: hash_abs_def lookup_def entry_index_iff [OF ok] S_def swept_def)
  qed
  have "mset (filter (swept pred h) [0..<hcap h]) = mset_set S"
    by (simp add: S_def mset_set_set [symmetric] conj_commute)
  then have "mset (map ((!) (hv h)) (filter (swept pred h) [0..<hcap h])) = image_mset ((!) (hv h)) (mset_set S)"
    by simp
  also have "\<dots> = image_mset (\<lambda>i. the (hash_abs h (hk h ! i))) (mset_set S)"
    by (rule image_mset_cong) (simp add: the S_def)
  also have "\<dots> = image_mset (\<lambda>k. the (hash_abs h k)) (mset_set ((!) (hk h) ` S))"
    by (simp add: image_mset_mset_set [OF inj, symmetric] image_mset.compositionality comp_def)
  finally show ?thesis unfolding img .
qed

section \<open>Properties\<close>

definition hash_run :: "nvhal_hash \<Rightarrow> table_op list \<Rightarrow> nvhal_hash option" where
  "hash_run = hhash.table_run"

lemma hash_run_reaches:
  "\<exists>h. hash_run NVHAL_HASH_INIT xs = Some h \<and> hash_inv h \<and> ref_run live Map.empty xs (hash_abs h)"
  using hhash.run_refines [OF hash_init_inv(1), of xs] by (simp add: hash_run_def hash_init_inv(2))

text \<open>
  C6. Every history of inserts and deletes on the hash table returns (no probe loop runs
  forever), keeps the table's invariant (load at most 3/4, no duplicate key, every key reachable
  by its probe sequence) and answers every lookup as a reference map does after that history,
  whatever the hash function collides on, however many tombstones there are and wherever the
  allocator fails.
\<close>

theorem hash_history_refines:
  "\<exists>h M. hash_run NVHAL_HASH_INIT xs = Some h \<and> hash_inv h \<and> ref_run live Map.empty xs M \<and>
     (\<forall>k. nvhal_hash_get h k = (case M k of None \<Rightarrow> 0 | Some v \<Rightarrow> v))"
  using hash_run_reaches [of xs] hash_get_spec by blast

text \<open>
  C26. The sweep of any reachable hash table removes exactly the keys whose value satisfies the
  predicate, calls back once for each of them with its value, and returns their number.
\<close>

theorem hash_sweep_exact:
  "\<exists>h h' n vs. hash_run NVHAL_HASH_INIT xs = Some h \<and> nvhal_hash_sweep h pred = (n, h', vs) \<and>
     hash_inv h' \<and> n = card {k. \<exists>v. hash_abs h k = Some v \<and> pred v} \<and>
     mset vs = image_mset (\<lambda>k. the (hash_abs h k)) (mset_set {k. \<exists>v. hash_abs h k = Some v \<and> pred v}) \<and>
     (\<forall>k. nvhal_hash_get h' k = (case hash_abs h k of None \<Rightarrow> 0 | Some v \<Rightarrow> if pred v then 0 else v))"
proof -
  obtain h where h: "hash_run NVHAL_HASH_INIT xs = Some h" "hash_inv h" using hash_run_reaches by blast
  define vs where "vs = map ((!) (hv h)) (filter (swept pred h) [0..<hcap h])"
  have vs: "mset vs = image_mset (\<lambda>k. the (hash_abs h k)) (mset_set {k. \<exists>v. hash_abs h k = Some v \<and> pred v})"
    using swept_values [OF h(2)] by (simp only: vs_def)
  have n: "length vs = card {k. \<exists>v. hash_abs h k = Some v \<and> pred v}"
    using arg_cong [OF vs, of size] by simp
  obtain h' where h': "nvhal_hash_sweep h pred = (length vs, h', vs)" "hash_inv h'"
    "\<forall>k. hash_abs h' k = (case hash_abs h k of None \<Rightarrow> None | Some v \<Rightarrow> if pred v then None else Some v)"
    using hash_sweep_spec [OF h(2), of pred] by (auto simp: vs_def)
  have "nvhal_hash_get h' k = (case hash_abs h k of None \<Rightarrow> 0 | Some v \<Rightarrow> if pred v then 0 else v)" for k
    using h'(3) by (simp add: hash_get_spec [OF h'(2)] split: option.splits)
  then show ?thesis using h h' vs n by blast
qed

end
