(* ===== verification/Cmd_State.thy ===== *)
theory Cmd_State
  imports Nv_Prelude
begin

text \<open>
  The compute-state shadow of nvidia-prolapse/hal/src/cmdstate.c. The HAL records its own compute
  dispatch (a texture decode) into the app's command buffer, so it keeps, per command buffer, what
  the app last bound and replays it afterwards. Descriptor-set calls are heap objects shared by the
  set indices they still own, counted in \<open>refs\<close>; the heap is an explicit store, a fresh address is
  an answer of the allocator, and every access to an object that is not allocated, every double
  free and every write beyond \<open>calls[32]\<close> is the result \<open>None\<close>.

  Pointers inside the arguments (arrays, the pNext chain) are modelled by what they point to. The
  commands a call forwards to the driver are in its result, so that the driver's state can be
  computed from them (section on the command buffer's state).
\<close>

section \<open>Arguments of the commands\<close>

type_synonym desc_info = "u64 \<times> u64 \<times> u64"

datatype desc_type = SAMPLER | COMBINED_IMAGE_SAMPLER | SAMPLED_IMAGE | STORAGE_IMAGE
  | INPUT_ATTACHMENT | UNIFORM_TEXEL_BUFFER | STORAGE_TEXEL_BUFFER | UNIFORM_BUFFER
  | STORAGE_BUFFER | UNIFORM_BUFFER_DYNAMIC | STORAGE_BUFFER_DYNAMIC | INLINE_UNIFORM_BLOCK
  | OTHER_DESC

text \<open>The pNext of a write: none, an inline uniform block (with its own pNext set or not), another.\<close>

datatype write_next = NoNext | InlineBlock bool "u8 list" | OtherNext

record vk_write =
  w_binding :: nat
  w_elem :: nat
  w_count :: nat
  w_type :: desc_type
  w_next :: write_next
  w_image :: "desc_info list option"
  w_texel :: "u64 list option"
  w_buffer :: "desc_info list option"

datatype push_fn = PushCore | PushKHR

definition VK_SHADER_STAGE_COMPUTE_BIT :: u32 where
  "VK_SHADER_STAGE_COMPUTE_BIT = 0x20"

definition BIND_POINT_COMPUTE :: u32 where
  "BIND_POINT_COMPUTE = 1"

text \<open>
  The commands of the intercept table; the flag \<open>khr\<close> tells the two names of one entry point apart
  and \<open>nx\<close> says that the info structure carries a pNext.
\<close>

datatype cmd =
    CmdBindPipeline u32 handle
  | CmdBindShadersEXT "u32 list" "handle list option"
  | CmdBindDescriptorSets u32 handle nat "handle list" "u32 list"
  | CmdBindDescriptorSets2 bool u32 bool handle nat "handle list" "u32 list"
  | CmdPushConstants handle u32 nat "u8 list"
  | CmdPushConstants2 bool bool handle u32 nat "u8 list"
  | CmdPushDescriptorSet push_fn u32 handle nat "vk_write list"
  | CmdPushDescriptorSet2 bool u32 bool handle nat "vk_write list"
  | CmdPushDescriptorSetWithTemplate nat
  | CmdSetDescriptorBufferOffsetsEXT u32 handle nat "u32 list" "u64 list"
  | CmdSetDescriptorBufferOffsets2EXT u32 bool handle nat "u32 list" "u64 list"
  | CmdBindDescriptorBufferEmbeddedSamplersEXT u32 handle nat
  | CmdBindDescriptorBufferEmbeddedSamplers2EXT u32 bool handle nat
  | CmdBeginConditionalRenderingEXT
  | CmdEndConditionalRenderingEXT
  | CmdHeap nat

section \<open>The shadow\<close>

definition CS_MAX_SETS :: nat where "CS_MAX_SETS = 32"
definition CS_MAX_CALLS :: nat where "CS_MAX_CALLS = CS_MAX_SETS"
definition CS_MAX_PUSH :: nat where "CS_MAX_PUSH = 32"

type_synonym addr = nat

datatype cs_kind = CS_BIND | CS_PUSH_DESC | CS_DB_OFFSETS | CS_DB_SAMPLERS

record cs_call =
  c_kind :: cs_kind
  c_layout :: handle
  c_first :: nat
  c_count :: nat
  c_refs :: nat
  c_sets :: "handle list"
  c_dyn :: "u32 list"
  c_writes :: "vk_write list"
  c_push_fn :: push_fn
  c_indices :: "u32 list"
  c_offsets :: "u64 list"

record cs_push =
  p_layout :: handle
  p_stages :: u32
  p_offset :: nat
  p_data :: "u8 list"

datatype cs_bound = CS_NONE | CS_PIPELINE | CS_SHADER

record nvhal_cmd_state =
  cs_bound :: cs_bound
  cs_pipeline :: handle
  cs_shader :: handle
  cs_owner :: "addr option list"
  cs_calls :: "addr list"
  cs_pushes :: "cs_push list"
  cs_push_compute :: bool
  cs_conditional :: bool
  cs_lost :: "string option"

text \<open>A command buffer: its shadow (none until it is needed) and the heap of its calls.\<close>

record nvhal_cmd =
  e_cs :: "nvhal_cmd_state option"
  e_heap :: "addr \<rightharpoonup> cs_call"

text \<open>What the allocator answers during one command.\<close>

record host_mem =
  state_ok :: bool
  call_at :: "addr option"
  push_ok :: bool

record cs_dev =
  has_push :: bool
  has_push_khr :: bool

definition cs_zero :: nvhal_cmd_state where
  "cs_zero = \<lparr>cs_bound = CS_NONE, cs_pipeline = 0, cs_shader = 0,
    cs_owner = replicate CS_MAX_SETS None, cs_calls = [], cs_pushes = [], cs_push_compute = False,
    cs_conditional = False, cs_lost = None\<rparr>"

fun free_calls :: "addr list \<Rightarrow> (addr \<rightharpoonup> cs_call) \<Rightarrow> (addr \<rightharpoonup> cs_call) option" where
  "free_calls [] h = Some h"
| "free_calls (a # as) h = (case h a of None \<Rightarrow> None | Some _ \<Rightarrow> free_calls as (h(a := None)))"

definition cs_reset :: "nvhal_cmd_state \<Rightarrow> (addr \<rightharpoonup> cs_call) \<Rightarrow> (nvhal_cmd_state \<times> (addr \<rightharpoonup> cs_call)) option" where
  "cs_reset s h = map_option (Pair cs_zero) (free_calls (cs_calls s) h)"

definition nvhal_cs_free :: "nvhal_cmd \<Rightarrow> nvhal_cmd option" where
  "nvhal_cs_free e =
    (case e_cs e of
       None \<Rightarrow> Some e
     | Some s \<Rightarrow> (case cs_reset s (e_heap e) of
                    None \<Rightarrow> None
                  | Some (_, h) \<Rightarrow> Some (e\<lparr>e_cs := None, e_heap := h\<rparr>)))"

definition cs_of :: "host_mem \<Rightarrow> nvhal_cmd \<Rightarrow> nvhal_cmd" where
  "cs_of mem e = (if e_cs e = None \<and> state_ok mem then e\<lparr>e_cs := Some cs_zero\<rparr> else e)"

definition lose :: "nvhal_cmd_state \<Rightarrow> string \<Rightarrow> nvhal_cmd_state" where
  "lose s why = (if cs_lost s = None then s\<lparr>cs_lost := Some why\<rparr> else s)"

definition remove_call :: "nvhal_cmd_state \<Rightarrow> (addr \<rightharpoonup> cs_call) \<Rightarrow> addr \<Rightarrow>
    (nvhal_cmd_state \<times> (addr \<rightharpoonup> cs_call)) option" where
  "remove_call s h c =
    (case h c of
       None \<Rightarrow> None
     | Some _ \<Rightarrow> Some (s\<lparr>cs_calls := remove1 c (cs_calls s)\<rparr>, h(c := None)))"

text \<open>One iteration of the ownership loop: \<open>c\<close> takes index \<open>k\<close>, the former owner loses a reference.\<close>

definition take_index :: "addr \<Rightarrow> nat \<Rightarrow> nvhal_cmd_state \<times> (addr \<rightharpoonup> cs_call) \<Rightarrow>
    (nvhal_cmd_state \<times> (addr \<rightharpoonup> cs_call)) option" where
  "take_index c k = (\<lambda>(s, h).
    let o' = cs_owner s ! k; s1 = s\<lparr>cs_owner := (cs_owner s)[k := Some c]\<rparr>
    in case o' of
         None \<Rightarrow> Some (s1, h)
       | Some a \<Rightarrow> (case h a of
           None \<Rightarrow> None
         | Some oc \<Rightarrow>
             let h1 = h(a \<mapsto> oc\<lparr>c_refs := c_refs oc - 1\<rparr>)
             in if c_refs oc - 1 = 0 then remove_call s1 h1 a else Some (s1, h1)))"

fun take_indices :: "addr \<Rightarrow> nat list \<Rightarrow> nvhal_cmd_state \<times> (addr \<rightharpoonup> cs_call) \<Rightarrow>
    (nvhal_cmd_state \<times> (addr \<rightharpoonup> cs_call)) option" where
  "take_indices c [] x = Some x"
| "take_indices c (k # ks) x = (case take_index c k x of None \<Rightarrow> None | Some y \<Rightarrow> take_indices c ks y)"

definition add_call :: "nvhal_cmd_state \<Rightarrow> (addr \<rightharpoonup> cs_call) \<Rightarrow> addr \<Rightarrow> cs_call \<Rightarrow>
    (nvhal_cmd_state \<times> (addr \<rightharpoonup> cs_call)) option" where
  "add_call s h a c =
    (case take_indices a [c_first c ..< c_first c + c_count c] (s, h(a \<mapsto> c\<lparr>c_refs := c_count c\<rparr>)) of
       None \<Rightarrow> None
     | Some (s', h') \<Rightarrow>
         if length (cs_calls s') < CS_MAX_CALLS
         then Some (s'\<lparr>cs_calls := cs_calls s' @ [a]\<rparr>, h') else None)"

text \<open>The call that \<open>new_call\<close> allocates, before its payload is filled in.\<close>

definition blank_call :: "cs_kind \<Rightarrow> handle \<Rightarrow> nat \<Rightarrow> nat \<Rightarrow> cs_call" where
  "blank_call kind layout first cnt =
    \<lparr>c_kind = kind, c_layout = layout, c_first = first, c_count = cnt, c_refs = 0, c_sets = [],
     c_dyn = [], c_writes = [], c_push_fn = PushCore, c_indices = [], c_offsets = []\<rparr>"

definition new_call :: "host_mem \<Rightarrow> nvhal_cmd_state \<Rightarrow> cs_kind \<Rightarrow> handle \<Rightarrow> nat \<Rightarrow> nat \<Rightarrow>
    nvhal_cmd_state + addr \<times> cs_call" where
  "new_call mem s kind layout first cnt =
    (if cnt = 0 \<or> CS_MAX_SETS \<le> first \<or> CS_MAX_SETS - first < cnt
     then Inl (lose s ''a descriptor set index beyond 32'')
     else (case call_at mem of
             None \<Rightarrow> Inl (lose s ''out of host memory'')
           | Some a \<Rightarrow> Inr (a, blank_call kind layout first cnt)))"

definition put_state :: "nvhal_cmd \<Rightarrow> nvhal_cmd_state \<Rightarrow> nvhal_cmd" where
  "put_state e s = e\<lparr>e_cs := Some s\<rparr>"

text \<open>\<open>lose\<close> on the shadow of a command buffer, if it has one after \<open>cs_of\<close>.\<close>

definition lose_cmd :: "host_mem \<Rightarrow> nvhal_cmd \<Rightarrow> string \<Rightarrow> nvhal_cmd" where
  "lose_cmd mem e why =
    (case e_cs (cs_of mem e) of None \<Rightarrow> e | Some s \<Rightarrow> put_state (cs_of mem e) (lose s why))"

text \<open>The common tail of the record functions: allocate, fill in the payload, take the indices.\<close>

definition record_call :: "host_mem \<Rightarrow> nvhal_cmd \<Rightarrow> nvhal_cmd_state \<Rightarrow> cs_kind \<Rightarrow> handle \<Rightarrow> nat \<Rightarrow> nat \<Rightarrow>
    (cs_call \<Rightarrow> cs_call) \<Rightarrow> nvhal_cmd option" where
  "record_call mem e s kind layout first cnt fill =
    (case new_call mem s kind layout first cnt of
       Inl s' \<Rightarrow> Some (put_state e s')
     | Inr (a, c) \<Rightarrow>
         (case add_call s (e_heap e) a (fill c) of
            None \<Rightarrow> None
          | Some (s', h') \<Rightarrow> Some (e\<lparr>e_cs := Some s', e_heap := h'\<rparr>)))"

definition record_bind :: "host_mem \<Rightarrow> nvhal_cmd \<Rightarrow> handle \<Rightarrow> nat \<Rightarrow> handle list \<Rightarrow> u32 list \<Rightarrow> nvhal_cmd option" where
  "record_bind mem e0 layout first sets dyn =
    (let e = cs_of mem e0 in
     case e_cs e of
       None \<Rightarrow> Some e
     | Some s \<Rightarrow>
         if layout = 0
         then Some (put_state e (lose s ''a descriptor-set binding with a dynamic pipeline layout''))
         else record_call mem e s CS_BIND layout first (length sets)
                (\<lambda>c. c\<lparr>c_sets := sets, c_dyn := dyn\<rparr>))"

subsection \<open>Push descriptors: a deep copy of the writes\<close>

fun write_kind :: "desc_type \<Rightarrow> nat" where
  "write_kind SAMPLER = 1"
| "write_kind COMBINED_IMAGE_SAMPLER = 1"
| "write_kind SAMPLED_IMAGE = 1"
| "write_kind STORAGE_IMAGE = 1"
| "write_kind INPUT_ATTACHMENT = 1"
| "write_kind UNIFORM_TEXEL_BUFFER = 2"
| "write_kind STORAGE_TEXEL_BUFFER = 2"
| "write_kind UNIFORM_BUFFER = 3"
| "write_kind STORAGE_BUFFER = 3"
| "write_kind UNIFORM_BUFFER_DYNAMIC = 3"
| "write_kind STORAGE_BUFFER_DYNAMIC = 3"
| "write_kind INLINE_UNIFORM_BLOCK = 4"
| "write_kind OTHER_DESC = 0"

text \<open>\<open>sizeof\<close> of the Vulkan structures the copy lays out; the headers are not part of the sources.\<close>

record vk_sizes =
  sz_write :: nat
  sz_image :: nat
  sz_view :: nat
  sz_buffer :: nat
  sz_inline :: nat

definition ALIGN8 :: "nat \<Rightarrow> nat" where
  "ALIGN8 x = (x + 7) div 8 * 8"

definition elem_size :: "vk_sizes \<Rightarrow> nat \<Rightarrow> nat" where
  "elem_size z k = (if k = 1 then sz_image z else if k = 2 then sz_view z else sz_buffer z)"

text \<open>Bytes of one write's arrays; \<open>None\<close> is \<open>*ok = false\<close>.\<close>

definition write_payload :: "vk_sizes \<Rightarrow> vk_write \<Rightarrow> nat option" where
  "write_payload z w =
    (let k = write_kind (w_type w) in
     if k = 4
     then (case w_next w of
             InlineBlock False data \<Rightarrow> Some (ALIGN8 (sz_inline z) + ALIGN8 (length data))
           | _ \<Rightarrow> None)
     else if k = 0 \<or> w_next w \<noteq> NoNext then None
     else Some (ALIGN8 (elem_size z k * w_count w)))"

fun payload_bytes :: "vk_sizes \<Rightarrow> vk_write list \<Rightarrow> nat option" where
  "payload_bytes z [] = Some 0"
| "payload_bytes z (w # ws) =
    (case write_payload z w of
       None \<Rightarrow> None
     | Some n \<Rightarrow> map_option (\<lambda>m. n + m) (payload_bytes z ws))"

text \<open>The copied write points at its own array (or block) and at no other.\<close>

definition copy_write :: "vk_write \<Rightarrow> vk_write" where
  "copy_write w =
    (let k = write_kind (w_type w) in
     if k = 4 then w
     else w\<lparr>w_image := (if k = 1 then map_option (take (w_count w)) (w_image w) else None),
            w_texel := (if k = 2 then map_option (take (w_count w)) (w_texel w) else None),
            w_buffer := (if k = 3 then map_option (take (w_count w)) (w_buffer w) else None)\<rparr>)"

text \<open>
  The cursor of the copy loop: the regions (offset, length) it writes behind the array of writes,
  starting at \<open>p\<close>, and where it ends.
\<close>

fun copy_regions :: "vk_sizes \<Rightarrow> vk_write list \<Rightarrow> nat \<Rightarrow> (nat \<times> nat) list \<times> nat" where
  "copy_regions z [] p = ([], p)"
| "copy_regions z (w # ws) p =
    (let k = write_kind (w_type w) in
     if k = 4
     then (case w_next w of
             InlineBlock _ data \<Rightarrow>
               let q = p + ALIGN8 (sz_inline z); (rs, e) = copy_regions z ws (q + ALIGN8 (length data))
               in ((p, sz_inline z) # (q, length data) # rs, e)
           | _ \<Rightarrow> ([], p))
     else let (rs, e) = copy_regions z ws (p + ALIGN8 (elem_size z k * w_count w))
          in ((p, elem_size z k * w_count w) # rs, e))"

definition record_push_desc :: "vk_sizes \<Rightarrow> host_mem \<Rightarrow> nvhal_cmd \<Rightarrow> push_fn option \<Rightarrow> handle \<Rightarrow> nat \<Rightarrow>
    vk_write list \<Rightarrow> nvhal_cmd option" where
  "record_push_desc z mem e0 fn layout setno ws =
    (let e = cs_of mem e0 in
     case e_cs e of
       None \<Rightarrow> Some e
     | Some s \<Rightarrow>
         (case fn of
            None \<Rightarrow> Some (put_state e (lose s ''push descriptors without a vkCmdPushDescriptorSet entry point to replay them''))
          | Some f \<Rightarrow>
              if layout = 0
              then Some (put_state e (lose s ''push descriptors with a dynamic pipeline layout''))
              else if payload_bytes z ws = None
              then Some (put_state e (lose s ''push descriptors of a type or with a pNext structure the shadow does not copy''))
              else record_call mem e s CS_PUSH_DESC layout setno 1
                     (\<lambda>c. c\<lparr>c_writes := map copy_write ws, c_push_fn := f\<rparr>)))"

definition record_db_offsets :: "host_mem \<Rightarrow> nvhal_cmd \<Rightarrow> handle \<Rightarrow> nat \<Rightarrow> u32 list \<Rightarrow> u64 list \<Rightarrow> nvhal_cmd option" where
  "record_db_offsets mem e0 layout first idx off =
    (let e = cs_of mem e0 in
     case e_cs e of
       None \<Rightarrow> Some e
     | Some s \<Rightarrow>
         if layout = 0
         then Some (put_state e (lose s ''descriptor buffer offsets with a dynamic pipeline layout''))
         else record_call mem e s CS_DB_OFFSETS layout first (length idx)
                (\<lambda>c. c\<lparr>c_indices := idx, c_offsets := off\<rparr>))"

definition record_db_samplers :: "host_mem \<Rightarrow> nvhal_cmd \<Rightarrow> handle \<Rightarrow> nat \<Rightarrow> nvhal_cmd option" where
  "record_db_samplers mem e0 layout setno =
    (let e = cs_of mem e0 in
     case e_cs e of
       None \<Rightarrow> Some e
     | Some s \<Rightarrow>
         if layout = 0
         then Some (put_state e (lose s ''embedded descriptor buffer samplers with a dynamic pipeline layout''))
         else record_call mem e s CS_DB_SAMPLERS layout setno 1 (\<lambda>c. c))"

subsection \<open>Push constants\<close>

definition has_compute :: "u32 \<Rightarrow> bool" where
  "has_compute stages \<longleftrightarrow> stages AND VK_SHADER_STAGE_COMPUTE_BIT \<noteq> 0"

definition same_range :: "handle \<Rightarrow> u32 \<Rightarrow> nat \<Rightarrow> nat \<Rightarrow> cs_push \<Rightarrow> bool" where
  "same_range layout stages offset sz p \<longleftrightarrow>
     p_layout p = layout \<and> p_stages p = stages \<and> p_offset p = offset \<and> length (p_data p) = sz"

text \<open>The search takes the first update of that range out of the array.\<close>

fun take_range :: "handle \<Rightarrow> u32 \<Rightarrow> nat \<Rightarrow> nat \<Rightarrow> cs_push list \<Rightarrow> cs_push list option" where
  "take_range layout stages offset sz [] = None"
| "take_range layout stages offset sz (p # ps) =
    (if same_range layout stages offset sz p then Some ps
     else map_option (\<lambda>ps'. p # ps') (take_range layout stages offset sz ps))"

definition record_push :: "host_mem \<Rightarrow> nvhal_cmd \<Rightarrow> handle \<Rightarrow> u32 \<Rightarrow> nat \<Rightarrow> u8 list \<Rightarrow> nvhal_cmd" where
  "record_push mem e0 layout stages offset data =
    (if \<not> has_compute stages \<and> (case e_cs e0 of None \<Rightarrow> True | Some s \<Rightarrow> \<not> cs_push_compute s) then e0
     else let e = cs_of mem e0 in
     case e_cs e of
       None \<Rightarrow> e
     | Some s0 \<Rightarrow>
         if layout = 0
         then put_state e (lose s0 ''push constants with a dynamic pipeline layout'')
         else let s = s0\<lparr>cs_push_compute := cs_push_compute s0 \<or> has_compute stages\<rparr>;
                  p = \<lparr>p_layout = layout, p_stages = stages, p_offset = offset, p_data = data\<rparr> in
         (case take_range layout stages offset (length data) (cs_pushes s) of
            Some ps \<Rightarrow> put_state e (s\<lparr>cs_pushes := ps @ [p]\<rparr>)
          | None \<Rightarrow>
              if length (cs_pushes s) = CS_MAX_PUSH
              then put_state e (lose s ''more than 32 distinct push-constant updates'')
              else if \<not> push_ok mem then put_state e (lose s ''out of host memory'')
              else put_state e (s\<lparr>cs_pushes := cs_pushes s @ [p]\<rparr>)))"

section \<open>Restore\<close>

definition restore_call :: "cs_call \<Rightarrow> cmd" where
  "restore_call c =
    (case c_kind c of
       CS_BIND \<Rightarrow> CmdBindDescriptorSets BIND_POINT_COMPUTE (c_layout c) (c_first c) (c_sets c) (c_dyn c)
     | CS_PUSH_DESC \<Rightarrow> CmdPushDescriptorSet (c_push_fn c) BIND_POINT_COMPUTE (c_layout c) (c_first c) (c_writes c)
     | CS_DB_OFFSETS \<Rightarrow> CmdSetDescriptorBufferOffsetsEXT BIND_POINT_COMPUTE (c_layout c) (c_first c) (c_indices c) (c_offsets c)
     | CS_DB_SAMPLERS \<Rightarrow> CmdBindDescriptorBufferEmbeddedSamplersEXT BIND_POINT_COMPUTE (c_layout c) (c_first c))"

fun restore_calls :: "(addr \<rightharpoonup> cs_call) \<Rightarrow> addr list \<Rightarrow> cmd list option" where
  "restore_calls h [] = Some []"
| "restore_calls h (a # as) =
    (case h a of None \<Rightarrow> None | Some c \<Rightarrow> map_option (\<lambda>cs. restore_call c # cs) (restore_calls h as))"

definition restore_bound :: "nvhal_cmd_state \<Rightarrow> cmd list" where
  "restore_bound s =
    (case cs_bound s of
       CS_NONE \<Rightarrow> []
     | CS_PIPELINE \<Rightarrow> [CmdBindPipeline BIND_POINT_COMPUTE (cs_pipeline s)]
     | CS_SHADER \<Rightarrow> [CmdBindShadersEXT [VK_SHADER_STAGE_COMPUTE_BIT] (Some [cs_shader s])])"

text \<open>The updates from the first one that reaches the compute stage on.\<close>

definition restore_pushes :: "nvhal_cmd_state \<Rightarrow> cmd list" where
  "restore_pushes s =
    map (\<lambda>p. CmdPushConstants (p_layout p) (p_stages p) (p_offset p) (p_data p))
      (dropWhile (\<lambda>p. \<not> has_compute (p_stages p)) (cs_pushes s))"

text \<open>The replayed commands and what is named in the error log as not restored.\<close>

definition nvhal_cs_restore :: "nvhal_cmd option \<Rightarrow> (cmd list \<times> string option) option" where
  "nvhal_cs_restore tracked =
    (case tracked of
       None \<Rightarrow> Some ([], None)
     | Some e \<Rightarrow>
         (case e_cs e of
            None \<Rightarrow> Some ([], None)
          | Some s \<Rightarrow>
              map_option (\<lambda>cs. (restore_bound s @ cs @ restore_pushes s, cs_lost s))
                (restore_calls (e_heap e) (cs_calls s))))"

section \<open>Intercepts\<close>

text \<open>
  The CSCMD prologue: a command buffer that was not allocated through the HAL is dropped; every
  other intercept forwards its command to the driver first.
\<close>

definition CSCMD :: "nvhal_cmd option \<Rightarrow> cmd \<Rightarrow> (nvhal_cmd \<Rightarrow> nvhal_cmd option) \<Rightarrow> (cmd list \<times> nvhal_cmd option) option" where
  "CSCMD tracked c body =
    (case tracked of
       None \<Rightarrow> Some ([], None)
     | Some e \<Rightarrow> map_option (\<lambda>e'. ([c], Some e')) (body e))"

definition cs_BeginCommandBuffer :: "(nvhal_cmd \<Rightarrow> vk_result) \<Rightarrow> nvhal_cmd option \<Rightarrow> (vk_result \<times> nvhal_cmd option) option" where
  "cs_BeginCommandBuffer icd tracked =
    (case tracked of
       None \<Rightarrow> Some (VK_ERROR_OUT_OF_HOST_MEMORY, None)
     | Some e \<Rightarrow>
         (case e_cs e of
            None \<Rightarrow> Some (icd e, Some e)
          | Some s \<Rightarrow>
              map_option (\<lambda>(s', h'). let e' = e\<lparr>e_cs := Some s', e_heap := h'\<rparr> in (icd e', Some e'))
                (cs_reset s (e_heap e))))"

definition cs_CmdBindPipeline :: "host_mem \<Rightarrow> u32 \<Rightarrow> handle \<Rightarrow> nvhal_cmd \<Rightarrow> nvhal_cmd option" where
  "cs_CmdBindPipeline mem bp p e0 =
    (if bp \<noteq> BIND_POINT_COMPUTE then Some e0
     else let e = cs_of mem e0 in
       Some (case e_cs e of
               None \<Rightarrow> e
             | Some s \<Rightarrow> put_state e (s\<lparr>cs_bound := CS_PIPELINE, cs_pipeline := p\<rparr>)))"

fun bind_shaders :: "host_mem \<Rightarrow> u32 list \<Rightarrow> handle list option \<Rightarrow> nat \<Rightarrow> nvhal_cmd \<Rightarrow> nvhal_cmd" where
  "bind_shaders mem [] sh i e = e"
| "bind_shaders mem (st # sts) sh i e =
    (if st = VK_SHADER_STAGE_COMPUTE_BIT
     then (case e_cs (cs_of mem e) of
             None \<Rightarrow> e
           | Some s \<Rightarrow>
               bind_shaders mem sts sh (Suc i) (put_state (cs_of mem e)
                 (s\<lparr>cs_bound := CS_SHADER, cs_shader := (case sh of None \<Rightarrow> 0 | Some hs \<Rightarrow> hs ! i)\<rparr>)))
     else bind_shaders mem sts sh (Suc i) e)"

definition cs_CmdBindShadersEXT :: "host_mem \<Rightarrow> u32 list \<Rightarrow> handle list option \<Rightarrow> nvhal_cmd \<Rightarrow> nvhal_cmd option" where
  "cs_CmdBindShadersEXT mem sts sh e = Some (bind_shaders mem sts sh 0 e)"

definition cs_CmdBindDescriptorSets :: "host_mem \<Rightarrow> u32 \<Rightarrow> handle \<Rightarrow> nat \<Rightarrow> handle list \<Rightarrow> u32 list \<Rightarrow>
    nvhal_cmd \<Rightarrow> nvhal_cmd option" where
  "cs_CmdBindDescriptorSets mem bp layout first sets dyn e =
    (if bp = BIND_POINT_COMPUTE then record_bind mem e layout first sets dyn else Some e)"

definition bind_sets2 :: "host_mem \<Rightarrow> u32 \<Rightarrow> bool \<Rightarrow> handle \<Rightarrow> nat \<Rightarrow> handle list \<Rightarrow> u32 list \<Rightarrow>
    nvhal_cmd \<Rightarrow> nvhal_cmd option" where
  "bind_sets2 mem stages nx layout first sets dyn e =
    (if \<not> has_compute stages then Some e
     else if nx then Some (lose_cmd mem e ''vkCmdBindDescriptorSets2 with a pNext structure'')
     else record_bind mem e layout first sets dyn)"

definition cs_CmdPushConstants :: "host_mem \<Rightarrow> handle \<Rightarrow> u32 \<Rightarrow> nat \<Rightarrow> u8 list \<Rightarrow> nvhal_cmd \<Rightarrow> nvhal_cmd option" where
  "cs_CmdPushConstants mem layout stages offset data e = Some (record_push mem e layout stages offset data)"

definition push2 :: "host_mem \<Rightarrow> bool \<Rightarrow> handle \<Rightarrow> u32 \<Rightarrow> nat \<Rightarrow> u8 list \<Rightarrow> nvhal_cmd \<Rightarrow> nvhal_cmd option" where
  "push2 mem nx layout stages offset data e =
    (if nx
     then Some (if has_compute stages \<or> (case e_cs e of None \<Rightarrow> False | Some s \<Rightarrow> cs_push_compute s)
                then lose_cmd mem e ''vkCmdPushConstants2 with a pNext structure'' else e)
     else Some (record_push mem e layout stages offset data))"

definition cs_CmdPushDescriptorSet :: "vk_sizes \<Rightarrow> host_mem \<Rightarrow> push_fn \<Rightarrow> u32 \<Rightarrow> handle \<Rightarrow> nat \<Rightarrow> vk_write list \<Rightarrow>
    nvhal_cmd \<Rightarrow> nvhal_cmd option" where
  "cs_CmdPushDescriptorSet z mem fn bp layout setno ws e =
    (if bp = BIND_POINT_COMPUTE then record_push_desc z mem e (Some fn) layout setno ws else Some e)"

definition push_desc2 :: "vk_sizes \<Rightarrow> host_mem \<Rightarrow> cs_dev \<Rightarrow> u32 \<Rightarrow> bool \<Rightarrow> handle \<Rightarrow> nat \<Rightarrow> vk_write list \<Rightarrow>
    nvhal_cmd \<Rightarrow> nvhal_cmd option" where
  "push_desc2 z mem d stages nx layout setno ws e =
    (if \<not> has_compute stages then Some e
     else if nx then Some (lose_cmd mem e ''vkCmdPushDescriptorSet2 with a pNext structure'')
     else record_push_desc z mem e
            (if has_push d then Some PushCore else if has_push_khr d then Some PushKHR else None)
            layout setno ws)"

definition template_lost :: "host_mem \<Rightarrow> nvhal_cmd \<Rightarrow> nvhal_cmd option" where
  "template_lost mem e = Some (lose_cmd mem e ''push descriptors through a descriptor update template'')"

definition cs_CmdSetDescriptorBufferOffsetsEXT :: "host_mem \<Rightarrow> u32 \<Rightarrow> handle \<Rightarrow> nat \<Rightarrow> u32 list \<Rightarrow> u64 list \<Rightarrow>
    nvhal_cmd \<Rightarrow> nvhal_cmd option" where
  "cs_CmdSetDescriptorBufferOffsetsEXT mem bp layout first idx off e =
    (if bp = BIND_POINT_COMPUTE then record_db_offsets mem e layout first idx off else Some e)"

definition cs_CmdSetDescriptorBufferOffsets2EXT :: "host_mem \<Rightarrow> u32 \<Rightarrow> bool \<Rightarrow> handle \<Rightarrow> nat \<Rightarrow> u32 list \<Rightarrow> u64 list \<Rightarrow>
    nvhal_cmd \<Rightarrow> nvhal_cmd option" where
  "cs_CmdSetDescriptorBufferOffsets2EXT mem stages nx layout first idx off e =
    (if \<not> has_compute stages then Some e
     else if nx then Some (lose_cmd mem e ''vkCmdSetDescriptorBufferOffsets2EXT with a pNext structure'')
     else record_db_offsets mem e layout first idx off)"

definition cs_CmdBindDescriptorBufferEmbeddedSamplersEXT :: "host_mem \<Rightarrow> u32 \<Rightarrow> handle \<Rightarrow> nat \<Rightarrow>
    nvhal_cmd \<Rightarrow> nvhal_cmd option" where
  "cs_CmdBindDescriptorBufferEmbeddedSamplersEXT mem bp layout setno e =
    (if bp = BIND_POINT_COMPUTE then record_db_samplers mem e layout setno else Some e)"

definition cs_CmdBindDescriptorBufferEmbeddedSamplers2EXT :: "host_mem \<Rightarrow> u32 \<Rightarrow> bool \<Rightarrow> handle \<Rightarrow> nat \<Rightarrow>
    nvhal_cmd \<Rightarrow> nvhal_cmd option" where
  "cs_CmdBindDescriptorBufferEmbeddedSamplers2EXT mem stages nx layout setno e =
    (if \<not> has_compute stages then Some e
     else if nx then Some (lose_cmd mem e ''vkCmdBindDescriptorBufferEmbeddedSamplers2EXT with a pNext structure'')
     else record_db_samplers mem e layout setno)"

definition nvhal_cs_conditional :: "nvhal_cmd option \<Rightarrow> bool" where
  "nvhal_cs_conditional tracked =
    (case tracked of None \<Rightarrow> False
     | Some e \<Rightarrow> (case e_cs e of None \<Rightarrow> False | Some s \<Rightarrow> cs_conditional s))"

definition cs_CmdBeginConditionalRenderingEXT :: "host_mem \<Rightarrow> nvhal_cmd \<Rightarrow> nvhal_cmd option" where
  "cs_CmdBeginConditionalRenderingEXT mem e0 =
    (let e = cs_of mem e0 in
     Some (case e_cs e of None \<Rightarrow> e | Some s \<Rightarrow> put_state e (s\<lparr>cs_conditional := True\<rparr>)))"

definition cs_CmdEndConditionalRenderingEXT :: "nvhal_cmd \<Rightarrow> nvhal_cmd option" where
  "cs_CmdEndConditionalRenderingEXT e =
    Some (case e_cs e of None \<Rightarrow> e | Some s \<Rightarrow> put_state e (s\<lparr>cs_conditional := False\<rparr>))"

definition heap_lost :: "host_mem \<Rightarrow> nvhal_cmd \<Rightarrow> nvhal_cmd option" where
  "heap_lost mem e = Some (lose_cmd mem e ''descriptor heap state (VK_EXT_descriptor_heap), which the decode's descriptor-set binding invalidates'')"

text \<open>The table of entry points: which body a command runs.\<close>

fun nvhal_cs_entries :: "vk_sizes \<Rightarrow> cs_dev \<Rightarrow> host_mem \<Rightarrow> cmd \<Rightarrow> nvhal_cmd \<Rightarrow> nvhal_cmd option" where
  "nvhal_cs_entries z d mem (CmdBindPipeline bp p) = cs_CmdBindPipeline mem bp p"
| "nvhal_cs_entries z d mem (CmdBindShadersEXT sts sh) = cs_CmdBindShadersEXT mem sts sh"
| "nvhal_cs_entries z d mem (CmdBindDescriptorSets bp l f ss dy) = cs_CmdBindDescriptorSets mem bp l f ss dy"
| "nvhal_cs_entries z d mem (CmdBindDescriptorSets2 khr st nx l f ss dy) = bind_sets2 mem st nx l f ss dy"
| "nvhal_cs_entries z d mem (CmdPushConstants l st off data) = cs_CmdPushConstants mem l st off data"
| "nvhal_cs_entries z d mem (CmdPushConstants2 khr nx l st off data) = push2 mem nx l st off data"
| "nvhal_cs_entries z d mem (CmdPushDescriptorSet fn bp l n ws) = cs_CmdPushDescriptorSet z mem fn bp l n ws"
| "nvhal_cs_entries z d mem (CmdPushDescriptorSet2 khr st nx l n ws) = push_desc2 z mem d st nx l n ws"
| "nvhal_cs_entries z d mem (CmdPushDescriptorSetWithTemplate i) = template_lost mem"
| "nvhal_cs_entries z d mem (CmdSetDescriptorBufferOffsetsEXT bp l f idx off) =
     cs_CmdSetDescriptorBufferOffsetsEXT mem bp l f idx off"
| "nvhal_cs_entries z d mem (CmdSetDescriptorBufferOffsets2EXT st nx l f idx off) =
     cs_CmdSetDescriptorBufferOffsets2EXT mem st nx l f idx off"
| "nvhal_cs_entries z d mem (CmdBindDescriptorBufferEmbeddedSamplersEXT bp l n) =
     cs_CmdBindDescriptorBufferEmbeddedSamplersEXT mem bp l n"
| "nvhal_cs_entries z d mem (CmdBindDescriptorBufferEmbeddedSamplers2EXT st nx l n) =
     cs_CmdBindDescriptorBufferEmbeddedSamplers2EXT mem st nx l n"
| "nvhal_cs_entries z d mem CmdBeginConditionalRenderingEXT = cs_CmdBeginConditionalRenderingEXT mem"
| "nvhal_cs_entries z d mem CmdEndConditionalRenderingEXT = cs_CmdEndConditionalRenderingEXT"
| "nvhal_cs_entries z d mem (CmdHeap i) = heap_lost mem"

text \<open>A recording: each command with what the allocator answers during it.\<close>

fun cs_record :: "vk_sizes \<Rightarrow> cs_dev \<Rightarrow> nvhal_cmd option \<Rightarrow> (host_mem \<times> cmd) list \<Rightarrow>
    (cmd list \<times> nvhal_cmd option) option" where
  "cs_record z d e [] = Some ([], e)"
| "cs_record z d e ((mem, c) # cs) =
    (case CSCMD e c (nvhal_cs_entries z d mem c) of
       None \<Rightarrow> None
     | Some (fw, e') \<Rightarrow> map_option (\<lambda>(fw', e''). (fw @ fw', e'')) (cs_record z d e' cs))"

end
