(* ===== verification/Cmd_State_Inv.thy ===== *)
theory Cmd_State_Inv
  imports Cmd_State
begin

text \<open>
  Memory safety of the compute-state shadow: the reference counts are the numbers of set indices a
  call owns, the heap holds exactly the calls of the array, and every command keeps it that way.
\<close>

section \<open>Ownership\<close>

definition owned_in :: "addr option list \<Rightarrow> addr \<Rightarrow> nat set" where
  "owned_in ow a = {k. k < length ow \<and> ow ! k = Some a}"

text \<open>
  The invariant while call \<open>p\<close> (not yet in the array) takes its indices; \<open>cs_inv\<close> is the one
  between commands.
\<close>

definition calls_ok :: "nvhal_cmd_state \<Rightarrow> (addr \<rightharpoonup> cs_call) \<Rightarrow> addr set \<Rightarrow> bool" where
  "calls_ok s h A \<longleftrightarrow> length (cs_owner s) = CS_MAX_SETS \<and> distinct (cs_calls s) \<and>
     A \<inter> set (cs_calls s) = {} \<and> dom h = A \<union> set (cs_calls s) \<and>
     (\<forall>k < CS_MAX_SETS. \<forall>a. cs_owner s ! k = Some a \<longrightarrow> a \<in> A \<union> set (cs_calls s)) \<and>
     (\<forall>a \<in> set (cs_calls s). owned_in (cs_owner s) a \<noteq> {} \<and>
        c_refs (the (h a)) = card (owned_in (cs_owner s) a))"

definition strip :: "cs_call \<Rightarrow> cs_call" where
  "strip c = c\<lparr>c_refs := 0\<rparr>"

lemma calls_okD:
  assumes "calls_ok s h A"
  shows "length (cs_owner s) = CS_MAX_SETS" "distinct (cs_calls s)" "A \<inter> set (cs_calls s) = {}"
    "dom h = A \<union> set (cs_calls s)"
    "k < CS_MAX_SETS \<Longrightarrow> cs_owner s ! k = Some a \<Longrightarrow> a \<in> A \<union> set (cs_calls s)"
    "a \<in> set (cs_calls s) \<Longrightarrow> owned_in (cs_owner s) a \<noteq> {}"
    "a \<in> set (cs_calls s) \<Longrightarrow> c_refs (the (h a)) = card (owned_in (cs_owner s) a)"
  using assms unfolding calls_ok_def by blast+

lemma finite_owned [simp]: "finite (owned_in ow a)"
  by (simp add: owned_in_def)

lemma owned_update:
  "k < length ow \<Longrightarrow> owned_in (ow[k := Some p]) b =
     (if b = p then insert k (owned_in ow b) else owned_in ow b - {k})"
  by (auto simp: owned_in_def nth_list_update split: if_splits)

lemma owned_disjoint: "a \<noteq> b \<Longrightarrow> owned_in ow a \<inter> owned_in ow b = {}"
  by (auto simp: owned_in_def)

text \<open>Distinct calls own distinct indices, so there are at most as many calls as indices.\<close>

lemma owners_bound:
  assumes "finite A" "\<And>a. a \<in> A \<Longrightarrow> owned_in ow a \<noteq> {}"
  shows "card A \<le> length ow"
proof -
  have "card A = (\<Sum>a\<in>A. 1)" by simp
  also have "\<dots> \<le> (\<Sum>a\<in>A. card (owned_in ow a))"
    using assms by (intro sum_mono) (simp add: Suc_le_eq card_gt_0_iff)
  also have "\<dots> = card (\<Union>a\<in>A. owned_in ow a)"
    using assms(1) owned_disjoint by (intro card_UN_disjoint [symmetric]) auto
  also have "\<dots> \<le> card {..<length ow}"
    by (intro card_mono) (auto simp: owned_in_def)
  finally show ?thesis by simp
qed

lemma filter_remove1:
  assumes "distinct xs" "\<And>x. x \<in> set xs \<Longrightarrow> P x \<longleftrightarrow> x \<noteq> a"
  shows "filter P xs = remove1 a xs"
proof -
  have "filter P xs = filter (\<lambda>x. x \<noteq> a) xs" by (rule filter_cong [OF refl]) (rule assms(2))
  also have "\<dots> = remove1 a xs"
    using assms(1) by (simp add: distinct_remove1_removeAll removeAll_filter_not_eq eq_commute)
  finally show ?thesis .
qed

section \<open>Adding a call\<close>

lemma take_index_step:
  assumes ok: "calls_ok s h {p}" and k: "k < CS_MAX_SETS" "cs_owner s ! k \<noteq> Some p"
  defines "ow \<equiv> (cs_owner s)[k := Some p]"
  defines "s' \<equiv> s\<lparr>cs_owner := ow, cs_calls := filter (\<lambda>b. owned_in ow b \<noteq> {}) (cs_calls s)\<rparr>"
  shows "\<exists>h'. take_index p k (s, h) = Some (s', h') \<and> calls_ok s' h' {p} \<and> h' p = h p \<and>
    (\<forall>b \<in> dom h'. strip (the (h' b)) = strip (the (h b)))"
proof -
  note D = calls_okD [OF ok]
  have kl: "k < length (cs_owner s)" using k D(1) by simp
  have p: "p \<notin> set (cs_calls s)" "p \<in> dom h" using D(3,4) by auto
  have upd: "owned_in ow b = owned_in (cs_owner s) b - {k}" if "b \<in> set (cs_calls s)" for b
    using that p owned_update [OF kl, of p b] by (auto simp: ow_def)
  show ?thesis
  proof (cases "cs_owner s ! k")
    case None
    then have "k \<notin> owned_in (cs_owner s) b" for b by (simp add: owned_in_def)
    then have same: "owned_in ow b = owned_in (cs_owner s) b" if "b \<in> set (cs_calls s)" for b
      using upd [OF that] by simp
    then have "filter (\<lambda>b. owned_in ow b \<noteq> {}) (cs_calls s) = cs_calls s"
      using D(6) by (intro filter_True) auto
    then have s': "s' = s\<lparr>cs_owner := ow\<rparr>" by (simp add: s'_def)
    have "calls_ok s' h {p}"
      using ok same k kl unfolding calls_ok_def s' by (auto simp: ow_def nth_list_update)
    then show ?thesis using None by (simp add: take_index_def s' ow_def)
  next
    case (Some a)
    then have a: "a \<in> set (cs_calls s)" "a \<noteq> p" using D(5) [OF k(1) Some] k(2) by auto
    then obtain oc where oc: "h a = Some oc" using D(4) by blast
    have ka: "k \<in> owned_in (cs_owner s) a" using Some kl by (simp add: owned_in_def)
    have others: "k \<notin> owned_in (cs_owner s) b" if "b \<noteq> a" for b
      using that Some by (auto simp: owned_in_def)
    have refs: "c_refs oc - 1 = card (owned_in ow a)"
      using D(7) [OF a(1)] oc upd [OF a(1)] ka by simp
    have empty: "c_refs oc - 1 = 0 \<longleftrightarrow> owned_in ow a = {}" using refs by (simp add: card_eq_0_iff)
    have keep: "owned_in ow b = owned_in (cs_owner s) b" if "b \<in> set (cs_calls s)" "b \<noteq> a" for b
      using upd [OF that(1)] others [OF that(2)] by simp
    let ?h1 = "h(a \<mapsto> oc\<lparr>c_refs := c_refs oc - 1\<rparr>)"
    have own: "ow ! j = Some b \<Longrightarrow> j < CS_MAX_SETS \<Longrightarrow> b \<in> {p} \<union> set (cs_calls s)" for j b
      using D(5) [of j b] kl by (auto simp: ow_def nth_list_update split: if_splits)
    have len: "length ow = CS_MAX_SETS" using D(1) by (simp add: ow_def)
    show ?thesis
    proof (cases "owned_in ow a = {}")
      case True
      have f: "filter (\<lambda>b. owned_in ow b \<noteq> {}) (cs_calls s) = remove1 a (cs_calls s)"
        by (rule filter_remove1 [OF D(2)]) (use D(6) keep True in metis)
      have noa: "ow ! j = Some b \<Longrightarrow> j < CS_MAX_SETS \<Longrightarrow> b \<noteq> a" for j b
        using True len by (auto simp: owned_in_def)
      have "take_index p k (s, h) = Some (s', (?h1)(a := None))"
        using Some oc empty True f by (simp add: take_index_def remove_call_def s'_def ow_def)
      moreover have "calls_ok s' ((?h1)(a := None)) {p}"
        using D(2,3,4,6,7) a p keep own noa len unfolding calls_ok_def s'_def f by auto
      ultimately show ?thesis using a by auto
    next
      case False
      then have "filter (\<lambda>b. owned_in ow b \<noteq> {}) (cs_calls s) = cs_calls s"
        using D(6) keep by (intro filter_True) auto
      then have s': "s' = s\<lparr>cs_owner := ow\<rparr>" by (simp add: s'_def)
      have "take_index p k (s, h) = Some (s', ?h1)"
        using Some oc empty False by (simp add: take_index_def s' ow_def)
      moreover have "calls_ok s' ?h1 {p}"
        using D(2,3,4,6,7) a p keep own len refs False unfolding calls_ok_def s' by auto
      ultimately show ?thesis using a oc by (auto simp: strip_def)
    qed
  qed
qed

fun own_all :: "addr \<Rightarrow> nat list \<Rightarrow> addr option list \<Rightarrow> addr option list" where
  "own_all p [] ow = ow"
| "own_all p (k # ks) ow = own_all p ks (ow[k := Some p])"

lemma length_own_all [simp]: "length (own_all p ks ow) = length ow"
  by (induction ks arbitrary: ow) auto

lemma own_all_nth:
  "set ks \<subseteq> {..<length ow} \<Longrightarrow> j < length ow \<Longrightarrow>
   own_all p ks ow ! j = (if j \<in> set ks then Some p else ow ! j)"
  by (induction ks arbitrary: ow) (auto simp: nth_list_update)

lemma owned_own_all_mono: "b \<noteq> p \<Longrightarrow> set ks \<subseteq> {..<length ow} \<Longrightarrow> owned_in (own_all p ks ow) b \<subseteq> owned_in ow b"
  by (auto simp: owned_in_def own_all_nth split: if_splits)

lemma take_indices_spec:
  assumes "calls_ok s h {p}" "distinct ks" "set ks \<subseteq> {..<CS_MAX_SETS}"
    "\<And>k. k \<in> set ks \<Longrightarrow> cs_owner s ! k \<noteq> Some p"
  shows "\<exists>h'. take_indices p ks (s, h) = Some
      (s\<lparr>cs_owner := own_all p ks (cs_owner s),
         cs_calls := filter (\<lambda>b. owned_in (own_all p ks (cs_owner s)) b \<noteq> {}) (cs_calls s)\<rparr>, h') \<and>
    calls_ok (s\<lparr>cs_owner := own_all p ks (cs_owner s),
         cs_calls := filter (\<lambda>b. owned_in (own_all p ks (cs_owner s)) b \<noteq> {}) (cs_calls s)\<rparr>) h' {p} \<and>
    h' p = h p \<and> (\<forall>b \<in> dom h'. strip (the (h' b)) = strip (the (h b)))"
  using assms
proof (induction ks arbitrary: s h)
  case Nil
  have "filter (\<lambda>b. owned_in (cs_owner s) b \<noteq> {}) (cs_calls s) = cs_calls s"
    using calls_okD(6) [OF Nil(1)] by (intro filter_True) auto
  then show ?case using Nil by simp
next
  case (Cons k ks)
  have k: "k < CS_MAX_SETS" "cs_owner s ! k \<noteq> Some p" using Cons.prems(3,4) by auto
  have len: "length (cs_owner s) = CS_MAX_SETS" by (rule calls_okD(1) [OF Cons.prems(1)])
  define ow where "ow = (cs_owner s)[k := Some p]"
  define s1 where "s1 = s\<lparr>cs_owner := ow, cs_calls := filter (\<lambda>b. owned_in ow b \<noteq> {}) (cs_calls s)\<rparr>"
  obtain h1 where h1: "take_index p k (s, h) = Some (s1, h1)" "calls_ok s1 h1 {p}" "h1 p = h p"
    "\<forall>b \<in> dom h1. strip (the (h1 b)) = strip (the (h b))"
    using take_index_step [OF Cons.prems(1) k] unfolding s1_def ow_def by blast
  have "cs_owner s1 ! j \<noteq> Some p" if "j \<in> set ks" for j
  proof -
    have "k \<noteq> j" using that Cons.prems(2) by auto
    then show ?thesis using Cons.prems(4) [of j] that by (simp add: s1_def ow_def)
  qed
  then obtain h2 where h2: "take_indices p ks (s1, h1) = Some
      (s1\<lparr>cs_owner := own_all p ks ow,
         cs_calls := filter (\<lambda>b. owned_in (own_all p ks ow) b \<noteq> {}) (cs_calls s1)\<rparr>, h2)"
    "calls_ok (s1\<lparr>cs_owner := own_all p ks ow,
         cs_calls := filter (\<lambda>b. owned_in (own_all p ks ow) b \<noteq> {}) (cs_calls s1)\<rparr>) h2 {p}"
    "h2 p = h1 p" "\<forall>b \<in> dom h2. strip (the (h2 b)) = strip (the (h1 b))"
    using Cons.IH [OF h1(2)] Cons.prems(2,3) by (auto simp: s1_def)
  have mono: "owned_in (own_all p ks ow) b \<noteq> {} \<Longrightarrow> owned_in ow b \<noteq> {}" if "b \<in> set (cs_calls s)" for b
    using owned_own_all_mono [of b p ks ow] that calls_okD(3) [OF Cons.prems(1)] Cons.prems(3) len
    by (auto simp: ow_def)
  have "filter (\<lambda>b. owned_in (own_all p ks ow) b \<noteq> {}) (cs_calls s1) =
      filter (\<lambda>b. owned_in (own_all p ks ow) b \<noteq> {}) (cs_calls s)"
    using mono by (simp add: s1_def) (rule filter_cong, auto)
  moreover have "dom h2 \<subseteq> dom h1"
    using calls_okD(4) [OF h1(2)] calls_okD(4) [OF h2(2)] by auto
  ultimately show ?case using h1 h2 by (auto simp: s1_def ow_def subset_iff)
qed

definition cs_inv :: "nvhal_cmd_state \<Rightarrow> (addr \<rightharpoonup> cs_call) \<Rightarrow> bool" where
  "cs_inv s h \<longleftrightarrow> calls_ok s h {} \<and> length (cs_calls s) \<le> CS_MAX_CALLS \<and>
     length (cs_pushes s) \<le> CS_MAX_PUSH"

lemma calls_bound: "calls_ok s h A \<Longrightarrow> length (cs_calls s) \<le> CS_MAX_SETS"
  using owners_bound [of "set (cs_calls s)" "cs_owner s"] calls_okD
  by (metis List.finite_set distinct_card)

text \<open>What adding a call does, as one update of the arrays.\<close>

definition added :: "nvhal_cmd_state \<Rightarrow> addr \<Rightarrow> cs_call \<Rightarrow> nvhal_cmd_state" where
  "added s a c =
    (let ow = own_all a [c_first c ..< c_first c + c_count c] (cs_owner s)
     in s\<lparr>cs_owner := ow, cs_calls := filter (\<lambda>b. owned_in ow b \<noteq> {}) (cs_calls s) @ [a]\<rparr>)"

lemma added_simps [simp]:
  "cs_pushes (added s a c) = cs_pushes s" "cs_bound (added s a c) = cs_bound s"
  "cs_pipeline (added s a c) = cs_pipeline s" "cs_shader (added s a c) = cs_shader s"
  "cs_push_compute (added s a c) = cs_push_compute s" "cs_lost (added s a c) = cs_lost s"
  by (simp_all add: added_def Let_def)

lemma add_call_spec:
  assumes inv: "cs_inv s h" and a: "h a = None"
    and c: "c_count c \<noteq> 0" "c_first c + c_count c \<le> CS_MAX_SETS"
  shows "\<exists>h'. add_call s h a c = Some (added s a c, h') \<and> cs_inv (added s a c) h' \<and>
    h' a = Some (c\<lparr>c_refs := c_count c\<rparr>) \<and>
    (\<forall>b \<in> dom h'. b \<noteq> a \<longrightarrow> strip (the (h' b)) = strip (the (h b)))"
proof -
  define ks where "ks = [c_first c ..< c_first c + c_count c]"
  define h0 where "h0 = h(a \<mapsto> c\<lparr>c_refs := c_count c\<rparr>)"
  define ow where "ow = own_all a ks (cs_owner s)"
  define s1 where "s1 = s\<lparr>cs_owner := ow, cs_calls := filter (\<lambda>b. owned_in ow b \<noteq> {}) (cs_calls s)\<rparr>"
  have ok: "calls_ok s h {}" using inv by (simp add: cs_inv_def)
  note D = calls_okD [OF ok]
  have fresh: "a \<notin> set (cs_calls s)" using D(4) a by auto
  have ok0: "calls_ok s h0 {a}"
    using ok fresh unfolding calls_ok_def h0_def by auto
  have noown: "cs_owner s ! k \<noteq> Some a" if "k \<in> set ks" for k
    using D(5) [of k a] that c(2) fresh by (auto simp: ks_def)
  have ks: "set ks \<subseteq> {..<CS_MAX_SETS}" "distinct ks" using c(2) by (auto simp: ks_def)
  obtain h' where h': "take_indices a ks (s, h0) = Some (s1, h')" "calls_ok s1 h' {a}" "h' a = h0 a"
    "\<forall>b \<in> dom h'. strip (the (h' b)) = strip (the (h0 b))"
    using take_indices_spec [OF ok0 ks(2,1) noown] unfolding s1_def ow_def by blast
  have kk: "c_first c \<in> owned_in ow a"
    using own_all_nth [of ks "cs_owner s" "c_first c" a] ks(1) D(1) c by (auto simp: owned_in_def ow_def ks_def)
  have card: "c_count c = card (owned_in ow a)"
  proof -
    have "owned_in ow a = set ks"
      using own_all_nth [of ks "cs_owner s" _ a] ks(1) D(1,5) fresh
      by (auto simp: owned_in_def ow_def split: if_splits)
    then show ?thesis by (simp add: ks_def)
  qed
  have D1: "distinct (cs_calls s1)" "a \<notin> set (cs_calls s1)" using calls_okD(2,3) [OF h'(2)] by auto
  have "card (insert a (set (cs_calls s1))) \<le> length ow"
    using calls_okD(6) [OF h'(2)] kk by (intro owners_bound) (auto simp: s1_def)
  then have bound: "length (cs_calls s1) < CS_MAX_CALLS"
    using D1 D(1) by (simp add: distinct_card ow_def CS_MAX_CALLS_def)
  have added: "added s a c = s1\<lparr>cs_calls := cs_calls s1 @ [a]\<rparr>"
    by (simp add: added_def s1_def ow_def ks_def Let_def)
  have "calls_ok (added s a c) h' {}"
    using h'(2,3) kk card unfolding calls_ok_def added by (auto simp: h0_def s1_def)
  then have "cs_inv (added s a c) h'"
    using inv bound unfolding cs_inv_def added by (simp add: s1_def)
  moreover have "add_call s h a c = Some (added s a c, h')"
    using h'(1) bound by (simp add: add_call_def ks_def [symmetric] h0_def [symmetric] added)
  moreover have "\<forall>b \<in> dom h'. b \<noteq> a \<longrightarrow> strip (the (h' b)) = strip (the (h b))"
    using h'(4) by (auto simp: h0_def)
  ultimately show ?thesis using h'(3) by (simp add: h0_def)
qed

section \<open>Every command keeps the invariant\<close>

definition cmd_inv :: "nvhal_cmd \<Rightarrow> bool" where
  "cmd_inv e \<longleftrightarrow> (case e_cs e of None \<Rightarrow> e_heap e = Map.empty | Some s \<Rightarrow> cs_inv s (e_heap e))"

text \<open>calloc returns memory that is not in use.\<close>

definition fresh_mem :: "host_mem \<Rightarrow> nvhal_cmd \<Rightarrow> bool" where
  "fresh_mem mem e \<longleftrightarrow> (case call_at mem of None \<Rightarrow> True | Some a \<Rightarrow> e_heap e a = None)"

lemma cs_zero_inv: "cs_inv cs_zero Map.empty"
  by (auto simp: cs_inv_def calls_ok_def cs_zero_def CS_MAX_PUSH_def)

lemma cs_of_inv:
  assumes "cmd_inv e"
  shows "cmd_inv (cs_of mem e)" "e_heap (cs_of mem e) = e_heap e"
    "fresh_mem m (cs_of mem e) = fresh_mem m e"
  using assms cs_zero_inv by (auto simp: cmd_inv_def cs_of_def fresh_mem_def split: option.splits)

text \<open>Fields the heap invariant does not speak of.\<close>

lemma cs_inv_frame:
  assumes "cs_inv s h" "cs_owner s' = cs_owner s" "cs_calls s' = cs_calls s"
    "length (cs_pushes s') \<le> CS_MAX_PUSH"
  shows "cs_inv s' h"
  using assms by (simp add: cs_inv_def calls_ok_def)

lemma lose_inv: "cs_inv s h \<Longrightarrow> cs_inv (lose s why) h"
  by (rule cs_inv_frame [of s]) (auto simp: lose_def cs_inv_def)

lemma put_state_inv: "cs_inv s (e_heap e) \<Longrightarrow> cmd_inv (put_state e s)"
  by (simp add: cmd_inv_def put_state_def)

lemma lose_cmd_inv: "cmd_inv e \<Longrightarrow> cmd_inv (lose_cmd mem e why)"
  using cs_of_inv [of e mem]
  by (auto simp: lose_cmd_def put_state_def cmd_inv_def split: option.splits intro: lose_inv)

lemma record_call_result:
  assumes inv: "cs_inv s (e_heap e)" and fresh: "fresh_mem mem e"
    and fill: "\<And>c. c_first (fill c) = c_first c \<and> c_count (fill c) = c_count c"
  shows "(\<exists>why. record_call mem e s kind layout first cnt fill = Some (put_state e (lose s why)) \<and>
            (cnt = 0 \<or> CS_MAX_SETS < first + cnt \<or> call_at mem = None)) \<or>
    (\<exists>a h'. call_at mem = Some a \<and> cnt \<noteq> 0 \<and> first + cnt \<le> CS_MAX_SETS \<and>
       record_call mem e s kind layout first cnt fill =
         Some (e\<lparr>e_cs := Some (added s a (fill (blank_call kind layout first cnt))), e_heap := h'\<rparr>) \<and>
       cs_inv (added s a (fill (blank_call kind layout first cnt))) h' \<and>
       h' a = Some ((fill (blank_call kind layout first cnt))\<lparr>c_refs := cnt\<rparr>) \<and>
       (\<forall>b \<in> dom h'. b \<noteq> a \<longrightarrow> strip (the (h' b)) = strip (the (e_heap e b))))"
proof (cases "cnt = 0 \<or> CS_MAX_SETS \<le> first \<or> CS_MAX_SETS - first < cnt")
  case True
  then show ?thesis by (auto simp: record_call_def new_call_def)
next
  case range: False
  show ?thesis
  proof (cases "call_at mem")
    case None
    then show ?thesis using range by (auto simp: record_call_def new_call_def)
  next
    case (Some a)
    let ?c = "fill (blank_call kind layout first cnt)"
    have c: "c_count ?c = cnt" "c_first ?c = first" using fill by (simp_all add: blank_call_def)
    have r: "c_count ?c \<noteq> 0" "c_first ?c + c_count ?c \<le> CS_MAX_SETS" using range c by auto
    have "e_heap e a = None" using fresh Some by (simp add: fresh_mem_def)
    then obtain h' where "add_call s (e_heap e) a ?c = Some (added s a ?c, h')" "cs_inv (added s a ?c) h'"
      "h' a = Some (?c\<lparr>c_refs := cnt\<rparr>)"
      "\<forall>b \<in> dom h'. b \<noteq> a \<longrightarrow> strip (the (h' b)) = strip (the (e_heap e b))"
      using add_call_spec [OF inv _ r] c by auto
    then show ?thesis using Some range r c by (auto simp: record_call_def new_call_def)
  qed
qed

lemma record_call_inv:
  assumes "cs_inv s (e_heap e)" "fresh_mem mem e"
    "\<And>c. c_first (fill c) = c_first c \<and> c_count (fill c) = c_count c"
  shows "\<exists>e'. record_call mem e s kind layout first cnt fill = Some e' \<and> cmd_inv e'"
  using record_call_result [OF assms, of kind layout first cnt]
  by (auto simp: cmd_inv_def put_state_def lose_inv [OF assms(1)])

lemma take_range_length: "take_range l st off sz ps = Some ps' \<Longrightarrow> Suc (length ps') = length ps"
  by (induction ps arbitrary: ps') (auto split: if_splits)

lemma record_push_inv:
  assumes "cmd_inv e"
  shows "cmd_inv (record_push mem e l st off data)"
proof (cases "e_cs (cs_of mem e)")
  case None
  then show ?thesis using assms cs_of_inv [OF assms] by (auto simp: record_push_def Let_def)
next
  case (Some s)
  then have inv: "cs_inv s (e_heap (cs_of mem e))" using cs_of_inv(1) [OF assms, of mem] by (simp add: cmd_inv_def)
  have "cs_inv (s\<lparr>cs_push_compute := b, cs_pushes := ps\<rparr>) (e_heap (cs_of mem e))" if "length ps \<le> CS_MAX_PUSH" for b ps
    using that by (intro cs_inv_frame [OF inv]) auto
  moreover have "cs_inv (lose (s\<lparr>cs_push_compute := b\<rparr>) why) (e_heap (cs_of mem e))" for b why
    using inv by (intro lose_inv cs_inv_frame [OF inv]) (auto simp: cs_inv_def)
  moreover have "length (cs_pushes s) \<le> CS_MAX_PUSH" using inv by (simp add: cs_inv_def)
  ultimately show ?thesis using assms Some lose_inv [OF inv] take_range_length [of l st off "length data" "cs_pushes s"]
    by (auto simp: record_push_def Let_def put_state_inv le_less_Suc_eq split: option.splits)
qed

text \<open>The common prologue of the record functions.\<close>

lemma shadow_prologue:
  assumes "cmd_inv e0" "fresh_mem mem e0"
    and "\<And>s. e_cs (cs_of mem e0) = Some s \<Longrightarrow> cs_inv s (e_heap (cs_of mem e0)) \<Longrightarrow>
      fresh_mem mem (cs_of mem e0) \<Longrightarrow> \<exists>e'. F s = Some e' \<and> cmd_inv e'"
  shows "\<exists>e'. (case e_cs (cs_of mem e0) of None \<Rightarrow> Some (cs_of mem e0) | Some s \<Rightarrow> F s) = Some e' \<and> cmd_inv e'"
  using assms cs_of_inv [OF assms(1), of mem] by (cases "e_cs (cs_of mem e0)") (auto simp: cmd_inv_def)

lemmas record_inv_rules = record_call_inv lose_inv put_state_inv shadow_prologue

lemma record_bind_inv:
  assumes "cmd_inv e" "fresh_mem mem e"
  shows "\<exists>e'. record_bind mem e l f ss dy = Some e' \<and> cmd_inv e'"
  unfolding record_bind_def Let_def
  by (rule shadow_prologue [OF assms]) (auto intro: record_inv_rules)

lemma record_push_desc_inv:
  assumes "cmd_inv e" "fresh_mem mem e"
  shows "\<exists>e'. record_push_desc z mem e fn l n ws = Some e' \<and> cmd_inv e'"
  unfolding record_push_desc_def Let_def
  by (rule shadow_prologue [OF assms]) (cases fn; auto intro: record_inv_rules)

lemma record_db_offsets_inv:
  assumes "cmd_inv e" "fresh_mem mem e"
  shows "\<exists>e'. record_db_offsets mem e l f idx off = Some e' \<and> cmd_inv e'"
  unfolding record_db_offsets_def Let_def
  by (rule shadow_prologue [OF assms]) (auto intro: record_inv_rules)

lemma record_db_samplers_inv:
  assumes "cmd_inv e" "fresh_mem mem e"
  shows "\<exists>e'. record_db_samplers mem e l n = Some e' \<and> cmd_inv e'"
  unfolding record_db_samplers_def Let_def
  by (rule shadow_prologue [OF assms]) (auto intro: record_inv_rules)

lemma bind_shaders_inv: "cmd_inv e \<Longrightarrow> cmd_inv (bind_shaders mem sts sh i e)"
proof (induction mem sts sh i e rule: bind_shaders.induct)
  case (2 mem st sts sh i e)
  have "cmd_inv (put_state (cs_of mem e) (s\<lparr>cs_bound := b, cs_shader := x\<rparr>))"
    if "e_cs (cs_of mem e) = Some s" for s b x
    using cs_of_inv(1) [OF 2(3), of mem] that
    by (auto simp: cmd_inv_def put_state_def cs_inv_def calls_ok_def)
  then show ?case using 2 by (auto split: option.splits)
qed simp

lemma state_update_inv:
  assumes "cmd_inv e" "e_cs (cs_of mem e) = Some s" "cs_owner s' = cs_owner s" "cs_calls s' = cs_calls s"
    "cs_pushes s' = cs_pushes s"
  shows "cmd_inv (put_state (cs_of mem e) s')"
  using cs_of_inv(1) [OF assms(1), of mem] assms(2-)
  by (auto simp: cmd_inv_def put_state_def cs_inv_def calls_ok_def)

lemmas intercept_inv = record_bind_inv record_push_desc_inv record_db_offsets_inv record_db_samplers_inv
  bind_shaders_inv record_push_inv lose_cmd_inv

lemma bind_pipeline_inv:
  assumes "cmd_inv e"
  shows "\<exists>e'. cs_CmdBindPipeline mem bp p e = Some e' \<and> cmd_inv e'"
  using assms cs_of_inv(1) [OF assms, of mem] state_update_inv [OF assms]
  by (auto simp: cs_CmdBindPipeline_def Let_def split: option.splits)

lemma conditional_inv:
  assumes "cmd_inv e"
  shows "\<exists>e'. cs_CmdBeginConditionalRenderingEXT mem e = Some e' \<and> cmd_inv e'"
    "\<exists>e'. cs_CmdEndConditionalRenderingEXT e = Some e' \<and> cmd_inv e'"
  using assms cs_of_inv(1) [OF assms, of mem] state_update_inv [OF assms, of mem]
  by (auto simp: cs_CmdBeginConditionalRenderingEXT_def cs_CmdEndConditionalRenderingEXT_def Let_def
      cmd_inv_def put_state_def cs_inv_def calls_ok_def split: option.splits)

lemma entry_inv:
  assumes "cmd_inv e" "fresh_mem mem e"
  shows "\<exists>e'. nvhal_cs_entries z d mem c e = Some e' \<and> cmd_inv e'"
  using assms
  by (cases c) (simp_all add: intercept_inv bind_pipeline_inv conditional_inv
      cs_CmdBindShadersEXT_def cs_CmdBindDescriptorSets_def bind_sets2_def cs_CmdPushConstants_def
      push2_def cs_CmdPushDescriptorSet_def push_desc2_def template_lost_def
      cs_CmdSetDescriptorBufferOffsetsEXT_def cs_CmdSetDescriptorBufferOffsets2EXT_def
      cs_CmdBindDescriptorBufferEmbeddedSamplersEXT_def cs_CmdBindDescriptorBufferEmbeddedSamplers2EXT_def
      heap_lost_def)

lemma free_calls_all:
  "distinct as \<Longrightarrow> set as \<subseteq> dom h \<Longrightarrow> free_calls as h = Some (h |` (- set as))"
proof (induction as arbitrary: h)
  case (Cons a as)
  have "set as \<subseteq> dom (h(a := None))" using Cons.prems by auto
  then have "free_calls as (h(a := None)) = Some ((h(a := None)) |` (- set as))"
    using Cons by simp
  moreover have "(h(a := None)) |` (- set as) = h |` (- set (a # as))"
    by (auto simp: restrict_map_def)
  ultimately show ?case using Cons.prems by auto
qed (simp add: restrict_map_def)

lemma cs_reset_empties: "cs_inv s h \<Longrightarrow> cs_reset s h = Some (cs_zero, Map.empty)"
  using free_calls_all [of "cs_calls s" h]
  by (auto simp: cs_reset_def cs_inv_def calls_ok_def restrict_map_def intro!: ext)

section \<open>Recordings\<close>

definition cmd_new :: nvhal_cmd where
  "cmd_new = \<lparr>e_cs = None, e_heap = Map.empty\<rparr>"

text \<open>The assumption on the allocator along a recording.\<close>

fun allocs_fresh :: "vk_sizes \<Rightarrow> cs_dev \<Rightarrow> nvhal_cmd \<Rightarrow> (host_mem \<times> cmd) list \<Rightarrow> bool" where
  "allocs_fresh z d e [] \<longleftrightarrow> True"
| "allocs_fresh z d e ((mem, c) # cs) \<longleftrightarrow> fresh_mem mem e \<and>
     (case nvhal_cs_entries z d mem c e of None \<Rightarrow> True | Some e' \<Rightarrow> allocs_fresh z d e' cs)"

lemma cmd_new_inv: "cmd_inv cmd_new"
  by (simp add: cmd_inv_def cmd_new_def)

lemma cs_record_inv:
  "cmd_inv e \<Longrightarrow> allocs_fresh z d e cs \<Longrightarrow>
   \<exists>e'. cs_record z d (Some e) cs = Some (map snd cs, Some e') \<and> cmd_inv e'"
proof (induction cs arbitrary: e)
  case (Cons x cs)
  obtain mem c where x: "x = (mem, c)" by (cases x)
  obtain e1 where e1: "nvhal_cs_entries z d mem c e = Some e1" "cmd_inv e1"
    using entry_inv [OF Cons.prems(1), of mem z d c] Cons.prems(2) x by auto
  then obtain e' where "cs_record z d (Some e1) cs = Some (map snd cs, Some e')" "cmd_inv e'"
    using Cons.IH [of e1] Cons.prems(2) by (auto simp: x)
  then show ?case using e1 by (simp add: x CSCMD_def)
qed simp

lemma restore_calls_defined: "set as \<subseteq> dom h \<Longrightarrow> restore_calls h as = Some (map (\<lambda>a. restore_call (the (h a))) as)"
  by (induction as) auto

lemma restore_defined:
  assumes "cmd_inv e" "e_cs e = Some s"
  shows "nvhal_cs_restore (Some e) = Some (restore_bound s @
    map (\<lambda>a. restore_call (the (e_heap e a))) (cs_calls s) @ restore_pushes s, cs_lost s)"
proof -
  have "set (cs_calls s) \<subseteq> dom (e_heap e)"
    using assms calls_okD(4) [of s "e_heap e" "{}"] by (simp add: cmd_inv_def cs_inv_def)
  then show ?thesis using assms(2) by (simp add: nvhal_cs_restore_def restore_calls_defined)
qed

lemma cs_free_empties: "cmd_inv e \<Longrightarrow> nvhal_cs_free e = Some cmd_new"
  by (cases "e_cs e") (auto simp: nvhal_cs_free_def cmd_inv_def cs_reset_empties cmd_new_def)

section \<open>Properties\<close>

text \<open>
  C2. Memory safety of the compute-state shadow. Whatever commands an app records and wherever the
  allocator fails, no intercept touches a freed call, frees one twice or writes beyond the array
  of 32 calls; every command is forwarded to the driver exactly once and in order; the reference
  counts, owners and calls stay consistent; the replay is defined; and releasing the command
  buffer frees every call (the only assumption is that calloc returns memory that is not in use).
\<close>

theorem cs_recording_safe:
  assumes "allocs_fresh z d cmd_new cs"
  shows "\<exists>e. cs_record z d (Some cmd_new) cs = Some (map snd cs, Some e) \<and> cmd_inv e \<and>
    nvhal_cs_restore (Some e) \<noteq> None \<and> nvhal_cs_free e = Some cmd_new"
proof -
  obtain e where e: "cs_record z d (Some cmd_new) cs = Some (map snd cs, Some e)" "cmd_inv e"
    using cs_record_inv [OF cmd_new_inv assms] by blast
  have "nvhal_cs_restore (Some e) \<noteq> None"
    using restore_defined [OF e(2)] by (cases "e_cs e") (auto simp: nvhal_cs_restore_def)
  then show ?thesis using e cs_free_empties by blast
qed

definition demo_sizes :: vk_sizes where
  "demo_sizes = \<lparr>sz_write = 64, sz_image = 24, sz_view = 8, sz_buffer = 24, sz_inline = 32\<rparr>"

definition demo_dev :: cs_dev where
  "demo_dev = \<lparr>has_push = True, has_push_khr = False\<rparr>"

definition demo_mem :: "addr \<Rightarrow> host_mem" where
  "demo_mem a = \<lparr>state_ok = True, call_at = Some a, push_ok = True\<rparr>"

text \<open>Three overlapping bindings, the last of which frees the second, and a push constant update.\<close>

definition demo_recording :: "(host_mem \<times> cmd) list" where
  "demo_recording =
    [(demo_mem 1, CmdBindPipeline 1 7),
     (demo_mem 1, CmdBindDescriptorSets 1 5 0 [11, 12] []),
     (demo_mem 2, CmdBindDescriptorSets 1 5 1 [13] []),
     (demo_mem 3, CmdBindDescriptorSets 1 5 1 [14] []),
     (demo_mem 4, CmdPushConstants 5 0x20 0 [1, 2, 3, 4])]"

lemmas demo_defs = demo_recording_def demo_mem_def demo_dev_def demo_sizes_def

theorem cs_recording_safe_witness:
  "allocs_fresh demo_sizes demo_dev cmd_new demo_recording \<and>
   (\<exists>e. cs_record demo_sizes demo_dev (Some cmd_new) demo_recording = Some (map snd demo_recording, Some e) \<and>
      cmd_inv e \<and> nvhal_cs_restore (Some e) \<noteq> None \<and> nvhal_cs_free e = Some cmd_new)"
proof -
  have "allocs_fresh demo_sizes demo_dev cmd_new demo_recording" by code_simp
  then show ?thesis using cs_recording_safe [of demo_sizes demo_dev demo_recording] by blast
qed

end
