(* ===== verification/Cmd_Restore.thy ===== *)
theory Cmd_Restore
  imports Cmd_State_Inv
begin

text \<open>
  The replay of the compute-state shadow restores what the app had bound. The state of a command
  buffer at the COMPUTE bind point is modelled as the Vulkan specification describes it: a bound
  pipeline or shader, one slot per descriptor set index, push constants per stage and byte; push
  descriptors update their set incrementally. Descriptor update templates and descriptor heaps
  have an effect the shadow does not know (the parameter \<open>other\<close>).
\<close>

section \<open>The state of a command buffer\<close>

datatype gbound = GNone | GPipeline handle | GShader handle

datatype delem = EImg desc_info | ETexel u64 | EBuf desc_info | EByte u8

datatype slot = SlotNone
  | SlotSet handle nat "handle list" "u32 list"
  | SlotPush handle "nat \<times> nat \<rightharpoonup> desc_type \<times> delem"
  | SlotOffsets handle nat "u32 list" "u64 list"
  | SlotSamplers handle

record gpu =
  g_bound :: gbound
  g_slot :: "nat \<Rightarrow> slot"
  g_push :: "nat \<Rightarrow> nat \<Rightarrow> (handle \<times> u8) option"

definition gpu_init :: gpu where
  "gpu_init = \<lparr>g_bound = GNone, g_slot = (\<lambda>_. SlotNone), g_push = (\<lambda>_ _. None)\<rparr>"

text \<open>The stage number of the compute bit \<open>0x20\<close>.\<close>

definition COMPUTE :: nat where "COMPUTE = 5"

definition write_elems :: "vk_write \<Rightarrow> delem list" where
  "write_elems w =
    (let k = write_kind (w_type w) in
     if k = 1 then (case w_image w of None \<Rightarrow> [] | Some xs \<Rightarrow> map EImg (take (w_count w) xs))
     else if k = 2 then (case w_texel w of None \<Rightarrow> [] | Some xs \<Rightarrow> map ETexel (take (w_count w) xs))
     else if k = 3 then (case w_buffer w of None \<Rightarrow> [] | Some xs \<Rightarrow> map EBuf (take (w_count w) xs))
     else (case w_next w of InlineBlock _ data \<Rightarrow> map EByte data | _ \<Rightarrow> []))"

definition apply_write :: "vk_write \<Rightarrow> (nat \<times> nat \<rightharpoonup> desc_type \<times> delem) \<Rightarrow> (nat \<times> nat \<rightharpoonup> desc_type \<times> delem)" where
  "apply_write w m = (\<lambda>(b, i).
    if b = w_binding w \<and> w_elem w \<le> i \<and> i < w_elem w + length (write_elems w)
    then Some (w_type w, write_elems w ! (i - w_elem w)) else m (b, i))"

definition apply_writes :: "vk_write list \<Rightarrow> (nat \<times> nat \<rightharpoonup> desc_type \<times> delem) \<Rightarrow> (nat \<times> nat \<rightharpoonup> desc_type \<times> delem)" where
  "apply_writes ws m = fold apply_write ws m"

definition pushed_before :: "handle \<Rightarrow> slot \<Rightarrow> (nat \<times> nat \<rightharpoonup> desc_type \<times> delem)" where
  "pushed_before l sl = (case sl of SlotPush l' m \<Rightarrow> if l' = l then m else Map.empty | _ \<Rightarrow> Map.empty)"

definition on_slots :: "nat \<Rightarrow> nat \<Rightarrow> (slot \<Rightarrow> slot) \<Rightarrow> gpu \<Rightarrow> gpu" where
  "on_slots f n upd g = g\<lparr>g_slot := (\<lambda>k. if f \<le> k \<and> k < f + n then upd (g_slot g k) else g_slot g k)\<rparr>"

definition push_bytes :: "handle \<Rightarrow> u32 \<Rightarrow> nat \<Rightarrow> u8 list \<Rightarrow> gpu \<Rightarrow> gpu" where
  "push_bytes l st off data g = g\<lparr>g_push := (\<lambda>s b.
     if bit st s \<and> off \<le> b \<and> b < off + length data then Some (l, data ! (b - off)) else g_push g s b)\<rparr>"

fun exec_shaders :: "u32 list \<Rightarrow> handle list option \<Rightarrow> nat \<Rightarrow> gbound \<Rightarrow> gbound" where
  "exec_shaders [] sh i b = b"
| "exec_shaders (st # sts) sh i b =
    exec_shaders sts sh (Suc i)
      (if st = VK_SHADER_STAGE_COMPUTE_BIT then GShader (case sh of None \<Rightarrow> 0 | Some hs \<Rightarrow> hs ! i) else b)"

definition exec_push :: "handle \<Rightarrow> nat \<Rightarrow> vk_write list \<Rightarrow> gpu \<Rightarrow> gpu" where
  "exec_push l n ws = on_slots n 1 (\<lambda>sl. SlotPush l (apply_writes ws (pushed_before l sl)))"

fun exec :: "(cmd \<Rightarrow> gpu \<Rightarrow> gpu) \<Rightarrow> cmd \<Rightarrow> gpu \<Rightarrow> gpu" where
  "exec other (CmdBindPipeline bp p) g = (if bp = BIND_POINT_COMPUTE then g\<lparr>g_bound := GPipeline p\<rparr> else g)"
| "exec other (CmdBindShadersEXT sts sh) g = g\<lparr>g_bound := exec_shaders sts sh 0 (g_bound g)\<rparr>"
| "exec other (CmdBindDescriptorSets bp l f ss dy) g =
    (if bp = BIND_POINT_COMPUTE then on_slots f (length ss) (\<lambda>_. SlotSet l f ss dy) g else g)"
| "exec other (CmdBindDescriptorSets2 khr st nx l f ss dy) g =
    (if has_compute st then on_slots f (length ss) (\<lambda>_. SlotSet l f ss dy) g else g)"
| "exec other (CmdPushConstants l st off data) g = push_bytes l st off data g"
| "exec other (CmdPushConstants2 khr nx l st off data) g = push_bytes l st off data g"
| "exec other (CmdPushDescriptorSet fn bp l n ws) g = (if bp = BIND_POINT_COMPUTE then exec_push l n ws g else g)"
| "exec other (CmdPushDescriptorSet2 khr st nx l n ws) g = (if has_compute st then exec_push l n ws g else g)"
| "exec other (CmdPushDescriptorSetWithTemplate i) g = other (CmdPushDescriptorSetWithTemplate i) g"
| "exec other (CmdSetDescriptorBufferOffsetsEXT bp l f idx off) g =
    (if bp = BIND_POINT_COMPUTE then on_slots f (length idx) (\<lambda>_. SlotOffsets l f idx off) g else g)"
| "exec other (CmdSetDescriptorBufferOffsets2EXT st nx l f idx off) g =
    (if has_compute st then on_slots f (length idx) (\<lambda>_. SlotOffsets l f idx off) g else g)"
| "exec other (CmdBindDescriptorBufferEmbeddedSamplersEXT bp l n) g =
    (if bp = BIND_POINT_COMPUTE then on_slots n 1 (\<lambda>_. SlotSamplers l) g else g)"
| "exec other (CmdBindDescriptorBufferEmbeddedSamplers2EXT st nx l n) g =
    (if has_compute st then on_slots n 1 (\<lambda>_. SlotSamplers l) g else g)"
| "exec other CmdBeginConditionalRenderingEXT g = g"
| "exec other CmdEndConditionalRenderingEXT g = g"
| "exec other (CmdHeap i) g = other (CmdHeap i) g"

definition exec_all :: "(cmd \<Rightarrow> gpu \<Rightarrow> gpu) \<Rightarrow> cmd list \<Rightarrow> gpu \<Rightarrow> gpu" where
  "exec_all other cs g = fold (exec other) cs g"

text \<open>
  A push of descriptors is complete when it rewrites every descriptor that an earlier push left in
  the set. The shadow keeps only the last push of a set.
\<close>

definition covers_push :: "handle \<Rightarrow> nat \<Rightarrow> vk_write list \<Rightarrow> gpu \<Rightarrow> bool" where
  "covers_push l n ws g \<longleftrightarrow> dom (pushed_before l (g_slot g n)) \<subseteq> dom (apply_writes ws Map.empty)"

fun push_complete :: "cmd \<Rightarrow> gpu \<Rightarrow> bool" where
  "push_complete (CmdPushDescriptorSet fn bp l n ws) g \<longleftrightarrow> bp \<noteq> BIND_POINT_COMPUTE \<or> covers_push l n ws g"
| "push_complete (CmdPushDescriptorSet2 khr st nx l n ws) g \<longleftrightarrow> \<not> has_compute st \<or> covers_push l n ws g"
| "push_complete _ g \<longleftrightarrow> True"

fun pushes_complete :: "(cmd \<Rightarrow> gpu \<Rightarrow> gpu) \<Rightarrow> cmd list \<Rightarrow> gpu \<Rightarrow> bool" where
  "pushes_complete other [] g \<longleftrightarrow> True"
| "pushes_complete other (c # cs) g \<longleftrightarrow> push_complete c g \<and> pushes_complete other cs (exec other c g)"

text \<open>
  What the HAL's decode may leave behind: anything as pipeline, as compute push constants and in
  the slots, except that it pushes no descriptors of its own; other stages are not touched.
\<close>

definition decoded :: "gpu \<Rightarrow> gpu \<Rightarrow> bool" where
  "decoded g g' \<longleftrightarrow> (\<forall>st. st \<noteq> COMPUTE \<longrightarrow> g_push g' st = g_push g st) \<and>
     (\<forall>k. g_slot g' k = g_slot g k \<or> (\<forall>l m. g_slot g' k \<noteq> SlotPush l m))"

section \<open>Copied writes mean the same\<close>

lemma write_elems_copy: "write_elems (copy_write w) = write_elems w"
  by (cases "w_type w") (auto simp: write_elems_def copy_write_def Let_def split: option.splits)

lemma copy_write_fields [simp]:
  "w_binding (copy_write w) = w_binding w" "w_elem (copy_write w) = w_elem w" "w_type (copy_write w) = w_type w"
  by (simp_all add: copy_write_def Let_def)

lemma apply_write_copy: "apply_write (copy_write w) = apply_write w"
  unfolding apply_write_def write_elems_copy copy_write_fields ..

lemma apply_writes_copy: "apply_writes (map copy_write ws) m = apply_writes ws m"
  by (induction ws arbitrary: m) (simp_all add: apply_writes_def apply_write_copy)

lemma apply_writes_add: "apply_writes ws m = m ++ apply_writes ws Map.empty"
proof (induction ws rule: rev_induct)
  case (snoc w ws)
  have "apply_write w (m ++ n) = m ++ apply_write w n" for n
    by (auto simp: apply_write_def map_add_def fun_eq_iff split: option.splits)
  then show ?case using snoc by (simp add: apply_writes_def)
qed (simp add: apply_writes_def)

lemma apply_writes_covered: "dom m \<subseteq> dom (apply_writes ws Map.empty) \<Longrightarrow> apply_writes ws m = apply_writes ws Map.empty"
  by (subst apply_writes_add) (auto simp: map_add_def fun_eq_iff split: option.splits)

section \<open>The simulation\<close>

definition slot_of :: "cs_call \<Rightarrow> slot" where
  "slot_of c =
    (case c_kind c of
       CS_BIND \<Rightarrow> SlotSet (c_layout c) (c_first c) (c_sets c) (c_dyn c)
     | CS_PUSH_DESC \<Rightarrow> SlotPush (c_layout c) (apply_writes (c_writes c) Map.empty)
     | CS_DB_OFFSETS \<Rightarrow> SlotOffsets (c_layout c) (c_first c) (c_indices c) (c_offsets c)
     | CS_DB_SAMPLERS \<Rightarrow> SlotSamplers (c_layout c))"

definition covers :: "cs_call \<Rightarrow> nat \<Rightarrow> bool" where
  "covers c k \<longleftrightarrow> c_first c \<le> k \<and> k < c_first c + c_count c"

definition bound_of :: "nvhal_cmd_state \<Rightarrow> gbound" where
  "bound_of s = (case cs_bound s of CS_NONE \<Rightarrow> GNone | CS_PIPELINE \<Rightarrow> GPipeline (cs_pipeline s)
     | CS_SHADER \<Rightarrow> GShader (cs_shader s))"

definition push_at :: "cs_push \<Rightarrow> nat \<Rightarrow> nat \<Rightarrow> (handle \<times> u8) option" where
  "push_at p s b = (if bit (p_stages p) s \<and> p_offset p \<le> b \<and> b < p_offset p + length (p_data p)
     then Some (p_layout p, p_data p ! (b - p_offset p)) else None)"

fun last_push :: "cs_push list \<Rightarrow> nat \<Rightarrow> nat \<Rightarrow> (handle \<times> u8) option" where
  "last_push [] s b = None"
| "last_push (p # ps) s b = (case last_push ps s b of None \<Rightarrow> push_at p s b | Some x \<Rightarrow> Some x)"

text \<open>The payload agrees with the header of a call.\<close>

definition call_wf :: "cs_call \<Rightarrow> bool" where
  "call_wf c \<longleftrightarrow> (case c_kind c of
       CS_BIND \<Rightarrow> length (c_sets c) = c_count c
     | CS_PUSH_DESC \<Rightarrow> c_count c = 1
     | CS_DB_OFFSETS \<Rightarrow> length (c_indices c) = c_count c
     | CS_DB_SAMPLERS \<Rightarrow> c_count c = 1)"

definition sim_calls :: "nvhal_cmd_state \<Rightarrow> (addr \<rightharpoonup> cs_call) \<Rightarrow> gpu \<Rightarrow> bool" where
  "sim_calls s h g \<longleftrightarrow>
     (\<forall>k < CS_MAX_SETS. g_slot g k = (case cs_owner s ! k of None \<Rightarrow> SlotNone | Some a \<Rightarrow> slot_of (the (h a)))) \<and>
     (\<forall>k. CS_MAX_SETS \<le> k \<longrightarrow> g_slot g k = SlotNone) \<and>
     (\<forall>k < CS_MAX_SETS. List.find (\<lambda>a. covers (the (h a)) k) (rev (cs_calls s)) = cs_owner s ! k) \<and>
     (\<forall>a \<in> set (cs_calls s). call_wf (the (h a)))"

definition sim_push :: "nvhal_cmd_state \<Rightarrow> gpu \<Rightarrow> bool" where
  "sim_push s g \<longleftrightarrow>
     (\<forall>b. g_push g COMPUTE b = last_push (cs_pushes s) COMPUTE b) \<and>
     (\<forall>st b. last_push (cs_pushes s) st b \<noteq> None \<longrightarrow> g_push g st b = last_push (cs_pushes s) st b) \<and>
     (\<not> cs_push_compute s \<longrightarrow> cs_pushes s = [])"

definition sim :: "nvhal_cmd \<Rightarrow> gpu \<Rightarrow> bool" where
  "sim e g \<longleftrightarrow>
    (case e_cs e of
       None \<Rightarrow> g_bound g = GNone \<and> (\<forall>k. g_slot g k = SlotNone) \<and> (\<forall>b. g_push g COMPUTE b = None)
     | Some s \<Rightarrow> cs_lost s = None \<longrightarrow> bound_of s = g_bound g \<and> sim_calls s (e_heap e) g \<and> sim_push s g)"

subsection \<open>Adding a call\<close>

lemma strip_fields:
  assumes "strip c = strip c'"
  shows "c_kind c = c_kind c'" "c_layout c = c_layout c'" "c_first c = c_first c'" "c_count c = c_count c'"
    "c_sets c = c_sets c'" "c_dyn c = c_dyn c'" "c_writes c = c_writes c'" "c_push_fn c = c_push_fn c'"
    "c_indices c = c_indices c'" "c_offsets c = c_offsets c'"
  using assms by (cases c; cases c'; simp add: strip_def)+

lemma strip_eqD:
  assumes "strip c = strip c'"
  shows "slot_of c = slot_of c'" "covers c = covers c'" "call_wf c = call_wf c'" "restore_call c = restore_call c'"
  unfolding slot_of_def covers_def call_wf_def restore_call_def strip_fields [OF assms] by (rule refl)+

lemma find_filter:
  assumes "\<And>x. List.find P xs = Some x \<Longrightarrow> Q x"
  shows "List.find P (filter Q xs) = List.find P xs"
  using assms
proof (induction xs)
  case (Cons x xs)
  show ?case
  proof (cases "P x")
    case True
    then have "Q x" using Cons.prems by simp
    then show ?thesis using True by simp
  next
    case False
    then show ?thesis using Cons by simp
  qed
qed simp

lemma find_cong': "(\<And>x. x \<in> set xs \<Longrightarrow> P x = Q x) \<Longrightarrow> List.find P xs = List.find Q xs"
  by (induction xs) auto

lemma sim_calls_add:
  assumes sim: "sim_calls s h g" and inv: "cs_inv s h" and inv': "cs_inv (added s a c) h'" and fresh: "h a = None"
    and c: "c_count c \<noteq> 0" "c_first c + c_count c \<le> CS_MAX_SETS" "call_wf c"
    and h'a: "h' a = Some (c\<lparr>c_refs := c_count c\<rparr>)"
    and h': "\<forall>b \<in> dom h'. b \<noteq> a \<longrightarrow> strip (the (h' b)) = strip (the (h b))"
    and g': "\<And>k. g_slot g' k = (if covers c k then slot_of c else g_slot g k)"
  shows "sim_calls (added s a c) h' g'"
proof -
  define ks where "ks = [c_first c ..< c_first c + c_count c]"
  define ow where "ow = own_all a ks (cs_owner s)"
  have own: "cs_owner (added s a c) = ow" and calls: "cs_calls (added s a c) = filter (\<lambda>b. owned_in ow b \<noteq> {}) (cs_calls s) @ [a]"
    by (simp_all add: added_def Let_def ow_def ks_def)
  have len: "length (cs_owner s) = CS_MAX_SETS" using inv calls_okD(1) by (auto simp: cs_inv_def)
  have ks: "set ks \<subseteq> {..<length (cs_owner s)}" using c(2) len by (auto simp: ks_def)
  have nth: "ow ! k = (if covers c k then Some a else cs_owner s ! k)" if "k < CS_MAX_SETS" for k
    using own_all_nth [OF ks, of k a] that len by (auto simp: ow_def ks_def covers_def)
  have dom': "dom h' = set (cs_calls (added s a c))"
    using inv' calls_okD(4) [of "added s a c" h' "{}"] by (simp add: cs_inv_def)
  have noa: "a \<notin> set (cs_calls s)" using inv calls_okD(4) [of s h "{}"] fresh by (auto simp: cs_inv_def)
  have same: "strip (the (h' b)) = strip (the (h b))" if "b \<in> set (cs_calls (added s a c))" "b \<noteq> a" for b
    using h' that dom' by blast
  have cov: "covers (the (h' b)) = covers (the (h b))" if "b \<in> set (cs_calls s)" "owned_in ow b \<noteq> {}" for b
  proof -
    have "b \<in> set (cs_calls (added s a c))" "b \<noteq> a" using that noa by (auto simp: calls)
    then show ?thesis by (intro strip_eqD(2) same)
  qed
  have sa: "strip (the (h' a)) = strip c" using h'a by (simp add: strip_def)
  have kept: "b \<in> set (cs_calls (added s a c)) \<and> b \<noteq> a"
    if "k < CS_MAX_SETS" "\<not> covers c k" "cs_owner s ! k = Some b" for k b
  proof -
    have "k \<in> owned_in ow b" using nth [OF that(1)] that len by (simp add: owned_in_def ow_def)
    moreover have "b \<in> set (cs_calls s)"
      using calls_okD(5) [of s h "{}" k b] inv that by (auto simp: cs_inv_def)
    ultimately show ?thesis using noa by (auto simp: calls)
  qed
  have "g_slot g' k = (case ow ! k of None \<Rightarrow> SlotNone | Some b \<Rightarrow> slot_of (the (h' b)))" if k: "k < CS_MAX_SETS" for k
  proof (cases "covers c k")
    case True
    then show ?thesis using nth [OF k] g' strip_eqD(1) [OF sa] by simp
  next
    case False
    have "g_slot g k = (case cs_owner s ! k of None \<Rightarrow> SlotNone | Some b \<Rightarrow> slot_of (the (h b)))"
      using sim k by (simp add: sim_calls_def)
    then show ?thesis using False nth [OF k] g' [of k] kept [OF k False] strip_eqD(1) [OF same]
      by (cases "cs_owner s ! k") auto
  qed
  moreover have "g_slot g' k = SlotNone" if "CS_MAX_SETS \<le> k" for k
    using that sim c(2) g' by (auto simp: sim_calls_def covers_def)
  moreover have "List.find (\<lambda>b. covers (the (h' b)) k) (rev (cs_calls (added s a c))) = ow ! k" if k: "k < CS_MAX_SETS" for k
  proof (cases "covers c k")
    case True
    then show ?thesis using nth [OF k] strip_eqD(2) [OF sa] by (simp add: calls)
  next
    case False
    have old: "List.find (\<lambda>b. covers (the (h b)) k) (rev (cs_calls s)) = cs_owner s ! k"
      using sim k by (simp add: sim_calls_def)
    have "List.find (\<lambda>b. covers (the (h' b)) k) (rev (cs_calls (added s a c))) =
      List.find (\<lambda>b. covers (the (h' b)) k) (rev (filter (\<lambda>b. owned_in ow b \<noteq> {}) (cs_calls s)))"
      using False strip_eqD(2) [OF sa] by (simp add: calls)
    also have "\<dots> = List.find (\<lambda>b. covers (the (h b)) k) (filter (\<lambda>b. owned_in ow b \<noteq> {}) (rev (cs_calls s)))"
      unfolding rev_filter by (rule find_cong') (auto simp: cov)
    also have "\<dots> = cs_owner s ! k"
      unfolding old [symmetric] by (rule find_filter) (use kept [OF k False] in \<open>auto simp: old calls\<close>)
    finally show ?thesis using nth [OF k] False by simp
  qed
  moreover have "call_wf (the (h' b))" if "b \<in> set (cs_calls (added s a c))" for b
    using that sim c(3) strip_eqD(3) [OF sa] strip_eqD(3) [OF same [OF that]]
    by (cases "b = a") (auto simp: calls sim_calls_def)
  ultimately show ?thesis unfolding sim_calls_def own by blast
qed

subsection \<open>Commands\<close>

lemma has_compute_bit: "has_compute st \<longleftrightarrow> bit st COMPUTE"
proof -
  have "st AND 2 ^ 5 \<noteq> 0 \<longleftrightarrow> bit st 5" using and_exp_eq_0_iff_not_bit [of st 5] by blast
  then show ?thesis by (simp add: has_compute_def COMPUTE_def VK_SHADER_STAGE_COMPUTE_BIT_def)
qed

lemma sim_lost: "e_cs e = Some s \<Longrightarrow> cs_lost s \<noteq> None \<Longrightarrow> sim e g"
  by (auto simp: sim_def)

lemma bound_of_cong:
  "cs_bound s' = cs_bound s \<Longrightarrow> cs_pipeline s' = cs_pipeline s \<Longrightarrow> cs_shader s' = cs_shader s \<Longrightarrow>
   bound_of s' = bound_of s"
  by (cases "cs_bound s") (simp_all add: bound_of_def)

lemma sim_push_cong:
  "cs_pushes s' = cs_pushes s \<Longrightarrow> cs_push_compute s' = cs_push_compute s \<Longrightarrow> g_push g' = g_push g \<Longrightarrow>
   sim_push s' g' = sim_push s g"
  by (simp add: sim_push_def)

lemma lose_lost: "cs_lost (lose s why) \<noteq> None"
  by (simp add: lose_def)

lemma sim_lose: "sim (put_state e (lose s why)) g"
  by (rule sim_lost [of _ "lose s why"]) (simp_all add: put_state_def lose_lost)

lemma cs_of_sim:
  assumes "sim e g" "state_ok mem"
  shows "\<exists>s. e_cs (cs_of mem e) = Some s \<and> sim (cs_of mem e) g"
proof (cases "e_cs e")
  case None
  have "sim (e\<lparr>e_cs := Some cs_zero\<rparr>) g"
    using assms(1) None by (simp add: sim_def cs_zero_def bound_of_def sim_calls_def sim_push_def)
  then show ?thesis using None assms(2) by (simp add: cs_of_def)
next
  case (Some s)
  then show ?thesis using assms by (simp add: cs_of_def)
qed

lemma lose_cmd_sim:
  assumes "sim e g0" "state_ok mem"
  shows "sim (lose_cmd mem e why) g"
  using cs_of_sim [OF assms] sim_lose by (auto simp: lose_cmd_def)

lemma on_slots_simps [simp]:
  "g_bound (on_slots f n u g) = g_bound g" "g_push (on_slots f n u g) = g_push g"
  "g_slot (on_slots f n u g) k = (if f \<le> k \<and> k < f + n then u (g_slot g k) else g_slot g k)"
  by (simp_all add: on_slots_def)

lemma record_call_sim:
  assumes sim: "sim e g" and cs: "e_cs e = Some s" and inv: "cmd_inv e" and fresh: "fresh_mem mem e"
    and fill: "\<And>c. c_first (fill c) = c_first c \<and> c_count (fill c) = c_count c"
    and wf: "call_wf (fill (blank_call kind layout first cnt))"
    and slot: "\<And>k. k < CS_MAX_SETS \<Longrightarrow> first \<le> k \<Longrightarrow> k < first + cnt \<Longrightarrow>
      u (g_slot g k) = slot_of (fill (blank_call kind layout first cnt))"
    and rec: "record_call mem e s kind layout first cnt fill = Some e'"
  shows "sim e' (on_slots first cnt u g)"
proof -
  let ?c = "fill (blank_call kind layout first cnt)"
  have i: "cs_inv s (e_heap e)" using inv cs by (simp add: cmd_inv_def)
  have fc: "c_first ?c = first" "c_count ?c = cnt" using fill by (simp_all add: blank_call_def)
  consider why where "e' = put_state e (lose s why)"
    | a h' where "call_at mem = Some a" "cnt \<noteq> 0" "first + cnt \<le> CS_MAX_SETS"
      "e' = e\<lparr>e_cs := Some (added s a ?c), e_heap := h'\<rparr>" "cs_inv (added s a ?c) h'"
      "h' a = Some (?c\<lparr>c_refs := cnt\<rparr>)"
      "\<forall>b \<in> dom h'. b \<noteq> a \<longrightarrow> strip (the (h' b)) = strip (the (e_heap e b))"
    using record_call_result [OF i fresh fill, of kind layout first cnt] rec by auto
  then show ?thesis
  proof cases
    case 1
    then show ?thesis using sim_lose by simp
  next
    case 2
    have "sim_calls (added s a ?c) h' (on_slots first cnt u g)" if lost: "cs_lost s = None"
    proof (rule sim_calls_add [where g = g, OF _ i 2(5)])
      show "sim_calls s (e_heap e) g" using sim cs lost by (simp add: sim_def)
      show "e_heap e a = None" using fresh 2(1) by (simp add: fresh_mem_def)
      show "g_slot (on_slots first cnt u g) k = (if covers ?c k then slot_of ?c else g_slot g k)" for k
        using slot [of k] 2(3) by (simp add: covers_def fc)
    qed (use 2 fc wf in auto)
    moreover have "bound_of (added s a ?c) = bound_of s"
      "sim_push (added s a ?c) (on_slots first cnt u g) = sim_push s g"
      by (rule bound_of_cong; simp) (rule sim_push_cong; simp)
    ultimately show ?thesis using sim cs 2(4) by (simp add: sim_def)
  qed
qed

subsection \<open>Push constants\<close>

lemma last_push_append:
  "last_push (ps @ [p]) st b = (case push_at p st b of None \<Rightarrow> last_push ps st b | Some x \<Rightarrow> Some x)"
  by (induction ps) (auto split: option.splits)

lemma take_range_last:
  assumes "take_range l st off n ps = Some ps'"
    "push_at \<lparr>p_layout = l, p_stages = st, p_offset = off, p_data = data\<rparr> s b = None" "length data = n"
  shows "last_push ps' s b = last_push ps s b"
  using assms
proof (induction ps arbitrary: ps')
  case (Cons p ps)
  show ?case
  proof (cases "same_range l st off n p")
    case True
    then have "push_at p s b = None" using Cons.prems(2,3) by (auto simp: same_range_def push_at_def split: if_splits)
    then show ?thesis using Cons.prems(1) True by (auto split: option.splits)
  next
    case False
    then show ?thesis using Cons by auto
  qed
qed simp

lemma sim_push_add:
  assumes sim: "sim_push s g" and ps: "ps = cs_pushes s \<or> take_range l st off (length data) (cs_pushes s) = Some ps"
    and s': "cs_pushes s' = ps @ [\<lparr>p_layout = l, p_stages = st, p_offset = off, p_data = data\<rparr>]" "cs_push_compute s'"
  shows "sim_push s' (push_bytes l st off data g)"
proof -
  let ?p = "\<lparr>p_layout = l, p_stages = st, p_offset = off, p_data = data\<rparr>"
  have old: "last_push ps a b = last_push (cs_pushes s) a b" if "push_at ?p a b = None" for a b
    using ps take_range_last [OF _ that] by auto
  have at: "push_at ?p a b = (if bit st a \<and> off \<le> b \<and> b < off + length data then Some (l, data ! (b - off)) else None)" for a b
    by (simp add: push_at_def)
  have last: "last_push (cs_pushes s') a b =
      (case push_at ?p a b of None \<Rightarrow> last_push (cs_pushes s) a b | Some x \<Rightarrow> Some x)" for a b
    using old [of a b] by (auto simp: s'(1) last_push_append split: option.splits)
  have push: "g_push (push_bytes l st off data g) a b =
      (case push_at ?p a b of None \<Rightarrow> g_push g a b | Some x \<Rightarrow> Some x)" for a b
    by (simp add: push_bytes_def at)
  show ?thesis unfolding sim_push_def last push
    using sim s'(2) by (auto simp: sim_push_def split: option.splits)
qed

lemma push_bytes_other: "\<not> has_compute st \<Longrightarrow> g_push (push_bytes l st off data g) COMPUTE b = g_push g COMPUTE b"
  by (simp add: push_bytes_def has_compute_bit)

lemma push_bytes_simps [simp]:
  "g_bound (push_bytes l st off data g) = g_bound g" "g_slot (push_bytes l st off data g) = g_slot g"
  by (simp_all add: push_bytes_def)

lemma sim_frame:
  assumes "sim e g" "e_cs e = Some s" "e_cs e' = Some s'" "e_heap e' = e_heap e"
    "cs_lost s' = None \<Longrightarrow> cs_lost s = None"
    "bound_of s = g_bound g \<Longrightarrow> bound_of s' = g_bound g'"
    "cs_owner s' = cs_owner s" "cs_calls s' = cs_calls s" "g_slot g' = g_slot g"
    "sim_push s g \<Longrightarrow> sim_push s' g'"
  shows "sim e' g'"
  using assms by (simp add: sim_def sim_calls_def)

lemma record_push_sim:
  assumes sim: "sim e g" and ok: "state_ok mem"
  shows "sim (record_push mem e l st off data) (push_bytes l st off data g)"
proof (cases "\<not> has_compute st \<and> (case e_cs e of None \<Rightarrow> True | Some s \<Rightarrow> \<not> cs_push_compute s)")
  case True
  then have "record_push mem e l st off data = e" by (simp add: record_push_def)
  moreover have "sim e (push_bytes l st off data g)"
  proof (cases "e_cs e")
    case None
    then show ?thesis using sim True push_bytes_other [of st] by (simp add: sim_def)
  next
    case (Some s)
    show ?thesis by (rule sim_frame [OF sim Some Some])
      (use True Some push_bytes_other [of st] in \<open>auto simp: sim_push_def\<close>)
  qed
  ultimately show ?thesis by simp
next
  case False
  obtain s where s: "e_cs (cs_of mem e) = Some s" "sim (cs_of mem e) g" using cs_of_sim [OF sim ok] by blast
  define t where "t = s\<lparr>cs_push_compute := cs_push_compute s \<or> has_compute st\<rparr>"
  define p where "p = \<lparr>p_layout = l, p_stages = st, p_offset = off, p_data = data\<rparr>"
  have compute: "cs_push_compute t" using False s(1) by (auto simp: t_def cs_of_def split: option.splits if_splits)
  have added: "sim (put_state (cs_of mem e) (t\<lparr>cs_pushes := ps @ [p]\<rparr>)) (push_bytes l st off data g)"
    if "ps = cs_pushes s \<or> take_range l st off (length data) (cs_pushes s) = Some ps" for ps
  proof (rule sim_frame [OF s(2,1)])
    show "sim_push (t\<lparr>cs_pushes := ps @ [p]\<rparr>) (push_bytes l st off data g)" if "sim_push s g"
      by (rule sim_push_add [OF that \<open>ps = cs_pushes s \<or> _\<close>]) (use compute in \<open>simp_all add: p_def\<close>)
    show "bound_of (t\<lparr>cs_pushes := ps @ [p]\<rparr>) = g_bound (push_bytes l st off data g)" if "bound_of s = g_bound g"
      using that bound_of_cong [of "t\<lparr>cs_pushes := ps @ [p]\<rparr>" s] by (simp add: t_def)
  qed (simp_all add: put_state_def t_def)
  have "record_push mem e l st off data =
    (if l = 0 then put_state (cs_of mem e) (lose s ''push constants with a dynamic pipeline layout'')
     else case take_range l st off (length data) (cs_pushes t) of
            Some ps \<Rightarrow> put_state (cs_of mem e) (t\<lparr>cs_pushes := ps @ [p]\<rparr>)
          | None \<Rightarrow>
              if length (cs_pushes t) = CS_MAX_PUSH
              then put_state (cs_of mem e) (lose t ''more than 32 distinct push-constant updates'')
              else if \<not> push_ok mem then put_state (cs_of mem e) (lose t ''out of host memory'')
              else put_state (cs_of mem e) (t\<lparr>cs_pushes := cs_pushes t @ [p]\<rparr>))"
    unfolding record_push_def if_not_P [OF False] Let_def s(1) option.case
      t_def [symmetric] p_def [symmetric] ..
  moreover have "cs_pushes t = cs_pushes s" by (simp add: t_def)
  ultimately show ?thesis
    using added [of "cs_pushes s"] added by (simp add: sim_lose split: option.split)
qed

subsection \<open>Every command\<close>

lemmas payload_simps = blank_call_def call_wf_def slot_of_def

lemma record_bind_sim:
  assumes "sim e g" "state_ok mem" "cmd_inv e" "fresh_mem mem e" "record_bind mem e l f ss dy = Some e'"
  shows "sim e' (on_slots f (length ss) (\<lambda>_. SlotSet l f ss dy) g)"
proof -
  obtain s where s: "e_cs (cs_of mem e) = Some s" "sim (cs_of mem e) g" using cs_of_sim [OF assms(1,2)] by blast
  note i = cs_of_inv(1) [OF assms(3), of mem]
  have fr: "fresh_mem mem (cs_of mem e)" using assms(4) cs_of_inv(3) [OF assms(3)] by simp
  show ?thesis
  proof (cases "l = 0")
    case True
    then show ?thesis using assms(5) s(1) sim_lose by (auto simp: record_bind_def Let_def)
  next
    case False
    then have "record_call mem (cs_of mem e) s CS_BIND l f (length ss) (\<lambda>c. c\<lparr>c_sets := ss, c_dyn := dy\<rparr>) = Some e'"
      using assms(5) s(1) by (simp add: record_bind_def Let_def)
    then show ?thesis by (rule record_call_sim [OF s(2,1) i fr, rotated 3]) (simp_all add: payload_simps)
  qed
qed

lemma record_db_offsets_sim:
  assumes "sim e g" "state_ok mem" "cmd_inv e" "fresh_mem mem e" "record_db_offsets mem e l f idx off = Some e'"
  shows "sim e' (on_slots f (length idx) (\<lambda>_. SlotOffsets l f idx off) g)"
proof -
  obtain s where s: "e_cs (cs_of mem e) = Some s" "sim (cs_of mem e) g" using cs_of_sim [OF assms(1,2)] by blast
  note i = cs_of_inv(1) [OF assms(3), of mem]
  have fr: "fresh_mem mem (cs_of mem e)" using assms(4) cs_of_inv(3) [OF assms(3)] by simp
  show ?thesis
  proof (cases "l = 0")
    case True
    then show ?thesis using assms(5) s(1) sim_lose by (auto simp: record_db_offsets_def Let_def)
  next
    case False
    then have "record_call mem (cs_of mem e) s CS_DB_OFFSETS l f (length idx) (\<lambda>c. c\<lparr>c_indices := idx, c_offsets := off\<rparr>) = Some e'"
      using assms(5) s(1) by (simp add: record_db_offsets_def Let_def)
    then show ?thesis by (rule record_call_sim [OF s(2,1) i fr, rotated 3]) (simp_all add: payload_simps)
  qed
qed

lemma record_db_samplers_sim:
  assumes "sim e g" "state_ok mem" "cmd_inv e" "fresh_mem mem e" "record_db_samplers mem e l n = Some e'"
  shows "sim e' (on_slots n 1 (\<lambda>_. SlotSamplers l) g)"
proof -
  obtain s where s: "e_cs (cs_of mem e) = Some s" "sim (cs_of mem e) g" using cs_of_sim [OF assms(1,2)] by blast
  note i = cs_of_inv(1) [OF assms(3), of mem]
  have fr: "fresh_mem mem (cs_of mem e)" using assms(4) cs_of_inv(3) [OF assms(3)] by simp
  show ?thesis
  proof (cases "l = 0")
    case True
    then show ?thesis using assms(5) s(1) sim_lose by (auto simp: record_db_samplers_def Let_def)
  next
    case False
    then have "record_call mem (cs_of mem e) s CS_DB_SAMPLERS l n 1 (\<lambda>c. c) = Some e'"
      using assms(5) s(1) by (simp add: record_db_samplers_def Let_def)
    then show ?thesis by (rule record_call_sim [OF s(2,1) i fr, rotated 3]) (simp_all add: payload_simps)
  qed
qed

lemma record_push_desc_sim:
  assumes "sim e g" "state_ok mem" "cmd_inv e" "fresh_mem mem e" "covers_push l n ws g"
    "record_push_desc z mem e fn l n ws = Some e'"
  shows "sim e' (exec_push l n ws g)"
proof -
  obtain s where s: "e_cs (cs_of mem e) = Some s" "sim (cs_of mem e) g" using cs_of_sim [OF assms(1,2)] by blast
  note i = cs_of_inv(1) [OF assms(3), of mem]
  have fr: "fresh_mem mem (cs_of mem e)" using assms(4) cs_of_inv(3) [OF assms(3)] by simp
  have cov: "apply_writes ws (pushed_before l (g_slot g n)) = apply_writes ws Map.empty"
    using assms(5) by (intro apply_writes_covered) (simp add: covers_push_def)
  consider why where "e' = put_state (cs_of mem e) (lose s why)"
    | f where "record_call mem (cs_of mem e) s CS_PUSH_DESC l n 1
        (\<lambda>c. c\<lparr>c_writes := map copy_write ws, c_push_fn := f\<rparr>) = Some e'"
    using assms(6) s(1) by (auto simp: record_push_desc_def Let_def split: option.splits if_splits)
  then show ?thesis
  proof cases
    case 1
    then show ?thesis using sim_lose by simp
  next
    case (2 f)
    then show ?thesis unfolding exec_push_def
    proof (rule record_call_sim [OF s(2,1) i fr, rotated 3])
      fix k assume "n \<le> k" "k < n + 1"
      then have "k = n" by simp
      then show "SlotPush l (apply_writes ws (pushed_before l (g_slot g k))) =
        slot_of ((blank_call CS_PUSH_DESC l n 1)\<lparr>c_writes := map copy_write ws, c_push_fn := f\<rparr>)"
        using cov by (simp add: payload_simps apply_writes_copy)
    qed (simp_all add: payload_simps)
  qed
qed

lemma sim_bound:
  assumes "sim e g" "e_cs e = Some s" "e_cs e' = Some s'" "e_heap e' = e_heap e" "bound_of s' = b"
    "cs_owner s' = cs_owner s" "cs_calls s' = cs_calls s" "cs_lost s' = cs_lost s"
    "cs_pushes s' = cs_pushes s" "cs_push_compute s' = cs_push_compute s"
  shows "sim e' (g\<lparr>g_bound := b\<rparr>)"
  by (rule sim_frame [OF assms(1-4)]) (use assms in \<open>auto simp: sim_push_def\<close>)

lemma bind_shaders_sim:
  assumes "state_ok mem" "sim e g"
  shows "sim (bind_shaders mem sts sh i e) (g\<lparr>g_bound := exec_shaders sts sh i (g_bound g)\<rparr>)"
  using assms(2)
proof (induction sts arbitrary: i e g)
  case (Cons st sts)
  show ?case
  proof (cases "st = VK_SHADER_STAGE_COMPUTE_BIT")
    case True
    define x where "x = (case sh of None \<Rightarrow> 0 | Some hs \<Rightarrow> hs ! i)"
    obtain s where s: "e_cs (cs_of mem e) = Some s" "sim (cs_of mem e) g" using cs_of_sim [OF Cons.prems assms(1)] by blast
    have "sim (put_state (cs_of mem e) (s\<lparr>cs_bound := CS_SHADER, cs_shader := x\<rparr>)) (g\<lparr>g_bound := GShader x\<rparr>)"
      by (rule sim_bound [OF s(2,1), where s' = "s\<lparr>cs_bound := CS_SHADER, cs_shader := x\<rparr>"]) (simp_all add: put_state_def bound_of_def)
    from Cons.IH [OF this, of "Suc i"] show ?thesis using True s(1) by (simp add: x_def)
  next
    case False
    then show ?thesis using Cons by simp
  qed
qed simp

lemma bind_pipeline_sim:
  assumes "sim e g" "state_ok mem" "cs_CmdBindPipeline mem bp p e = Some e'"
  shows "sim e' (if bp = BIND_POINT_COMPUTE then g\<lparr>g_bound := GPipeline p\<rparr> else g)"
proof (cases "bp = BIND_POINT_COMPUTE")
  case True
  obtain s where s: "e_cs (cs_of mem e) = Some s" "sim (cs_of mem e) g" using cs_of_sim [OF assms(1,2)] by blast
  have "sim (put_state (cs_of mem e) (s\<lparr>cs_bound := CS_PIPELINE, cs_pipeline := p\<rparr>)) (g\<lparr>g_bound := GPipeline p\<rparr>)"
    by (rule sim_bound [OF s(2,1), where s' = "s\<lparr>cs_bound := CS_PIPELINE, cs_pipeline := p\<rparr>"]) (simp_all add: put_state_def bound_of_def)
  then show ?thesis using True assms(3) s(1) by (simp add: cs_CmdBindPipeline_def Let_def)
next
  case False
  then show ?thesis using assms by (simp add: cs_CmdBindPipeline_def)
qed

lemma sim_conditional:
  assumes "sim e g" "e_cs e = Some s"
  shows "sim (put_state e (s\<lparr>cs_conditional := b\<rparr>)) g"
proof -
  have "bound_of (s\<lparr>cs_conditional := b\<rparr>) = bound_of s" by (rule bound_of_cong) simp_all
  then show ?thesis using assms by (simp add: sim_def put_state_def sim_calls_def sim_push_def)
qed

lemma push2_sim:
  assumes "sim e g" "state_ok mem" "push2 mem nx l st off data e = Some e'"
  shows "sim e' (push_bytes l st off data g)"
proof (cases nx)
  case False
  then show ?thesis using assms(3) record_push_sim [OF assms(1,2), of l st off data] by (auto simp: push2_def)
next
  case nx: True
  show ?thesis
  proof (cases "has_compute st \<or> (case e_cs e of None \<Rightarrow> False | Some s \<Rightarrow> cs_push_compute s)")
    case True
    then have "e' = lose_cmd mem e ''vkCmdPushConstants2 with a pNext structure''"
      using assms(3) nx by (simp add: push2_def)
    then show ?thesis using lose_cmd_sim [OF assms(1,2)] by simp
  next
    case False
    then have "record_push mem e l st off data = e" by (cases "e_cs e") (auto simp: record_push_def)
    moreover have "e' = e" using False nx assms(3) by (cases "e_cs e") (auto simp: push2_def)
    ultimately show ?thesis using record_push_sim [OF assms(1,2), of l st off data] by simp
  qed
qed

lemma entry_sim:
  assumes "sim e g" "state_ok mem" "cmd_inv e" "fresh_mem mem e" "push_complete c g"
    "nvhal_cs_entries z d mem c e = Some e'"
  shows "sim e' (exec other c g)"
  using assms(5,6)
proof (cases c)
  case CmdBeginConditionalRenderingEXT
  obtain s where "e_cs (cs_of mem e) = Some s" "sim (cs_of mem e) g" using cs_of_sim [OF assms(1,2)] by blast
  then show ?thesis using assms(6) CmdBeginConditionalRenderingEXT sim_conditional
    by (auto simp: cs_CmdBeginConditionalRenderingEXT_def Let_def)
next
  case CmdEndConditionalRenderingEXT
  then show ?thesis using assms(1,6) sim_conditional
    by (cases "e_cs e") (auto simp: cs_CmdEndConditionalRenderingEXT_def)
qed (use assms(1-4) in \<open>auto simp: cs_CmdBindShadersEXT_def cs_CmdBindDescriptorSets_def bind_sets2_def
      cs_CmdPushConstants_def cs_CmdPushDescriptorSet_def push_desc2_def template_lost_def
      cs_CmdSetDescriptorBufferOffsetsEXT_def cs_CmdSetDescriptorBufferOffsets2EXT_def
      cs_CmdBindDescriptorBufferEmbeddedSamplersEXT_def cs_CmdBindDescriptorBufferEmbeddedSamplers2EXT_def
      heap_lost_def split: if_splits
      intro: record_bind_sim record_db_offsets_sim record_push_desc_sim bind_shaders_sim record_push_sim
        push2_sim lose_cmd_sim
      dest: bind_pipeline_sim [OF assms(1,2)] record_db_samplers_sim [OF assms(1-4)]\<close>)

section \<open>Replay\<close>

lemma exec_all_simps [simp]:
  "exec_all other [] g = g" "exec_all other (c # cs) g = exec_all other cs (exec other c g)"
  "exec_all other (cs @ cs') g = exec_all other cs' (exec_all other cs g)"
  by (simp_all add: exec_all_def)

definition replay_slot :: "cs_call \<Rightarrow> slot \<Rightarrow> slot" where
  "replay_slot c sl = (if c_kind c = CS_PUSH_DESC
     then SlotPush (c_layout c) (apply_writes (c_writes c) (pushed_before (c_layout c) sl)) else slot_of c)"

lemma exec_restore_call:
  assumes "call_wf c"
  shows "g_bound (exec other (restore_call c) g) = g_bound g" "g_push (exec other (restore_call c) g) = g_push g"
    "g_slot (exec other (restore_call c) g) k = (if covers c k then replay_slot c (g_slot g k) else g_slot g k)"
  using assms by (cases "c_kind c"; simp add: restore_call_def call_wf_def covers_def replay_slot_def slot_of_def exec_push_def)+

lemma replay_other:
  assumes "\<forall>a \<in> set as. call_wf (f a)"
  shows "g_bound (exec_all other (map (\<lambda>a. restore_call (f a)) as) g) = g_bound g"
    "g_push (exec_all other (map (\<lambda>a. restore_call (f a)) as) g) = g_push g"
    "\<forall>a \<in> set as. \<not> covers (f a) k \<Longrightarrow>
       g_slot (exec_all other (map (\<lambda>a. restore_call (f a)) as) g) k = g_slot g k"
  using assms by (induction as arbitrary: g) (auto simp: exec_restore_call)

text \<open>Without pushes to \<open>k\<close> a replay leaves no pushed set there that was not there before.\<close>

lemma replay_not_push:
  assumes "\<forall>a \<in> set as. call_wf (f a)" "\<forall>a \<in> set as. covers (f a) k \<longrightarrow> c_kind (f a) \<noteq> CS_PUSH_DESC"
  shows "g_slot (exec_all other (map (\<lambda>a. restore_call (f a)) as) g) k = g_slot g k \<or>
    (\<forall>l m. g_slot (exec_all other (map (\<lambda>a. restore_call (f a)) as) g) k \<noteq> SlotPush l m)"
  using assms
proof (induction as rule: rev_induct)
  case (snoc a as)
  then show ?case
    by (auto simp: exec_restore_call replay_slot_def slot_of_def split: cs_kind.splits)
qed simp

lemma find_rev_split:
  "List.find P (rev xs) = Some a \<Longrightarrow> \<exists>us vs. xs = us @ a # vs \<and> P a \<and> (\<forall>v \<in> set vs. \<not> P v)"
proof (induction xs rule: rev_induct)
  case (snoc x xs)
  show ?case
  proof (cases "P x")
    case True
    then show ?thesis using snoc.prems by (intro exI [of _ xs] exI [of _ "[]"]) simp
  next
    case False
    then obtain us vs where "xs = us @ a # vs" "P a" "\<forall>v \<in> set vs. \<not> P v" using snoc by auto
    then show ?thesis using False by (intro exI [of _ us] exI [of _ "vs @ [x]"]) simp
  qed
qed simp

lemma push_owner:
  assumes sim: "sim_calls s h g" and inv: "cs_inv s h" and a: "a \<in> set (cs_calls s)"
    and push: "c_kind (the (h a)) = CS_PUSH_DESC" and k: "covers (the (h a)) k" "k < CS_MAX_SETS"
  shows "cs_owner s ! k = Some a"
proof -
  have one: "c_count (the (h a)) = 1" using sim a push by (auto simp: sim_calls_def call_wf_def)
  obtain j where j: "j < CS_MAX_SETS" "cs_owner s ! j = Some a"
    using calls_okD(1,6) [of s h "{}"] inv a by (auto simp: cs_inv_def owned_in_def)
  then have "List.find (\<lambda>b. covers (the (h b)) j) (rev (cs_calls s)) = Some a"
    using sim by (simp add: sim_calls_def)
  then have "covers (the (h a)) j" by (auto simp: find_Some_iff)
  then have "j = k" using one k(1) by (simp add: covers_def)
  then show ?thesis using j by simp
qed

lemma replay_slots:
  assumes sim: "sim_calls s h g" and inv: "cs_inv s h" and dec: "decoded g gd" and slot: "g_slot g k \<noteq> SlotNone"
  shows "g_slot (exec_all other (map (\<lambda>a. restore_call (the (h a))) (cs_calls s)) gd) k = g_slot g k"
proof -
  have k: "k < CS_MAX_SETS" using sim slot by (meson not_le sim_calls_def)
  obtain a where a: "cs_owner s ! k = Some a" "g_slot g k = slot_of (the (h a))"
    using sim slot k by (cases "cs_owner s ! k") (auto simp: sim_calls_def)
  then have "List.find (\<lambda>b. covers (the (h b)) k) (rev (cs_calls s)) = Some a" using sim k by (simp add: sim_calls_def)
  then obtain us vs where split: "cs_calls s = us @ a # vs" "covers (the (h a)) k"
    "\<forall>v \<in> set vs. \<not> covers (the (h v)) k"
    using find_rev_split [of "\<lambda>b. covers (the (h b)) k" "cs_calls s" a] by auto
  have wf: "\<forall>a \<in> set (cs_calls s). call_wf (the (h a))" using sim by (simp add: sim_calls_def)
  have dist: "a \<notin> set us" using inv calls_okD(2) [of s h "{}"] split(1) by (simp add: cs_inv_def)
  define g1 where "g1 = exec_all other (map (\<lambda>a. restore_call (the (h a))) us) gd"
  have "covers (the (h b)) k \<longrightarrow> c_kind (the (h b)) \<noteq> CS_PUSH_DESC" if "b \<in> set us" for b
    using push_owner [OF sim inv, of b k] that a(1) k dist split(1) by auto
  then have "g_slot g1 k = g_slot gd k \<or> (\<forall>l m. g_slot g1 k \<noteq> SlotPush l m)"
    unfolding g1_def using wf split(1) by (intro replay_not_push) auto
  then have before: "g_slot g1 k = slot_of (the (h a)) \<or> (\<forall>l m. g_slot g1 k \<noteq> SlotPush l m)"
    using dec a(2) unfolding decoded_def by metis
  have "replay_slot (the (h a)) (g_slot g1 k) = slot_of (the (h a))"
  proof (cases "c_kind (the (h a)) = CS_PUSH_DESC")
    case True
    then have "pushed_before (c_layout (the (h a))) (g_slot g1 k) \<in>
        {Map.empty, apply_writes (c_writes (the (h a))) Map.empty}"
      using before by (auto simp: pushed_before_def slot_of_def split: slot.splits)
    then show ?thesis using True apply_writes_covered [OF order_refl] by (auto simp: replay_slot_def slot_of_def)
  next
    case False
    then show ?thesis by (simp add: replay_slot_def)
  qed
  then show ?thesis using split wf a(2) replay_other(3) [of vs "\<lambda>a. the (h a)" k]
    by (simp add: g1_def [symmetric] exec_restore_call)
qed

lemma replay_pushes:
  "g_push (exec_all other (map (\<lambda>p. CmdPushConstants (p_layout p) (p_stages p) (p_offset p) (p_data p)) ps) g) st b =
     (case last_push ps st b of None \<Rightarrow> g_push g st b | Some x \<Rightarrow> Some x)" (is "?l g = _")
proof (induction ps arbitrary: g)
  case (Cons p ps)
  have "g_push (push_bytes (p_layout p) (p_stages p) (p_offset p) (p_data p) g) st b =
      (case push_at p st b of None \<Rightarrow> g_push g st b | Some x \<Rightarrow> Some x)"
    by (simp add: push_bytes_def push_at_def)
  then show ?case using Cons by (simp split: option.splits)
qed simp

lemma replay_pushes_frame:
  "g_bound (exec_all other (map (\<lambda>p. CmdPushConstants (p_layout p) (p_stages p) (p_offset p) (p_data p)) ps) g) = g_bound g"
  "g_slot (exec_all other (map (\<lambda>p. CmdPushConstants (p_layout p) (p_stages p) (p_offset p) (p_data p)) ps) g) = g_slot g"
  by (induction ps arbitrary: g) simp_all

lemma last_push_drop: "last_push (dropWhile P ps) st b = Some x \<Longrightarrow> last_push ps st b = Some x"
  by (induction ps) (auto split: if_splits)

lemma last_push_drop_compute:
  "last_push (dropWhile (\<lambda>p. \<not> has_compute (p_stages p)) ps) COMPUTE b = last_push ps COMPUTE b"
proof (induction ps)
  case (Cons p ps)
  have "\<not> has_compute (p_stages p) \<Longrightarrow> push_at p COMPUTE b = None" by (simp add: push_at_def has_compute_bit)
  then show ?case using Cons by (auto split: option.splits)
qed simp

lemma restored_push:
  assumes sim: "sim_push s g" and dec: "decoded g gd" and x: "g_push g st b = Some x"
  shows "(case last_push (dropWhile (\<lambda>p. \<not> has_compute (p_stages p)) (cs_pushes s)) st b of
            None \<Rightarrow> g_push gd st b | Some y \<Rightarrow> Some y) = Some x"
proof (cases "st = COMPUTE")
  case True
  then show ?thesis using sim x by (simp add: last_push_drop_compute sim_push_def)
next
  case False
  then have same: "g_push gd st b = Some x" using dec x by (simp add: decoded_def)
  show ?thesis
  proof (cases "last_push (dropWhile (\<lambda>p. \<not> has_compute (p_stages p)) (cs_pushes s)) st b")
    case None
    then show ?thesis using same by simp
  next
    case (Some y)
    then have "last_push (cs_pushes s) st b = Some y" by (rule last_push_drop)
    then show ?thesis using Some sim x by (simp add: sim_push_def)
  qed
qed

lemma record_sim:
  "sim e g \<Longrightarrow> cmd_inv e \<Longrightarrow> allocs_fresh z d e cs \<Longrightarrow> \<forall>(mem, c) \<in> set cs. state_ok mem \<Longrightarrow>
   pushes_complete other (map snd cs) g \<Longrightarrow> cs_record z d (Some e) cs = Some (fw, Some e') \<Longrightarrow>
   sim e' (exec_all other fw g) \<and> cmd_inv e'"
proof (induction cs arbitrary: e g fw)
  case (Cons x cs)
  obtain mem c where x: "x = (mem, c)" by (cases x)
  have fresh: "fresh_mem mem e" and ok: "state_ok mem" using Cons.prems(3,4) by (auto simp: x)
  obtain e1 where e1: "nvhal_cs_entries z d mem c e = Some e1" "cmd_inv e1"
    using entry_inv [OF Cons.prems(2) fresh, of z d c] by blast
  have s1: "sim e1 (exec other c g)"
    using entry_sim [OF Cons.prems(1) ok Cons.prems(2) fresh _ e1(1)] Cons.prems(5) by (simp add: x)
  obtain fw' where fw: "fw = c # fw'" "cs_record z d (Some e1) cs = Some (fw', Some e')"
    using Cons.prems(6) e1(1) by (auto simp: x CSCMD_def)
  have "sim e' (exec_all other fw' (exec other c g)) \<and> cmd_inv e'"
    using Cons.IH [OF s1 e1(2) _ _ _ fw(2)] Cons.prems(3-5) e1(1) by (simp add: x)
  then show ?case by (simp add: fw(1))
qed simp

lemma sim_init: "sim cmd_new gpu_init"
  by (simp add: sim_def cmd_new_def gpu_init_def)

lemma restore_state:
  fixes other :: "cmd \<Rightarrow> gpu \<Rightarrow> gpu"
  assumes sim: "sim e g" and inv: "cmd_inv e" and dec: "decoded g gd"
    and rs: "nvhal_cs_restore (Some e) = Some (rs, None)"
  defines "g' \<equiv> exec_all other rs gd"
  shows "g_bound g \<noteq> GNone \<Longrightarrow> g_bound g' = g_bound g"
    and "g_slot g k \<noteq> SlotNone \<Longrightarrow> g_slot g' k = g_slot g k"
    and "g_push g st b = Some x \<Longrightarrow> g_push g' st b = Some x"
proof -
  have "(g_bound g \<noteq> GNone \<longrightarrow> g_bound g' = g_bound g) \<and> (g_slot g k \<noteq> SlotNone \<longrightarrow> g_slot g' k = g_slot g k) \<and>
    (g_push g st b = Some x \<longrightarrow> g_push g' st b = Some x)"
  proof (cases "e_cs e")
    case None
    have "rs = []" using rs None by (simp add: nvhal_cs_restore_def)
    then show ?thesis using sim None dec by (cases "st = COMPUTE") (auto simp: sim_def g'_def decoded_def)
  next
    case (Some s)
    define f where "f a = the (e_heap e a)" for a
    have eq: "rs = restore_bound s @ map (\<lambda>a. restore_call (f a)) (cs_calls s) @ restore_pushes s" "cs_lost s = None"
      using rs restore_defined [OF inv Some] by (auto simp: f_def)
    have S: "bound_of s = g_bound g" "sim_calls s (e_heap e) g" "sim_push s g" "cs_inv s (e_heap e)"
      using sim inv Some eq(2) by (auto simp: sim_def cmd_inv_def)
    define g1 where "g1 = exec_all other (restore_bound s) gd"
    have g1: "g_slot g1 = g_slot gd" "g_push g1 = g_push gd" "g_bound g \<noteq> GNone \<Longrightarrow> g_bound g1 = g_bound g"
      using S(1) by (cases "cs_bound s"; simp add: g1_def restore_bound_def bound_of_def BIND_POINT_COMPUTE_def)+
    have d1: "decoded g g1" using dec g1 by (simp add: decoded_def)
    have wf: "\<forall>a \<in> set (cs_calls s). call_wf (f a)" using S(2) by (simp add: sim_calls_def f_def)
    define g2 where "g2 = exec_all other (map (\<lambda>a. restore_call (f a)) (cs_calls s)) g1"
    have g2: "g_bound g2 = g_bound g1" "g_push g2 = g_push g1" unfolding g2_def by (rule replay_other [OF wf])+
    have slot: "g_slot g k \<noteq> SlotNone \<Longrightarrow> g_slot g2 k = g_slot g k"
      unfolding g2_def f_def by (rule replay_slots [OF S(2,4) d1])
    have g': "g' = exec_all other (restore_pushes s) g2" by (simp add: g'_def eq(1) g1_def g2_def)
    have "g_push g' st b = Some x" if "g_push g st b = Some x"
      unfolding g' restore_pushes_def replay_pushes g2 g1(2) by (rule restored_push [OF S(3) dec that])
    then show ?thesis using slot g1(3) g2(1) by (simp add: g' restore_pushes_def replay_pushes_frame)
  qed
  then show "g_bound g \<noteq> GNone \<Longrightarrow> g_bound g' = g_bound g"
    "g_slot g k \<noteq> SlotNone \<Longrightarrow> g_slot g' k = g_slot g k" "g_push g st b = Some x \<Longrightarrow> g_push g' st b = Some x"
    by blast+
qed

section \<open>Properties\<close>


definition demo_app :: gpu where
  "demo_app = exec_all (\<lambda>_ g. g) (map snd demo_recording) gpu_init"

definition demo_replay :: "cmd list" where
  "demo_replay = [CmdBindPipeline 1 7, CmdBindDescriptorSets 1 5 0 [11, 12] [],
     CmdBindDescriptorSets 1 5 1 [14] [], CmdPushConstants 5 0x20 0 [1, 2, 3, 4]]"


definition demo_write :: "nat \<Rightarrow> vk_write" where
  "demo_write b = \<lparr>w_binding = b, w_elem = 0, w_count = 1, w_type = STORAGE_BUFFER, w_next = NoNext,
     w_image = None, w_texel = None, w_buffer = Some [(9, 0, 64)]\<rparr>"

definition two_pushes :: "(host_mem \<times> cmd) list" where
  "two_pushes = [(demo_mem 1, CmdPushDescriptorSet PushCore 1 5 0 [demo_write 0]),
                 (demo_mem 2, CmdPushDescriptorSet PushCore 1 5 0 [demo_write 1])]"

text \<open>
  C35. Two pushes of descriptors to one set, each of its own binding: the shadow keeps only the
  second and reports nothing lost, so after a decode that bound its own set 0 the replay leaves
  the app's first binding unset although the app had both.
\<close>

theorem incremental_push_not_restored:
  "\<exists>e rs gd. cs_record demo_sizes demo_dev (Some cmd_new) two_pushes = Some (map snd two_pushes, Some e) \<and>
     nvhal_cs_restore (Some e) = Some (rs, None) \<and>
     decoded (exec_all (\<lambda>_ g. g) (map snd two_pushes) gpu_init) gd \<and>
     g_slot (exec_all (\<lambda>_ g. g) rs gd) 0 \<noteq>
       g_slot (exec_all (\<lambda>_ g. g) (map snd two_pushes) gpu_init) 0"
proof -
  let ?rs = "[CmdPushDescriptorSet PushCore 1 5 0 [demo_write 1]]"
  let ?app = "exec_all (\<lambda>_ g. g) (map snd two_pushes) gpu_init"
  let ?gd = "?app\<lparr>g_slot := (\<lambda>_. SlotSet 77 0 [1] [])\<rparr>"
  have fresh: "allocs_fresh demo_sizes demo_dev cmd_new two_pushes" by code_simp
  obtain e where e: "cs_record demo_sizes demo_dev (Some cmd_new) two_pushes = Some (map snd two_pushes, Some e)"
    using cs_record_inv [OF cmd_new_inv fresh] by blast
  have "(case cs_record demo_sizes demo_dev (Some cmd_new) two_pushes of Some (_, t) \<Rightarrow> nvhal_cs_restore t | None \<Rightarrow> None) =
      Some (?rs, None)" by code_simp
  then have rs: "nvhal_cs_restore (Some e) = Some (?rs, None)" using e by simp
  have app: "\<exists>m. g_slot ?app 0 = SlotPush 5 m \<and> m (0, 0) \<noteq> None"
    by (simp add: two_pushes_def demo_write_def exec_push_def gpu_init_def BIND_POINT_COMPUTE_def
        pushed_before_def apply_writes_def apply_write_def write_elems_def)
  have "\<exists>m. g_slot (exec_all (\<lambda>_ g. g) ?rs ?gd) 0 = SlotPush 5 m \<and> m (0, 0) = None"
    by (simp add: demo_write_def exec_push_def BIND_POINT_COMPUTE_def
        pushed_before_def apply_writes_def apply_write_def write_elems_def)
  then have "g_slot (exec_all (\<lambda>_ g. g) ?rs ?gd) 0 \<noteq> g_slot ?app 0" using app by auto
  moreover have "decoded ?app ?gd" by (simp add: decoded_def)
  ultimately show ?thesis using e rs by blast
qed

lemma align8: "x \<le> ALIGN8 x" "8 dvd ALIGN8 x"
  by (simp_all add: ALIGN8_def)

lemma copy_regions_fit:
  "payload_bytes z ws = Some n \<Longrightarrow> 8 dvd p \<Longrightarrow>
   snd (copy_regions z ws p) = p + n \<and>
   (\<forall>(off, len) \<in> set (fst (copy_regions z ws p)). 8 dvd off \<and> p \<le> off \<and> off + len \<le> p + n) \<and>
   sorted_wrt (\<lambda>(off, len) (off', len'). off + len \<le> off') (fst (copy_regions z ws p))"
proof (induction ws arbitrary: n p)
  case (Cons w ws)
  obtain n1 n2 where n: "write_payload z w = Some n1" "payload_bytes z ws = Some n2" "n = n1 + n2"
    using Cons.prems(1) by (auto split: option.splits)
  show ?case
  proof (cases "write_kind (w_type w) = 4")
    case True
    then obtain data where d: "w_next w = InlineBlock False data" "n1 = ALIGN8 (sz_inline z) + ALIGN8 (length data)"
      using n(1) by (auto simp: write_payload_def split: write_next.splits bool.splits)
    define q where "q = p + ALIGN8 (sz_inline z)"
    have "8 dvd q" "8 dvd q + ALIGN8 (length data)" using Cons.prems(2) align8 by (auto simp: q_def)
    then show ?thesis using Cons.IH [OF n(2), of "q + ALIGN8 (length data)"] True d n(3) Cons.prems(2)
        align8(1) [of "sz_inline z"] align8(1) [of "length data"]
      by (auto simp: q_def [symmetric] Let_def split: prod.splits) (fastforce simp: q_def)+
  next
    case False
    define m where "m = elem_size z (write_kind (w_type w)) * w_count w"
    have n1: "n1 = ALIGN8 m" using n(1) False by (auto simp: write_payload_def m_def Let_def split: if_splits)
    have "8 dvd p + ALIGN8 m" using Cons.prems(2) align8 by auto
    then show ?thesis using Cons.IH [OF n(2), of "p + ALIGN8 m"] False n(3) n1 Cons.prems(2) align8(1) [of m]
      by (auto simp: m_def [symmetric] Let_def split: prod.splits) fastforce+
  qed
qed simp



end
