(* ===== verification/Cmd_Pools.thy ===== *)
theory Cmd_Pools
  imports Handle_Hash
begin

text \<open>
  The table of command pools in nvidia-prolapse/hal/src/cmdstate.c: a hash table from a pool to its
  queue family index plus one, so that zero can mean "not known". A client of the hash table
  through the \<open>handle_table\<close> interface.
\<close>

definition UINT32_MAX :: u32 where "UINT32_MAX = 0xffffffff"

definition nvhal_pool_family :: "nvhal_hash \<Rightarrow> handle \<Rightarrow> u32" where
  "nvhal_pool_family pools pool =
    (let v = (if pool \<noteq> 0 then nvhal_hash_get pools pool else 0)
     in if v \<noteq> 0 then ucast (v - 1) else UINT32_MAX)"

definition nvhal_pool_forget :: "nvhal_hash \<Rightarrow> handle \<Rightarrow> nvhal_hash" where
  "nvhal_pool_forget pools pool = (if pool \<noteq> 0 then snd (nvhal_hash_del pools pool) else pools)"

text \<open>
  The result of the call and the pool handle come from the driver (\<open>icd\<close>); \<open>known\<close> says whether
  the device was created through the HAL. The value \<open>None\<close> would be a probe loop that never ends.
\<close>

definition cs_CreateCommandPool :: "bool \<Rightarrow> vk_result \<times> handle \<Rightarrow> bool \<Rightarrow> u32 \<Rightarrow> nvhal_hash \<Rightarrow> (vk_result \<times> nvhal_hash) option" where
  "cs_CreateCommandPool known icd calloc_ok family pools =
    (if \<not> known then Some (VK_ERROR_INITIALIZATION_FAILED, pools)
     else let (r, pool) = icd in
       if r = VK_SUCCESS
       then map_option (\<lambda>(_, pools'). (r, pools')) (nvhal_hash_put calloc_ok pools pool (ucast family + 1))
       else Some (r, pools))"

datatype pool_op = Create bool "vk_result \<times> handle" bool u32 | Forget handle

fun pool_run :: "nvhal_hash \<Rightarrow> pool_op list \<Rightarrow> nvhal_hash option" where
  "pool_run h [] = Some h"
| "pool_run h (Create known icd ok family # xs) =
    (case cs_CreateCommandPool known icd ok family h of None \<Rightarrow> None | Some (_, h') \<Rightarrow> pool_run h' xs)"
| "pool_run h (Forget pool # xs) = pool_run (nvhal_pool_forget h pool) xs"

text \<open>Operations that do not concern \<open>pool\<close>.\<close>

fun other_pool :: "handle \<Rightarrow> pool_op \<Rightarrow> bool" where
  "other_pool p (Create known icd ok family) \<longleftrightarrow> \<not> (known \<and> fst icd = VK_SUCCESS \<and> snd icd = p)"
| "other_pool p (Forget q) \<longleftrightarrow> q \<noteq> p"

lemma create_returns:
  assumes "hash_inv h"
  shows "\<exists>r h'. cs_CreateCommandPool known icd ok family h = Some (r, h') \<and> hash_inv h' \<and>
    (other_pool p (Create known icd ok family) \<longrightarrow> nvhal_hash_get h' p = nvhal_hash_get h p)"
proof (cases "known \<and> fst icd = VK_SUCCESS")
  case False
  then show ?thesis using assms by (auto simp: cs_CreateCommandPool_def split: prod.splits)
next
  case True
  obtain b h' where put: "nvhal_hash_put ok h (snd icd) (ucast family + 1) = Some (b, h')"
    using hhash.put_returns [OF assms] by fastforce
  have "nvhal_hash_get h' p = nvhal_hash_get h p" if "p \<noteq> snd icd"
    using hhash.get_after_put [OF assms, of ok "snd icd"] hhash.get_after_failed_put [OF assms] put that
    by (cases b) auto
  then show ?thesis using True put hhash.put_inv [OF assms put]
    by (cases icd) (auto simp: cs_CreateCommandPool_def)
qed

lemma forget_other: "hash_inv h \<Longrightarrow> hash_inv (nvhal_pool_forget h q) \<and>
    (q \<noteq> p \<longrightarrow> nvhal_hash_get (nvhal_pool_forget h q) p = nvhal_hash_get h p)"
  by (simp add: nvhal_pool_forget_def hhash.del_inv hhash.get_after_del)

lemma pool_run_other:
  "hash_inv h \<Longrightarrow> (\<forall>x \<in> set xs. other_pool p x) \<Longrightarrow>
   \<exists>h'. pool_run h xs = Some h' \<and> hash_inv h' \<and> nvhal_hash_get h' p = nvhal_hash_get h p"
proof (induction xs arbitrary: h)
  case (Cons x xs)
  show ?case
  proof (cases x)
    case (Create known icd ok family)
    obtain r h1 where "cs_CreateCommandPool known icd ok family h = Some (r, h1)" "hash_inv h1"
      "nvhal_hash_get h1 p = nvhal_hash_get h p"
      using create_returns [OF Cons.prems(1), of known icd ok family p] Cons.prems(2) Create by auto
    then show ?thesis using Cons.IH [of h1] Cons.prems(2) Create by auto
  next
    case (Forget q)
    then show ?thesis using Cons.IH [of "nvhal_pool_forget h q"] Cons.prems forget_other [of h q p] by auto
  qed
qed simp

lemma pool_run_returns: "hash_inv h \<Longrightarrow> \<exists>h'. pool_run h xs = Some h' \<and> hash_inv h'"
proof (induction xs arbitrary: h)
  case (Cons x xs)
  show ?case
  proof (cases x)
    case (Create known icd ok family)
    obtain r h1 where "cs_CreateCommandPool known icd ok family h = Some (r, h1)" "hash_inv h1"
      using create_returns [OF Cons.prems] by blast
    then show ?thesis using Cons.IH [of h1] Create by simp
  next
    case (Forget q)
    then show ?thesis using Cons.IH [of "nvhal_pool_forget h q"] forget_other [OF Cons.prems] by simp
  qed
qed simp

lemma family_value: "ucast (ucast (f :: u32) :: u64) = f"
  by transfer simp

lemma family_nonzero: "(ucast (f :: u32) :: u64) + 1 \<noteq> 0"
proof
  assume z: "(ucast f :: u64) + 1 = 0"
  have l: "unat f < 2 ^ 32" using unsigned_less [of f] by simp
  have "unat (ucast f :: u64) = unat f"
    using l by (simp add: unsigned_ucast_eq take_bit_nat_eq_self)
  then have "unat ((ucast f :: u64) + 1) = unat f + 1"
    using l by (simp add: unat_word_ariths)
  then show False using z by simp
qed

lemma pool_run_append: "pool_run h (xs @ ys) = (case pool_run h xs of None \<Rightarrow> None | Some h' \<Rightarrow> pool_run h' ys)"
  by (induction xs rule: pool_run.induct [of "\<lambda>h xs. pool_run h (xs @ ys) = (case pool_run h xs of None \<Rightarrow> None | Some h' \<Rightarrow> pool_run h' ys)"])
    (auto split: option.splits)

section \<open>Properties\<close>

text \<open>
  C27. The queue family of a command pool: after any history, a pool the driver created (with a
  handle the table can hold and memory for the entry) is found with exactly its queue family, all
  32 bits of it, until it is forgotten, whatever happens to other pools in between; then it is
  not found any more.
\<close>

theorem pool_family_tracked:
  assumes "live pool" "\<forall>x \<in> set ys. other_pool pool x"
  shows "\<exists>h. pool_run NVHAL_HASH_INIT (xs @ Create True (VK_SUCCESS, pool) True family # ys) = Some h \<and>
    nvhal_pool_family h pool = family \<and> nvhal_pool_family (nvhal_pool_forget h pool) pool = UINT32_MAX"
proof -
  obtain h0 where h0: "pool_run NVHAL_HASH_INIT xs = Some h0" "hash_inv h0"
    using pool_run_returns [OF hash_init_inv(1)] by blast
  obtain b h1 where put: "nvhal_hash_put True h0 pool (ucast family + 1) = Some (b, h1)"
    using hhash.put_returns [OF h0(2)] by fastforce
  have b using hash_put_results(3) [OF h0(2) put] assms(1) by simp
  then have h1: "hash_inv h1" "nvhal_hash_get h1 pool = ucast family + 1"
    using hhash.put_inv [OF h0(2) put] hhash.get_after_put [OF h0(2)] put by auto
  obtain h where h: "pool_run h1 ys = Some h" "hash_inv h" "nvhal_hash_get h pool = ucast family + 1"
    using pool_run_other [OF h1(1) assms(2)] h1(2) by auto
  have p: "pool \<noteq> 0" using assms(1) by (simp add: live_def)
  have "pool_run NVHAL_HASH_INIT (xs @ Create True (VK_SUCCESS, pool) True family # ys) = Some h"
    using h0(1) put h(1) by (simp add: pool_run_append cs_CreateCommandPool_def)
  moreover have "nvhal_pool_family h pool = family"
    using h(3) p family_nonzero [of family] by (simp add: nvhal_pool_family_def family_value)
  moreover have "nvhal_pool_family (nvhal_pool_forget h pool) pool = UINT32_MAX"
    using hhash.get_after_del [OF h(2), of pool pool] p by (simp add: nvhal_pool_family_def nvhal_pool_forget_def)
  ultimately show ?thesis by blast
qed

theorem pool_family_tracked_witness:
  "\<exists>h. pool_run NVHAL_HASH_INIT [Create True (VK_SUCCESS, 3) True 1, Create True (VK_SUCCESS, 5) True 0xffffffff,
        Create True (VK_SUCCESS, 4) False 2, Forget 3] = Some h \<and> nvhal_pool_family h 5 = 0xffffffff"
  using pool_family_tracked [of 5 "[Create True (VK_SUCCESS, 4) False 2, Forget 3]" "[Create True (VK_SUCCESS, 3) True 1]" "0xffffffff"]
  by (auto simp: live_def HASH_TOMB_def)

end
