(* ===== verification/Gbm_Abi.thy ===== *)
theory Gbm_Abi
  imports Nv_Prelude
begin

text \<open>
  The request record both gralloc backends implement, nvidia-prolapse/gralloc/include/gbm_mesa_wrapper.h:
  the fields the caller sets and, apart, the ones the backend fills.
\<close>

record alloc_args =
  a_width :: u32
  a_height :: u32
  a_format :: u32
  a_scanout :: bool
  a_force_linear :: bool
  a_needs_map_stride :: bool

record alloc_out =
  out_fd :: int
  out_stride :: u32
  out_map_stride :: u32
  out_modifier :: u64

end
