(* ===== verification/Vtest_Wrapper.thy ===== *)
theory Vtest_Wrapper
  imports Gbm_Abi
begin

text \<open>
  The guest-side gralloc wrapper of src/minigbm-vtest/vtest_wrapper.c: it asks the host's vtest
  server for a buffer over a Unix socket and receives the buffer's file descriptor back.

  The kernel is a parameter: a record of answers, each a function of a clock that every system
  call advances, so it ranges over all behaviours of the socket (short writes and reads,
  interrupts, end of file, errors, messages with any number of descriptors). A computation takes
  the clock and returns its result, the clock and the trace of what it did; \<open>None\<close> means that it
  never returns, which only an endless run of EINTR can cause.
\<close>

section \<open>System calls\<close>

text \<open>A send or read of \<open>len\<close> bytes that answers \<open>n\<close> transfers \<open>min n len\<close> bytes.\<close>

datatype send_res = Sends nat | SendIntr | SendFail
datatype read_res = Reads "u8 list" | ReadIntr | ReadFail

record cmsg =
  cm_rights :: bool
  cm_long :: bool
  cm_fds :: "int list"

datatype msg_res = MsgIntr | MsgFail | MsgEof | Msg "cmsg list" bool

record sys =
  k_socket :: "nat \<Rightarrow> int"
  k_connect :: "nat \<Rightarrow> bool"
  k_setsockopt :: "nat \<Rightarrow> bool"
  k_send :: "nat \<Rightarrow> send_res"
  k_read :: "nat \<Rightarrow> read_res"
  k_recvmsg :: "nat \<Rightarrow> msg_res"

datatype io = Open int | Close int | Sent int "u8 list" | Got int "u8 list"

type_synonym 'a io_run = "nat \<Rightarrow> ('a \<times> nat \<times> io list) option"

definition ret :: "'a \<Rightarrow> 'a io_run" where
  "ret a t = Some (a, t, [])"

definition tick :: "'a \<Rightarrow> io list \<Rightarrow> 'a io_run" where
  "tick a tr t = Some (a, Suc t, tr)"

definition andthen :: "'a io_run \<Rightarrow> ('a \<Rightarrow> 'b io_run) \<Rightarrow> 'b io_run" where
  "andthen m f t =
    (case m t of
       None \<Rightarrow> None
     | Some (a, t1, tr1) \<Rightarrow>
         (case f a t1 of None \<Rightarrow> None | Some (b, t2, tr2) \<Rightarrow> Some (b, t2, tr1 @ tr2)))"

definition sock_close :: "int \<Rightarrow> unit io_run" where
  "sock_close fd = tick () [Close fd]"

section \<open>Socket plumbing\<close>

partial_function (option) sock_write_all :: "sys \<Rightarrow> int \<Rightarrow> u8 list \<Rightarrow> nat \<Rightarrow> (bool \<times> nat \<times> io list) option" where
  "sock_write_all k fd buf t =
    (if buf = [] then Some (True, t, [])
     else (case k_send k t of
             SendIntr \<Rightarrow> sock_write_all k fd buf (Suc t)
           | SendFail \<Rightarrow> Some (False, Suc t, [])
           | Sends n \<Rightarrow>
               if n = 0 then Some (False, Suc t, [])
               else Option.bind (sock_write_all k fd (drop n buf) (Suc t))
                      (\<lambda>(ok, t', tr). Some (ok, t', Sent fd (take n buf) # tr))))"

partial_function (option) sock_read_all :: "sys \<Rightarrow> int \<Rightarrow> nat \<Rightarrow> nat \<Rightarrow> (u8 list option \<times> nat \<times> io list) option" where
  "sock_read_all k fd len t =
    (if len = 0 then Some (Some [], t, [])
     else (case k_read k t of
             ReadIntr \<Rightarrow> sock_read_all k fd len (Suc t)
           | ReadFail \<Rightarrow> Some (None, Suc t, [])
           | Reads xs \<Rightarrow>
               if xs = [] then Some (None, Suc t, [])
               else Option.bind (sock_read_all k fd (len - length (take len xs)) (Suc t))
                      (\<lambda>(r, t', tr). Some (map_option (\<lambda>ys. take len xs @ ys) r, t', Got fd (take len xs) # tr))))"

partial_function (option) recvmsg_retry :: "sys \<Rightarrow> nat \<Rightarrow> (msg_res \<times> nat) option" where
  "recvmsg_retry k t = (case k_recvmsg k t of MsgIntr \<Rightarrow> recvmsg_retry k (Suc t) | m \<Rightarrow> Some (m, Suc t))"

declare sock_write_all.simps [code] sock_read_all.simps [code] recvmsg_retry.simps [code]

text \<open>The descriptors of one control message: the very first is kept, every other is closed.\<close>

fun take_fds :: "int list \<Rightarrow> int \<Rightarrow> nat \<Rightarrow> int \<times> nat \<times> io list" where
  "take_fds [] received cnt = (received, cnt, [])"
| "take_fds (fd # fds) received cnt =
    (if cnt = 0 then take_fds fds fd (Suc cnt)
     else let (r, c, tr) = take_fds fds received (Suc cnt) in (r, c, Close fd # tr))"

fun take_cmsgs :: "cmsg list \<Rightarrow> int \<Rightarrow> nat \<Rightarrow> int \<times> nat \<times> io list" where
  "take_cmsgs [] received cnt = (received, cnt, [])"
| "take_cmsgs (c # cs) received cnt =
    (if \<not> cm_rights c \<or> \<not> cm_long c then take_cmsgs cs received cnt
     else let (r, n, tr) = take_fds (cm_fds c) received cnt;
              (r', n', tr') = take_cmsgs cs r n
          in (r', n', tr @ tr'))"

text \<open>The descriptors a message installs in the process.\<close>

definition msg_fds :: "cmsg list \<Rightarrow> int list" where
  "msg_fds cs = concat (map cm_fds (filter (\<lambda>c. cm_rights c \<and> cm_long c) cs))"

definition sock_recv_fd :: "sys \<Rightarrow> int \<Rightarrow> int io_run" where
  "sock_recv_fd k sock t =
    (case recvmsg_retry k t of
       None \<Rightarrow> None
     | Some (Msg cs trunc, t') \<Rightarrow>
         (let (received, cnt, tr) = take_cmsgs cs (-1) 0 in
          if cnt \<noteq> 1 \<or> trunc
          then Some (-1, t', map Open (msg_fds cs) @ tr @ (if received \<ge> 0 then [Close received] else []))
          else Some (received, t', map Open (msg_fds cs) @ tr))
     | Some (_, t') \<Rightarrow> Some (-1, t', []))"

text \<open>Words in memory, least significant byte first.\<close>

definition le32 :: "u32 \<Rightarrow> u8 list" where
  "le32 w = [ucast w, ucast (drop_bit 8 w), ucast (drop_bit 16 w), ucast (drop_bit 24 w)]"

fun of_le32 :: "u8 list \<Rightarrow> u32" where
  "of_le32 [a, b, c, d] = ucast a OR push_bit 8 (ucast b) OR push_bit 16 (ucast c) OR push_bit 24 (ucast d)"
| "of_le32 _ = 0"

definition VCMD_CREATE_RENDERER :: u32 where "VCMD_CREATE_RENDERER = 8"
definition VCMD_RESOURCE_ALLOC_GPU :: u32 where "VCMD_RESOURCE_ALLOC_GPU = 41"
definition VCMD_ALLOC_GPU_FLAG_MAPPABLE :: u32 where "VCMD_ALLOC_GPU_FLAG_MAPPABLE = 1"
definition VCMD_ALLOC_GPU_FLAG_SCANOUT :: u32 where "VCMD_ALLOC_GPU_FLAG_SCANOUT = 2"
definition VCMD_RESOURCE_ALLOC_GPU_RESP_SIZE :: u32 where "VCMD_RESOURCE_ALLOC_GPU_RESP_SIZE = 7"

definition hello :: "u8 list" where
  "hello = [0x67, 0x72, 0x61, 0x6c, 0x6c, 0x6f, 0x63, 0]"

definition connect_fail :: "int \<Rightarrow> int io_run" where
  "connect_fail sock = andthen (sock_close sock) (\<lambda>_. ret (-1))"

definition send_hello :: "sys \<Rightarrow> int \<Rightarrow> int io_run" where
  "send_hello k sock =
    andthen (sock_write_all k sock (le32 8 @ le32 VCMD_CREATE_RENDERER)) (\<lambda>w1.
    if \<not> w1 then connect_fail sock
    else andthen (sock_write_all k sock hello) (\<lambda>w2.
    if \<not> w2 then connect_fail sock else ret sock))"

definition vtest_connect :: "sys \<Rightarrow> int io_run" where
  "vtest_connect k =
    andthen (\<lambda>t. tick (k_socket k t) (if k_socket k t \<ge> 0 then [Open (k_socket k t)] else []) t) (\<lambda>sock.
    if sock < 0 then ret (-1)
    else andthen (\<lambda>t. tick (k_connect k t) [] t) (\<lambda>connected.
    if \<not> connected then connect_fail sock
    else andthen (\<lambda>t. tick (k_setsockopt k t) [] t) (\<lambda>ok1.
    if \<not> ok1 then connect_fail sock
    else andthen (\<lambda>t. tick (k_setsockopt k t) [] t) (\<lambda>ok2.
    if \<not> ok2 then connect_fail sock
    else send_hello k sock))))"

section \<open>The gbm operations\<close>

definition FOURCC :: "char \<Rightarrow> char \<Rightarrow> char \<Rightarrow> char \<Rightarrow> u32" where
  "FOURCC a b c d = of_nat (of_char a) OR push_bit 8 (of_nat (of_char b)) OR
     push_bit 16 (of_nat (of_char c)) OR push_bit 24 (of_nat (of_char d))"

definition FMT_R8 :: u32 where "FMT_R8 = FOURCC CHR ''R'' CHR ''8'' CHR '' '' CHR '' ''"
definition FMT_RGB565 :: u32 where "FMT_RGB565 = FOURCC CHR ''R'' CHR ''G'' CHR ''1'' CHR ''6''"
definition FMT_XRGB8888 :: u32 where "FMT_XRGB8888 = FOURCC CHR ''X'' CHR ''R'' CHR ''2'' CHR ''4''"
definition FMT_ARGB8888 :: u32 where "FMT_ARGB8888 = FOURCC CHR ''A'' CHR ''R'' CHR ''2'' CHR ''4''"
definition FMT_XBGR8888 :: u32 where "FMT_XBGR8888 = FOURCC CHR ''X'' CHR ''B'' CHR ''2'' CHR ''4''"
definition FMT_ABGR8888 :: u32 where "FMT_ABGR8888 = FOURCC CHR ''A'' CHR ''B'' CHR ''2'' CHR ''4''"
definition FMT_ABGR2101010 :: u32 where "FMT_ABGR2101010 = FOURCC CHR ''A'' CHR ''B'' CHR ''3'' CHR ''0''"
definition FMT_ABGR16161616F :: u32 where "FMT_ABGR16161616F = FOURCC CHR ''A'' CHR ''B'' CHR ''4'' CHR ''H''"
definition FMT_NV12 :: u32 where "FMT_NV12 = FOURCC CHR ''N'' CHR ''V'' CHR ''1'' CHR ''2''"

lemmas fmt_defs = FMT_R8_def FMT_RGB565_def FMT_XRGB8888_def FMT_ARGB8888_def FMT_XBGR8888_def
  FMT_ABGR8888_def FMT_ABGR2101010_def FMT_ABGR16161616F_def FMT_NV12_def FOURCC_def

definition vtest_get_gbm_format :: "u32 \<Rightarrow> u32" where
  "vtest_get_gbm_format f =
    (if f \<in> {FMT_R8, FMT_RGB565, FMT_XRGB8888, FMT_ARGB8888, FMT_XBGR8888, FMT_ABGR8888,
            FMT_ABGR2101010, FMT_ABGR16161616F, FMT_NV12} then f else 0)"

definition vtest_flags :: "alloc_args \<Rightarrow> u32" where
  "vtest_flags a =
    (if a_force_linear a \<or> a_needs_map_stride a \<or> a_format a = FMT_NV12 then VCMD_ALLOC_GPU_FLAG_MAPPABLE else 0)
    OR (if a_scanout a then VCMD_ALLOC_GPU_FLAG_SCANOUT else 0)"

definition vtest_request :: "alloc_args \<Rightarrow> u8 list" where
  "vtest_request a = concat (map le32 [4, VCMD_RESOURCE_ALLOC_GPU, a_width a, a_height a, a_format a, vtest_flags a])"

definition resp_word :: "u8 list \<Rightarrow> nat \<Rightarrow> u32" where
  "resp_word resp i = of_le32 (take 4 (drop (4 * i) resp))"

text \<open>
  The connection loop: at most \<open>n\<close> attempts, each connecting first if there is no socket; the
  result is the socket with the response, or no response and no socket.
\<close>

fun vtest_roundtrip :: "sys \<Rightarrow> u8 list \<Rightarrow> nat \<Rightarrow> int \<Rightarrow> (int \<times> u8 list option) io_run" where
  "vtest_roundtrip k req 0 sock = ret (sock, None)"
| "vtest_roundtrip k req (Suc n) sock =
    andthen (if sock < 0 then vtest_connect k else ret sock) (\<lambda>s.
    if s < 0 then ret (s, None)
    else andthen (sock_write_all k s req) (\<lambda>w.
    andthen (if w then sock_read_all k s 36 else ret None) (\<lambda>r.
    case r of
      Some resp \<Rightarrow> ret (s, Some resp)
    | None \<Rightarrow> andthen (sock_close s) (\<lambda>_. vtest_roundtrip k req n (-1)))))"

text \<open>\<open>-(int)status\<close>: the status as a 32-bit signed integer, negated with wrap-around.\<close>

definition neg_status :: "u32 \<Rightarrow> int" where
  "neg_status st = sint (- st)"

definition alloc_result :: "u8 list \<Rightarrow> int \<Rightarrow> alloc_out" where
  "alloc_result resp fd = \<lparr>out_fd = fd, out_stride = resp_word resp 3, out_map_stride = resp_word resp 4,
     out_modifier = ucast (resp_word resp 5) OR push_bit 32 (ucast (resp_word resp 6))\<rparr>"

text \<open>From the label \<open>have_resp\<close> on.\<close>

definition vtest_response :: "sys \<Rightarrow> int \<Rightarrow> u8 list \<Rightarrow> (int \<times> alloc_out option \<times> int) io_run" where
  "vtest_response k sock resp =
    (if resp_word resp 0 \<noteq> VCMD_RESOURCE_ALLOC_GPU_RESP_SIZE \<or> resp_word resp 1 \<noteq> VCMD_RESOURCE_ALLOC_GPU
     then andthen (sock_close sock) (\<lambda>_. ret (- EPROTO, None, -1))
     else if resp_word resp 2 \<noteq> 0 then ret (neg_status (resp_word resp 2), None, sock)
     else andthen (sock_recv_fd k sock) (\<lambda>fd.
       if fd < 0 then andthen (sock_close sock) (\<lambda>_. ret (- EIO, None, -1))
       else ret (0, Some (alloc_result resp fd), sock)))"

definition vtest_alloc :: "sys \<Rightarrow> alloc_args \<Rightarrow> int \<Rightarrow> (int \<times> alloc_out option \<times> int) io_run" where
  "vtest_alloc k a sock0 =
    andthen (vtest_roundtrip k (vtest_request a) 2 sock0) (\<lambda>(sock, r).
    case r of None \<Rightarrow> ret (- ENODEV, None, sock) | Some resp \<Rightarrow> vtest_response k sock resp)"

definition vtest_dev_create :: "bool \<Rightarrow> int option" where
  "vtest_dev_create calloc_ok = (if calloc_ok then Some (-1) else None)"

definition vtest_dev_destroy :: "int \<Rightarrow> unit io_run" where
  "vtest_dev_destroy sock = (if sock \<ge> 0 then sock_close sock else ret ())"

text \<open>A device's life: created without a socket, allocations one after the other, destroyed.\<close>

fun vtest_allocs :: "sys \<Rightarrow> alloc_args list \<Rightarrow> int \<Rightarrow> (alloc_out list \<times> int) io_run" where
  "vtest_allocs k [] sock = ret ([], sock)"
| "vtest_allocs k (a # as) sock =
    andthen (vtest_alloc k a sock) (\<lambda>(r, out, s).
    andthen (vtest_allocs k as s) (\<lambda>(outs, s').
    ret ((case out of None \<Rightarrow> outs | Some o1 \<Rightarrow> o1 # outs), s')))"

definition vtest_session :: "sys \<Rightarrow> bool \<Rightarrow> alloc_args list \<Rightarrow> alloc_out list io_run" where
  "vtest_session k calloc_ok as =
    (case vtest_dev_create calloc_ok of
       None \<Rightarrow> ret []
     | Some sock \<Rightarrow>
         andthen (vtest_allocs k as sock) (\<lambda>(outs, s). andthen (vtest_dev_destroy s) (\<lambda>_. ret outs)))"

section \<open>Runs\<close>

lemma andthen_iff: "andthen m f t = Some (b, t2, tr) \<longleftrightarrow>
  (\<exists>a t1 tr1 tr2. m t = Some (a, t1, tr1) \<and> f a t1 = Some (b, t2, tr2) \<and> tr = tr1 @ tr2)"
  by (auto simp: andthen_def split: option.splits)

text \<open>A computation that returns whatever the clock says.\<close>

definition returns :: "'a io_run \<Rightarrow> bool" where
  "returns m \<longleftrightarrow> (\<forall>t. m t \<noteq> None)"

named_theorems returns_intros

lemma returns_andthen [returns_intros]:
  assumes "returns m" "\<And>a. returns (f a)"
  shows "returns (andthen m f)"
  unfolding returns_def
proof
  fix t
  obtain a t1 tr1 where m: "m t = Some (a, t1, tr1)" using assms(1) unfolding returns_def by (metis not_Some_eq prod_cases3)
  obtain b t2 tr2 where "f a t1 = Some (b, t2, tr2)" using assms(2) unfolding returns_def by (metis not_Some_eq prod_cases3)
  then show "andthen m f t \<noteq> None" using m by (simp add: andthen_def)
qed

lemma returns_if [returns_intros]: "(b \<Longrightarrow> returns m) \<Longrightarrow> (\<not> b \<Longrightarrow> returns n) \<Longrightarrow> returns (if b then m else n)"
  by simp

lemma returns_basic [returns_intros]: "returns (ret a)" "returns (\<lambda>t. tick (g t) (h t) t)" "returns (sock_close fd)"
  by (simp_all add: returns_def ret_def tick_def sock_close_def)

lemma ret_iff [simp]: "ret a t = Some (b, t', tr) \<longleftrightarrow> b = a \<and> t' = t \<and> tr = []"
  by (auto simp: ret_def)

lemma tick_iff [simp]: "tick a tr0 t = Some (b, t', tr) \<longleftrightarrow> b = a \<and> t' = Suc t \<and> tr = tr0"
  by (auto simp: tick_def)

lemma close_iff [simp]: "sock_close fd t = Some (u, t', tr) \<longleftrightarrow> t' = Suc t \<and> tr = [Close fd]"
  by (simp add: sock_close_def)

subsection \<open>Descriptors\<close>

fun fd_events :: "io \<Rightarrow> int ev list" where
  "fd_events (Open fd) = [Acq fd]"
| "fd_events (Close fd) = [Rel fd]"
| "fd_events _ = []"

definition fds :: "io list \<Rightarrow> int ev list" where
  "fds tr = concat (map fd_events tr)"

lemma fds_simps [simp]: "fds [] = []" "fds (e # tr) = fd_events e @ fds tr" "fds (tr @ tr') = fds tr @ fds tr'"
  by (simp_all add: fds_def)

definition sent :: "io list \<Rightarrow> u8 list" where
  "sent tr = concat (map (\<lambda>e. case e of Sent _ xs \<Rightarrow> xs | _ \<Rightarrow> []) tr)"

definition got :: "io list \<Rightarrow> u8 list" where
  "got tr = concat (map (\<lambda>e. case e of Got _ xs \<Rightarrow> xs | _ \<Rightarrow> []) tr)"

lemma sent_simps [simp]: "sent [] = []" "sent (Sent fd xs # tr) = xs @ sent tr" "sent (Open fd # tr) = sent tr"
  "sent (Close fd # tr) = sent tr" "sent (Got fd xs # tr) = sent tr" "sent (tr @ tr') = sent tr @ sent tr'"
  by (simp_all add: sent_def)

lemma got_simps [simp]: "got [] = []" "got (Sent fd xs # tr) = got tr" "got (Open fd # tr) = got tr"
  "got (Close fd # tr) = got tr" "got (Got fd xs # tr) = xs @ got tr" "got (tr @ tr') = got tr @ got tr'"
  by (simp_all add: got_def)

section \<open>Whole buffers\<close>

definition write_post :: "u8 list \<Rightarrow> bool \<times> nat \<times> io list \<Rightarrow> bool" where
  "write_post buf = (\<lambda>(ok, t', tr). fds tr = [] \<and> got tr = [] \<and>
     (if ok then sent tr = buf else \<exists>rest. rest \<noteq> [] \<and> buf = sent tr @ rest))"

lemma write_post_step:
  assumes "write_post (drop n buf) (ok, t', tr)"
  shows "write_post buf (ok, t', Sent fd (take n buf) # tr)"
proof (cases ok)
  case True
  then show ?thesis using assms by (simp add: write_post_def)
next
  case False
  then obtain rest where "rest \<noteq> []" "drop n buf = sent tr @ rest" using assms by (auto simp: write_post_def)
  moreover have "buf = take n buf @ drop n buf" by simp
  ultimately have "buf = (take n buf @ sent tr) @ rest" by (metis append_assoc)
  then show ?thesis using False assms \<open>rest \<noteq> []\<close> unfolding write_post_def by auto
qed

lemma write_all_spec:
  assumes "sock_write_all k fd buf t = Some r"
  shows "write_post buf r"
proof (rule sock_write_all.raw_induct [OF _ assms, where P = "\<lambda>k fd buf t r. write_post buf r"])
  fix f :: "sys \<Rightarrow> int \<Rightarrow> u8 list \<Rightarrow> nat \<Rightarrow> (bool \<times> nat \<times> io list) option" and k fd buf t r
  assume IH: "\<And>k fd buf t r. f k fd buf t = Some r \<Longrightarrow> write_post buf r"
    and body: "(if buf = [] then Some (True, t, [])
     else (case k_send k t of
             SendIntr \<Rightarrow> f k fd buf (Suc t)
           | SendFail \<Rightarrow> Some (False, Suc t, [])
           | Sends n \<Rightarrow>
               if n = 0 then Some (False, Suc t, [])
               else Option.bind (f k fd (drop n buf) (Suc t))
                      (\<lambda>(ok, t', tr). Some (ok, t', Sent fd (take n buf) # tr)))) = Some r"
  show "write_post buf r"
  proof (cases "k_send k t")
    case (Sends n)
    show ?thesis
    proof (cases "buf = [] \<or> n = 0")
      case True
      then show ?thesis using body Sends by (auto simp: write_post_def split: if_splits)
    next
      case False
      then obtain ok t' tr where "f k fd (drop n buf) (Suc t) = Some (ok, t', tr)" "r = (ok, t', Sent fd (take n buf) # tr)"
        using body Sends by (cases "f k fd (drop n buf) (Suc t)") auto
      then show ?thesis using write_post_step [OF IH] by blast
    qed
  next
    case SendIntr
    then show ?thesis using body IH by (auto simp: write_post_def split: if_splits)
  next
    case SendFail
    then show ?thesis using body by (auto simp: write_post_def split: if_splits)
  qed
qed

definition read_post :: "nat \<Rightarrow> u8 list option \<times> nat \<times> io list \<Rightarrow> bool" where
  "read_post len = (\<lambda>(r, t', tr). fds tr = [] \<and> sent tr = [] \<and>
     (case r of None \<Rightarrow> length (got tr) < len | Some xs \<Rightarrow> got tr = xs \<and> length xs = len))"

lemma read_all_spec:
  assumes "sock_read_all k fd len t = Some r"
  shows "read_post len r"
proof (rule sock_read_all.raw_induct [OF _ assms, where P = "\<lambda>k fd len t r. read_post len r"])
  fix f :: "sys \<Rightarrow> int \<Rightarrow> nat \<Rightarrow> nat \<Rightarrow> (u8 list option \<times> nat \<times> io list) option" and k fd len t r
  assume IH: "\<And>k fd len t r. f k fd len t = Some r \<Longrightarrow> read_post len r"
    and body: "(if len = 0 then Some (Some [], t, [])
     else (case k_read k t of
             ReadIntr \<Rightarrow> f k fd len (Suc t)
           | ReadFail \<Rightarrow> Some (None, Suc t, [])
           | Reads xs \<Rightarrow>
               if xs = [] then Some (None, Suc t, [])
               else Option.bind (f k fd (len - length (take len xs)) (Suc t))
                      (\<lambda>(r, t', tr). Some (map_option (\<lambda>ys. take len xs @ ys) r, t', Got fd (take len xs) # tr)))) = Some r"
  show "read_post len r"
  proof (cases "k_read k t")
    case (Reads xs)
    show ?thesis
    proof (cases "len = 0 \<or> xs = []")
      case True
      then show ?thesis using body Reads by (auto simp: read_post_def split: if_splits)
    next
      case False
      let ?n = "length (take len xs)"
      obtain q t' tr where q: "f k fd (len - ?n) (Suc t) = Some (q, t', tr)"
        "r = (map_option (\<lambda>ys. take len xs @ ys) q, t', Got fd (take len xs) # tr)"
        using body Reads False by (cases "f k fd (len - ?n) (Suc t)") auto
      have "?n \<le> len" by simp
      then show ?thesis using IH [OF q(1)] q(2) by (cases q) (auto simp: read_post_def)
    qed
  next
    case ReadIntr
    then show ?thesis using body IH by (auto simp: read_post_def split: if_splits)
  next
    case ReadFail
    then show ?thesis using body by (auto simp: read_post_def split: if_splits)
  qed
qed

text \<open>Without an endless run of interrupts the loops return.\<close>

definition lively :: "sys \<Rightarrow> bool" where
  "lively k \<longleftrightarrow> (\<forall>t. \<exists>t' \<ge> t. k_send k t' \<noteq> SendIntr) \<and> (\<forall>t. \<exists>t' \<ge> t. k_read k t' \<noteq> ReadIntr) \<and>
     (\<forall>t. \<exists>t' \<ge> t. k_recvmsg k t' \<noteq> MsgIntr)"

text \<open>The first answer that is no interrupt; a loop skips to it.\<close>

lemma skip_interrupts:
  assumes "t \<le> t'" "\<not> intr t'" "\<And>u. intr u \<Longrightarrow> f u = f (Suc u)"
  shows "\<exists>u \<ge> t. \<not> intr u \<and> f t = f u"
  using assms(1,2)
proof (induction "t' - t" arbitrary: t)
  case 0
  then show ?case by auto
next
  case (Suc n)
  show ?case
  proof (cases "intr t")
    case True
    then have "Suc t \<le> t'" using Suc.prems by (metis Suc_leI le_neq_implies_less)
    moreover have "n = t' - Suc t" using Suc.hyps(2) by simp
    ultimately obtain u where "u \<ge> Suc t" "\<not> intr u" "f (Suc t) = f u" using Suc.hyps(1) Suc.prems(2) by blast
    then show ?thesis using assms(3) [OF True] by (intro exI [of _ u]) auto
  next
    case False
    then show ?thesis by blast
  qed
qed

lemma bind_not_None: "m \<noteq> None \<Longrightarrow> (\<And>x. f x \<noteq> None) \<Longrightarrow> Option.bind m f \<noteq> None"
  by (cases m) auto

lemma write_all_returns: "lively k \<Longrightarrow> sock_write_all k fd buf t \<noteq> None"
proof (induction "length buf" arbitrary: buf t rule: less_induct)
  case less
  obtain t' where t': "t \<le> t'" "k_send k t' \<noteq> SendIntr" using less.prems unfolding lively_def by blast
  have "sock_write_all k fd buf u = sock_write_all k fd buf (Suc u)" if "buf \<noteq> []" "k_send k u = SendIntr" for u
    using that by (subst sock_write_all.simps) simp
  then obtain u where u: "k_send k u \<noteq> SendIntr" "buf \<noteq> [] \<Longrightarrow> sock_write_all k fd buf t = sock_write_all k fd buf u"
    using skip_interrupts [OF t'(1), of "\<lambda>u. k_send k u = SendIntr" "sock_write_all k fd buf"] t'(2) by blast
  show ?case
  proof (cases "buf = []")
    case True
    then show ?thesis by (subst sock_write_all.simps) simp
  next
    case False
    have "sock_write_all k fd (drop n buf) (Suc u) \<noteq> None" if "n \<noteq> 0" for n
      using less.hyps [of "drop n buf"] less.prems that False by simp
    then have "sock_write_all k fd buf u \<noteq> None"
      using u(1) False by (subst sock_write_all.simps)
        (simp add: bind_not_None split_beta del: not_None_eq split: send_res.split)
    then show ?thesis using u(2) False by simp
  qed
qed

lemma read_all_returns: "lively k \<Longrightarrow> sock_read_all k fd len t \<noteq> None"
proof (induction len arbitrary: t rule: less_induct)
  case (less len)
  obtain t' where t': "t \<le> t'" "k_read k t' \<noteq> ReadIntr" using less.prems unfolding lively_def by blast
  have "sock_read_all k fd len u = sock_read_all k fd len (Suc u)" if "len \<noteq> 0" "k_read k u = ReadIntr" for u
    using that by (subst sock_read_all.simps) simp
  then obtain u where u: "k_read k u \<noteq> ReadIntr" "len \<noteq> 0 \<Longrightarrow> sock_read_all k fd len t = sock_read_all k fd len u"
    using skip_interrupts [OF t'(1), of "\<lambda>u. k_read k u = ReadIntr" "sock_read_all k fd len"] t'(2) by blast
  show ?case
  proof (cases "len = 0")
    case True
    then show ?thesis by (subst sock_read_all.simps) simp
  next
    case False
    have IH: "\<exists>r t1 tr. sock_read_all k fd (len - length (take len xs)) (Suc u) = Some (r, t1, tr)" if "xs \<noteq> []" for xs
    proof -
      have "len - length (take len xs) < len" using that False by simp
      from less.IH [OF this less.prems] show ?thesis by auto
    qed
    have "sock_read_all k fd len u \<noteq> None"
    proof (cases "k_read k u")
      case (Reads xs)
      show ?thesis
      proof (cases "xs = []")
        case True
        then show ?thesis using Reads False by (subst sock_read_all.simps) simp
      next
        case xs: False
        then obtain r t1 tr where "sock_read_all k fd (len - length (take len xs)) (Suc u) = Some (r, t1, tr)"
          using IH by blast
        then show ?thesis using Reads False xs by (subst sock_read_all.simps) simp
      qed
    qed (use u(1) False in \<open>subst sock_read_all.simps, simp\<close>)+
    then show ?thesis using u(2) False by simp
  qed
qed

lemma recvmsg_returns: "lively k \<Longrightarrow> recvmsg_retry k t \<noteq> None"
proof -
  assume "lively k"
  then obtain t' where t': "t \<le> t'" "k_recvmsg k t' \<noteq> MsgIntr" unfolding lively_def by blast
  have "recvmsg_retry k u = recvmsg_retry k (Suc u)" if "k_recvmsg k u = MsgIntr" for u
    using that by (subst recvmsg_retry.simps) simp
  then obtain u where "k_recvmsg k u \<noteq> MsgIntr" "recvmsg_retry k t = recvmsg_retry k u"
    using skip_interrupts [OF t'(1), of "\<lambda>u. k_recvmsg k u = MsgIntr" "recvmsg_retry k"] t'(2) by blast
  moreover from this have "recvmsg_retry k u \<noteq> None" by (subst recvmsg_retry.simps) (simp split: msg_res.splits)
  ultimately show ?thesis by simp
qed

section \<open>Descriptors are never leaked or closed twice\<close>

text \<open>The kernel never hands out a negative descriptor.\<close>

definition lawful :: "sys \<Rightarrow> bool" where
  "lawful k \<longleftrightarrow> (\<forall>t cs trunc. k_recvmsg k t = Msg cs trunc \<longrightarrow> (\<forall>fd \<in> set (msg_fds cs). 0 \<le> fd))"

lemma take_fds_append: "take_fds (xs @ ys) r c =
  (let (r1, c1, tr1) = take_fds xs r c; (r2, c2, tr2) = take_fds ys r1 c1 in (r2, c2, tr1 @ tr2))"
  by (induction xs r c rule: take_fds.induct) (auto split: prod.splits)

lemma take_cmsgs_flat: "take_cmsgs cs r c = take_fds (msg_fds cs) r c"
  by (induction cs r c rule: take_cmsgs.induct)
    (auto simp: msg_fds_def take_fds_append split: prod.splits)

lemma take_fds_more: "c \<noteq> 0 \<Longrightarrow> take_fds xs r c = (r, c + length xs, map Close xs)"
  by (induction xs arbitrary: c) auto

lemma take_fds_first: "take_fds (x # xs) r 0 = (x, Suc (length xs), map Close xs)"
  by (simp add: take_fds_more)

lemma run_ev_acquire: "run_ev M (fds (map Open xs)) = Some (M + mset xs)"
  by (induction xs arbitrary: M) auto

lemma run_ev_release: "run_ev (M + mset xs) (fds (map Close xs)) = Some M"
  by (induction xs) auto

lemma recvmsg_retry_answer: "recvmsg_retry k t = Some (m, t') \<Longrightarrow> \<exists>u. k_recvmsg k u = m"
proof -
  assume a: "recvmsg_retry k t = Some (m, t')"
  have "\<exists>u. k_recvmsg k u = fst r" if "recvmsg_retry k t = Some r" for r
    by (rule recvmsg_retry.raw_induct [OF _ that, where P = "\<lambda>k t r. \<exists>u. k_recvmsg k u = fst r"])
      (fastforce split: msg_res.splits)
  from this [OF a] show ?thesis by simp
qed

definition recv_op :: "sys \<times> int \<times> nat \<Rightarrow> int ev list \<times> (unit + int)" where
  "recv_op = (\<lambda>(k, sock, t).
    case sock_recv_fd k sock t of
      None \<Rightarrow> ([], Inl ())
    | Some (r, _, tr) \<Rightarrow> (fds tr, if r < 0 then Inl () else Inr r))"

lemma recv_fd_cases:
  assumes "sock_recv_fd k sock t = Some (r, t', tr)" "lawful k"
  shows "(r < 0 \<and> tr = []) \<or>
    (r < 0 \<and> (\<exists>xs. tr = map Open xs @ map Close (tl xs) @ map Close (take 1 xs))) \<or>
    (0 \<le> r \<and> tr = [Open r])"
proof -
  obtain m u where m: "recvmsg_retry k t = Some (m, u)" using assms(1) by (auto simp: sock_recv_fd_def split: option.splits)
  show ?thesis
  proof (cases m)
    case (Msg cs trunc)
    then have pos: "\<forall>fd \<in> set (msg_fds cs). 0 \<le> fd"
      using recvmsg_retry_answer [OF m] assms(2) by (auto simp: lawful_def)
    show ?thesis
    proof (cases "msg_fds cs")
      case Nil
      then show ?thesis using assms(1) m Msg by (auto simp: sock_recv_fd_def take_cmsgs_flat)
    next
      case (Cons x xs)
      then have x: "0 \<le> x" using pos by simp
      have t: "take_cmsgs cs (-1) 0 = (x, Suc (length xs), map Close xs)"
        by (simp only: take_cmsgs_flat Cons take_fds_first)
      show ?thesis
      proof (cases "xs = [] \<and> \<not> trunc")
        case True
        then show ?thesis using assms(1) m Msg t x Cons by (auto simp: sock_recv_fd_def)
      next
        case False
        then have "r = -1" "tr = map Open (x # xs) @ map Close xs @ [Close x]"
          using assms(1) m Msg t x Cons by (auto simp: sock_recv_fd_def)
        then show ?thesis by (intro disjI2 disjI1) (auto intro!: exI [of _ "x # xs"])
      qed
    qed
  qed (use assms(1) m in \<open>auto simp: sock_recv_fd_def\<close>)
qed

interpretation recv_fd: owned_op recv_op "\<lambda>(k, sock, t). lawful k" "\<lambda>fd. {#fd#}"
proof
  fix e :: "sys \<times> int \<times> nat" and tr res
  obtain k sock t where e: "e = (k, sock, t)" by (cases e)
  assume "case e of (k, sock, t) \<Rightarrow> lawful k" and op: "recv_op e = (tr, res)"
  then have l: "lawful k" by (simp add: e)
  show "run_ev {#} tr = Some (case res of Inl _ \<Rightarrow> {#} | Inr fd \<Rightarrow> {#fd#})"
  proof (cases "sock_recv_fd k sock t")
    case None
    then show ?thesis using op by (auto simp: e recv_op_def)
  next
    case (Some x)
    obtain r t' io where x: "x = (r, t', io)" by (cases x)
    have "run_ev {#} (fds (map Open xs @ map Close (tl xs) @ map Close (take 1 xs))) = Some {#}" for xs
      by (cases xs) (simp_all add: run_ev_append run_ev_acquire run_ev_release [of "{#_#}", simplified])
    then show ?thesis using recv_fd_cases [of k sock t r t' io] l Some x op by (auto simp: e recv_op_def)
  qed
qed

definition conn_op :: "sys \<times> nat \<Rightarrow> int ev list \<times> (unit + int)" where
  "conn_op = (\<lambda>(k, t).
    case vtest_connect k t of
      None \<Rightarrow> ([], Inl ())
    | Some (r, _, tr) \<Rightarrow> (fds tr, if r < 0 then Inl () else Inr r))"

lemma write_frame: "sock_write_all k fd buf t = Some (ok, t', tr) \<Longrightarrow> fds tr = [] \<and> got tr = []"
  using write_all_spec [of k fd buf t "(ok, t', tr)"] by (simp add: write_post_def)

lemma write_sent: "sock_write_all k fd buf t = Some (True, t', tr) \<Longrightarrow> sent tr = buf"
  using write_all_spec [of k fd buf t "(True, t', tr)"] by (simp add: write_post_def)

lemma read_frame: "sock_read_all k fd len t = Some (r, t', tr) \<Longrightarrow> fds tr = [] \<and> sent tr = []"
  using read_all_spec [of k fd len t "(r, t', tr)"] by (simp add: read_post_def)

lemma read_got: "sock_read_all k fd len t = Some (Some xs, t', tr) \<Longrightarrow> got tr = xs \<and> length xs = len"
  using read_all_spec [of k fd len t "(Some xs, t', tr)"] by (simp add: read_post_def)

lemma connect_fail_iff [simp]: "connect_fail sock t = Some (r, t', tr) \<longleftrightarrow> r = -1 \<and> t' = Suc t \<and> tr = [Close sock]"
  by (auto simp: connect_fail_def andthen_iff)

definition handshake :: "u8 list" where
  "handshake = le32 8 @ le32 VCMD_CREATE_RENDERER @ hello"

lemma hello_cases:
  assumes "send_hello k sock t = Some (r, t', tr)"
  shows "(r = -1 \<and> fds tr = [Rel sock]) \<or> (r = sock \<and> fds tr = [] \<and> got tr = [] \<and> sent tr = handshake)"
proof -
  obtain w1 t1 tr1 tr' where w1: "sock_write_all k sock (le32 8 @ le32 VCMD_CREATE_RENDERER) t = Some (w1, t1, tr1)"
    "(if \<not> w1 then connect_fail sock else andthen (sock_write_all k sock hello) (\<lambda>w2.
      if \<not> w2 then connect_fail sock else ret sock)) t1 = Some (r, t', tr')" "tr = tr1 @ tr'"
    using assms unfolding send_hello_def andthen_iff by blast
  show ?thesis
  proof (cases w1)
    case False
    then show ?thesis using w1 write_frame [OF w1(1)] by simp
  next
    case True
    then obtain w2 t2 tr2 tr3 where w2: "sock_write_all k sock hello t1 = Some (w2, t2, tr2)"
      "(if \<not> w2 then connect_fail sock else ret sock) t2 = Some (r, t', tr3)" "tr' = tr2 @ tr3"
      using w1(2) by (auto simp: andthen_iff)
    have "sent tr1 = le32 8 @ le32 VCMD_CREATE_RENDERER" using w1(1) True write_sent by simp
    moreover have "w2 \<Longrightarrow> sent tr2 = hello" using w2(1) write_sent by simp
    ultimately show ?thesis using w1(3) w2 write_frame [OF w1(1)] write_frame [OF w2(1)]
      by (cases w2) (auto simp: handshake_def)
  qed
qed

lemma connect_cases:
  assumes "vtest_connect k t = Some (r, t', tr)"
  shows "(r < 0 \<and> (fds tr = [] \<or> (\<exists>s. fds tr = [Acq s, Rel s]))) \<or>
    (0 \<le> r \<and> fds tr = [Acq r] \<and> got tr = [] \<and> sent tr = handshake)"
  using assms by (auto simp: vtest_connect_def andthen_iff split: if_splits dest!: hello_cases)

interpretation conn: owned_op conn_op "\<lambda>_. True" "\<lambda>fd. {#fd#}"
proof
  fix e :: "sys \<times> nat" and tr res
  obtain k t where e: "e = (k, t)" by (cases e)
  assume op: "conn_op e = (tr, res)"
  show "run_ev {#} tr = Some (case res of Inl _ \<Rightarrow> {#} | Inr fd \<Rightarrow> {#fd#})"
  proof (cases "vtest_connect k t")
    case None
    then show ?thesis using op by (auto simp: e conn_op_def)
  next
    case (Some x)
    obtain r t' io where x: "x = (r, t', io)" by (cases x)
    then show ?thesis using connect_cases [of k t r t' io] Some op by (auto simp: e conn_op_def)
  qed
qed

lemma connect_fds: "vtest_connect k t = Some (r, t', tr) \<Longrightarrow> run_ev K (fds tr) = Some (if r < 0 then K else add_mset r K)"
  using conn.op_frame [where e = "(k, t)" and K = K] by (simp add: conn_op_def conn.held_by_def split: if_splits)

lemma recv_fds: "lawful k \<Longrightarrow> sock_recv_fd k sock t = Some (r, t', tr) \<Longrightarrow>
    run_ev K (fds tr) = Some (if r < 0 then K else add_mset r K)"
  using recv_fd.op_frame [where e = "(k, sock, t)" and K = K] by (simp add: recv_op_def recv_fd.held_by_def split: if_splits)

definition holds :: "int \<Rightarrow> int multiset" where
  "holds sock = (if sock < 0 then {#} else {#sock#})"

text \<open>
  What a round trip leaves: with a response there is a socket, on which since it was opened (or
  since the call) exactly the handshake (if it is new) and the request were sent and exactly the
  response was read; without one there is no socket.
\<close>

definition in_sync :: "int \<Rightarrow> u8 list \<Rightarrow> int \<Rightarrow> u8 list \<Rightarrow> io list \<Rightarrow> bool" where
  "in_sync sock0 req sock resp tr \<longleftrightarrow> 0 \<le> sock \<and> length resp = 36 \<and>
     (\<exists>before after fresh. tr = before @ after \<and> got after = resp \<and>
        sent after = (if fresh then handshake else []) @ req \<and> fds after = (if fresh then [Acq sock] else []) \<and>
        (fresh \<or> before = [] \<and> sock = sock0))"

lemma in_syncI:
  assumes "0 \<le> sock" "length resp = 36" "got after = resp" "sent after = (if fresh then handshake else []) @ req"
    "fds after = (if fresh then [Acq sock] else [])" "fresh \<or> before = [] \<and> sock = sock0"
  shows "in_sync sock0 req sock resp (before @ after)"
  using assms unfolding in_sync_def by blast

lemma roundtrip_step:
  assumes "vtest_roundtrip k req (Suc n) sock t = Some ((s, r), t', tr)"
  shows "(\<exists>resp. r = Some resp \<and> in_sync sock req s resp tr \<and> run_ev (holds sock) (fds tr) = Some (holds s)) \<or>
    (r = None \<and> s < 0 \<and> run_ev (holds sock) (fds tr) = Some {#}) \<or>
    (\<exists>t1 tr1 tr2. vtest_roundtrip k req n (-1) t1 = Some ((s, r), t', tr2) \<and> tr = tr1 @ tr2 \<and>
       run_ev (holds sock) (fds tr1) = Some {#})"
proof -
  obtain c t1 tr1 rest where c: "(if sock < 0 then vtest_connect k else ret sock) t = Some (c, t1, tr1)"
    "(if c < 0 then ret (c, None) else andthen (sock_write_all k c req) (\<lambda>w.
      andthen (if w then sock_read_all k c 36 else ret None) (\<lambda>r.
      case r of Some resp \<Rightarrow> ret (c, Some resp)
      | None \<Rightarrow> andthen (sock_close c) (\<lambda>_. vtest_roundtrip k req n (-1))))) t1 = Some ((s, r), t', rest)"
    "tr = tr1 @ rest"
    using assms unfolding vtest_roundtrip.simps andthen_iff by blast
  have conn: "run_ev (holds sock) (fds tr1) = Some (holds c)"
    using c(1) connect_fds [of k t c t1 tr1 "{#}"] by (cases "sock < 0") (auto simp: holds_def)
  have fresh: "0 \<le> c \<Longrightarrow> got tr1 = [] \<and> ((fds tr1 = [Acq c] \<and> sent tr1 = handshake) \<or> (tr1 = [] \<and> sock = c))"
    using c(1) connect_cases [of k t c t1 tr1] by (cases "sock < 0") auto
  show ?thesis
  proof (cases "c < 0")
    case True
    then show ?thesis using c conn by (auto simp: holds_def)
  next
    case False
    then obtain w t2 trw rest2 where w: "sock_write_all k c req t1 = Some (w, t2, trw)" "rest = trw @ rest2"
      "andthen (if w then sock_read_all k c 36 else ret None) (\<lambda>r. case r of Some resp \<Rightarrow> ret (c, Some resp)
        | None \<Rightarrow> andthen (sock_close c) (\<lambda>_. vtest_roundtrip k req n (-1))) t2 = Some ((s, r), t', rest2)"
      using c(2) by (auto simp: andthen_iff)
    then obtain q t3 trr rest3 where q: "(if w then sock_read_all k c 36 else ret None) t2 = Some (q, t3, trr)"
      "rest2 = trr @ rest3" "(case q of Some resp \<Rightarrow> ret (c, Some resp)
        | None \<Rightarrow> andthen (sock_close c) (\<lambda>_. vtest_roundtrip k req n (-1))) t3 = Some ((s, r), t', rest3)"
      unfolding andthen_iff by blast
    have frw: "fds trw = []" "got trw = []" using write_frame [OF w(1)] by auto
    have frr: "fds trr = []" "sent trr = []" using q(1) read_frame [of k c 36 t2 q t3 trr] by (auto split: if_splits)
    show ?thesis
    proof (cases q)
      case None
      then obtain t4 tr4 where "vtest_roundtrip k req n (-1) t4 = Some ((s, r), t', tr4)" "rest3 = Close c # tr4"
        using q(3) by (auto simp: andthen_iff)
      moreover have "run_ev (holds sock) (fds (tr1 @ trw @ trr @ [Close c])) = Some {#}"
        using conn False frw frr by (simp add: run_ev_append holds_def)
      moreover have "tr = (tr1 @ trw @ trr @ [Close c]) @ tr4" using calculation(2) c(3) w(2) q(2) by simp
      ultimately show ?thesis by blast
    next
      case (Some resp)
      then have ww: w using q(1) by (auto split: if_splits)
      then have "got trr = resp" "length resp = 36" using q(1) Some read_got by auto
      moreover have "sent trw = req" using w(1) ww write_sent by simp
      moreover have "s = c" "r = Some resp" "rest3 = []" using q(3) Some by auto
      moreover have "in_sync sock req c resp (tr1 @ trw @ trr)" if "got trr = resp" "length resp = 36" "sent trw = req"
        by (rule in_syncI [where before = "[]" and fresh = "tr1 \<noteq> []", simplified])
          (use fresh False that frw frr in auto)
      ultimately show ?thesis using c(3) w(2) q(2) conn frw frr by (simp add: run_ev_append)
    qed
  qed
qed

lemma in_sync_later: "in_sync (-1) req s resp tr2 \<Longrightarrow> in_sync sock req s resp (tr1 @ tr2)"
proof -
  assume "in_sync (-1) req s resp tr2"
  then obtain before after fresh where s: "0 \<le> s" "length resp = 36" "tr2 = before @ after" "got after = resp"
    "sent after = (if fresh then handshake else []) @ req" "fds after = (if fresh then [Acq s] else [])"
    "fresh \<or> before = [] \<and> s = -1" unfolding in_sync_def by blast
  then have fresh by auto
  then show ?thesis using in_syncI [OF s(1,2,4,5,6), of "tr1 @ before" sock] s(3) by simp
qed

lemma roundtrip_spec:
  "n \<noteq> 0 \<Longrightarrow> vtest_roundtrip k req n sock t = Some ((s, r), t', tr) \<Longrightarrow>
   run_ev (holds sock) (fds tr) = Some (holds s) \<and>
   (case r of None \<Rightarrow> s < 0 | Some resp \<Rightarrow> in_sync sock req s resp tr)"
proof (induction n arbitrary: sock t tr)
  case (Suc n)
  from roundtrip_step [OF Suc.prems(2)] show ?case
  proof (elim disjE exE conjE)
    fix t1 tr1 tr2
    assume a: "vtest_roundtrip k req n (-1) t1 = Some ((s, r), t', tr2)" "tr = tr1 @ tr2"
      "run_ev (holds sock) (fds tr1) = Some {#}"
    show ?thesis
    proof (cases "n = 0")
      case True
      then show ?thesis using a by (auto simp: holds_def)
    next
      case False
      have "run_ev (holds (-1)) (fds tr2) = Some (holds s) \<and>
        (case r of None \<Rightarrow> s < 0 | Some resp \<Rightarrow> in_sync (-1) req s resp tr2)"
        by (rule Suc.IH [OF False a(1)])
      then show ?thesis using a(2,3) in_sync_later
        by (auto simp: run_ev_append holds_def split: option.splits)
    qed
  qed (auto simp: holds_def)
qed simp

text \<open>What one allocation leaves, on every path.\<close>

definition alloc_outcome :: "alloc_args \<Rightarrow> int \<Rightarrow> int \<times> alloc_out option \<times> int \<Rightarrow> io list \<Rightarrow> bool" where
  "alloc_outcome a sock = (\<lambda>(r, out, s) tr.
    (r \<in> {- ENODEV, - EPROTO, - EIO} \<and> out = None \<and> s < 0 \<and> run_ev (holds sock) (fds tr) = Some {#}) \<or>
    (\<exists>resp tr0. in_sync sock (vtest_request a) s resp tr0 \<and> run_ev (holds sock) (fds tr0) = Some (holds s) \<and>
       resp_word resp 0 = VCMD_RESOURCE_ALLOC_GPU_RESP_SIZE \<and> resp_word resp 1 = VCMD_RESOURCE_ALLOC_GPU \<and>
       (resp_word resp 2 \<noteq> 0 \<and> r = neg_status (resp_word resp 2) \<and> out = None \<and> tr = tr0 \<or>
        resp_word resp 2 = 0 \<and> r = 0 \<and>
          (\<exists>fd \<ge> 0. tr = tr0 @ [Open fd] \<and> out = Some (alloc_result resp fd)))))"

lemma response_spec:
  assumes "vtest_response k s0 resp t = Some (x, t', tr)" "lawful k"
    "in_sync sock (vtest_request a) s0 resp tr0" "run_ev (holds sock) (fds tr0) = Some (holds s0)"
  shows "alloc_outcome a sock x (tr0 @ tr)"
proof -
  have own: "run_ev (holds sock) (fds tr0) = Some {#s0#}" "0 \<le> s0" using assms(3,4) by (auto simp: in_sync_def holds_def)
  consider (proto) "resp_word resp 0 \<noteq> VCMD_RESOURCE_ALLOC_GPU_RESP_SIZE \<or> resp_word resp 1 \<noteq> VCMD_RESOURCE_ALLOC_GPU"
    | (status) "resp_word resp 0 = VCMD_RESOURCE_ALLOC_GPU_RESP_SIZE" "resp_word resp 1 = VCMD_RESOURCE_ALLOC_GPU" "resp_word resp 2 \<noteq> 0"
    | (fd) "resp_word resp 0 = VCMD_RESOURCE_ALLOC_GPU_RESP_SIZE" "resp_word resp 1 = VCMD_RESOURCE_ALLOC_GPU" "resp_word resp 2 = 0"
    by blast
  then show ?thesis
  proof cases
    case proto
    then show ?thesis using assms(1) own by (auto simp: vtest_response_def alloc_outcome_def andthen_iff run_ev_append)
  next
    case status
    then have "x = (neg_status (resp_word resp 2), None, s0)" "tr = []" using assms(1) by (auto simp: vtest_response_def)
    then show ?thesis using assms(3,4) status unfolding alloc_outcome_def by auto
  next
    case fd
    then obtain f t2 tr3 tr4 where f: "sock_recv_fd k s0 t = Some (f, t2, tr3)" "tr = tr3 @ tr4"
      "(if f < 0 then andthen (sock_close s0) (\<lambda>_. ret (- EIO, None, -1)) else ret (0, Some (alloc_result resp f), s0)) t2 =
        Some (x, t', tr4)"
      using assms(1) by (auto simp: vtest_response_def andthen_iff)
    show ?thesis
    proof (cases "f < 0")
      case True
      then show ?thesis using f own recv_fds [OF assms(2) f(1), of "{#s0#}"]
        by (auto simp: alloc_outcome_def andthen_iff run_ev_append)
    next
      case False
      then have "tr = [Open f]" "x = (0, Some (alloc_result resp f), s0)" "0 \<le> f"
        using recv_fd_cases [OF f(1) assms(2)] f(2,3) by auto
      then show ?thesis using assms(3,4) fd unfolding alloc_outcome_def by auto
    qed
  qed
qed

lemma alloc_spec:
  assumes "vtest_alloc k a sock t = Some (x, t', tr)" "lawful k"
  shows "alloc_outcome a sock x tr"
proof -
  obtain s0 q t1 tr1 tr2 where rt: "vtest_roundtrip k (vtest_request a) 2 sock t = Some ((s0, q), t1, tr1)" "tr = tr1 @ tr2"
    "(case q of None \<Rightarrow> ret (- ENODEV, None, s0) | Some resp \<Rightarrow> vtest_response k s0 resp) t1 = Some (x, t', tr2)"
    using assms(1) by (auto simp: vtest_alloc_def andthen_iff)
  note sp = roundtrip_spec [OF _ rt(1), simplified]
  show ?thesis
  proof (cases q)
    case None
    then show ?thesis using sp rt by (auto simp: alloc_outcome_def holds_def)
  next
    case (Some resp)
    then show ?thesis using response_spec [of k s0 resp t1 x t' tr2 sock a tr1] sp rt assms(2) by simp
  qed
qed

section \<open>Sessions\<close>

lemma alloc_fds:
  assumes "vtest_alloc k a sock t = Some ((r, out, s), t', tr)" "lawful k"
  shows "run_ev (K + holds sock) (fds tr) = Some (K + holds s + (case out of None \<Rightarrow> {#} | Some o1 \<Rightarrow> {#out_fd o1#}))"
proof -
  have "run_ev (holds sock) (fds tr) = Some (holds s + (case out of None \<Rightarrow> {#} | Some o1 \<Rightarrow> {#out_fd o1#}))"
    using alloc_spec [OF assms] by (auto simp: alloc_outcome_def holds_def [of s] run_ev_append alloc_result_def)
  from run_ev_frame [OF this] show ?thesis by (simp add: add.assoc)
qed

lemma allocs_fds:
  "vtest_allocs k as sock t = Some ((outs, s), t', tr) \<Longrightarrow> lawful k \<Longrightarrow>
   run_ev (K + holds sock) (fds tr) = Some (K + holds s + mset (map out_fd outs))"
proof (induction as arbitrary: K sock t outs tr)
  case (Cons a as)
  obtain r out s1 t1 tr1 outs' tr2 where
    a: "vtest_alloc k a sock t = Some ((r, out, s1), t1, tr1)"
    "vtest_allocs k as s1 t1 = Some ((outs', s), t', tr2)"
    "outs = (case out of None \<Rightarrow> outs' | Some o1 \<Rightarrow> o1 # outs')" "tr = tr1 @ tr2"
    using Cons.prems(1) by (auto simp: andthen_iff)
  define N where "N = K + (case out of None \<Rightarrow> {#} | Some o1 \<Rightarrow> {#out_fd o1#})"
  have "run_ev (K + holds sock) (fds tr1) = Some (N + holds s1)"
    using alloc_fds [OF a(1) Cons.prems(2), of K] by (simp add: N_def ac_simps)
  moreover have "run_ev (N + holds s1) (fds tr2) = Some (N + holds s + mset (map out_fd outs'))"
    by (rule Cons.IH [OF a(2) Cons.prems(2)])
  moreover have "N + holds s + mset (map out_fd outs') = K + holds s + mset (map out_fd outs)"
    by (cases out) (simp_all add: N_def a(3))
  ultimately show ?case by (simp add: a(4) run_ev_append)
qed simp

subsection \<open>Every call returns\<close>

lemma recv_fd_returns:
  assumes "lively k"
  shows "sock_recv_fd k fd t \<noteq> None"
proof -
  obtain m t' where "recvmsg_retry k t = Some (m, t')" using recvmsg_returns [OF assms, of t] by auto
  then show ?thesis by (cases m) (auto simp: sock_recv_fd_def split: prod.splits)
qed

lemma plumbing_returns [returns_intros]:
  assumes "lively k"
  shows "returns (sock_write_all k fd buf)" "returns (sock_read_all k fd len)" "returns (sock_recv_fd k fd)"
  unfolding returns_def using write_all_returns [OF assms] read_all_returns [OF assms] recv_fd_returns [OF assms] by blast+

lemma returns_obtain:
  assumes "returns m"
  obtains a t' tr where "m t = Some (a, t', tr)"
proof -
  obtain x where "m t = Some x" using assms unfolding returns_def by blast
  then show ?thesis using that by (cases x) auto
qed

lemma connect_returns: "lively k \<Longrightarrow> returns (vtest_connect k)"
  unfolding vtest_connect_def send_hello_def connect_fail_def by (intro returns_intros)

lemma roundtrip_returns: "lively k \<Longrightarrow> returns (vtest_roundtrip k req n sock)"
proof (induction n arbitrary: sock)
  case (Suc n)
  have "returns (case r of Some resp \<Rightarrow> ret (s, Some resp)
    | None \<Rightarrow> andthen (sock_close s) (\<lambda>_. vtest_roundtrip k req n (-1)))" for r s
    using Suc by (cases r) (auto intro!: returns_intros)
  then show ?case using Suc.prems connect_returns by (auto intro!: returns_intros)
qed (simp add: returns_basic)

lemma alloc_returns:
  assumes "lively k"
  shows "returns (vtest_alloc k a sock)"
proof -
  have "returns (vtest_response k s resp)" for s resp
    unfolding vtest_response_def using assms by (intro returns_intros)
  then have "returns (case x of (s, r) \<Rightarrow> case r of None \<Rightarrow> ret (- ENODEV, None, s) | Some resp \<Rightarrow> vtest_response k s resp)" for x
    by (cases x; cases "snd x") (auto intro: returns_intros)
  then show ?thesis unfolding vtest_alloc_def using roundtrip_returns [OF assms] by (intro returns_andthen)
qed

lemma allocs_returns: "lively k \<Longrightarrow> returns (vtest_allocs k as sock)"
proof (induction as arbitrary: sock)
  case (Cons a as)
  show ?case unfolding vtest_allocs.simps
    using Cons alloc_returns [OF Cons.prems] by (intro returns_andthen) (auto intro!: returns_intros split: prod.splits)
qed (simp add: returns_basic)

section \<open>Words on the wire\<close>

lemma of_le32_le32: "of_le32 (le32 w) = w"
proof (rule bit_word_eqI)
  fix n assume "n < LENGTH(32)"
  then consider "n < 8" | "8 \<le> n" "n < 16" | "16 \<le> n" "n < 24" | "24 \<le> n" "n < 32" by fastforce
  then show "bit (of_le32 (le32 w)) n \<longleftrightarrow> bit w n"
    by cases (auto simp: le32_def bit_simps)
qed

lemma length_le32 [simp]: "length (le32 w) = 4"
  by (simp add: le32_def)

lemma take_drop_le32: "i < length ws \<Longrightarrow> take 4 (drop (4 * i) (concat (map le32 ws))) = le32 (ws ! i)"
proof (induction ws arbitrary: i)
  case (Cons w ws)
  then show ?case by (cases i) simp_all
qed simp

lemma resp_word_nth: "i < length ws \<Longrightarrow> resp_word (concat (map le32 ws)) i = ws ! i"
  by (simp only: resp_word_def take_drop_le32 of_le32_le32)

section \<open>A concrete kernel\<close>

definition demo_resp :: "u8 list" where
  "demo_resp = concat (map le32 [7, 41, 0, 7680, 7680, 0x10, 0x03000000, 0, 0])"

definition demo_sys :: sys where
  "demo_sys = \<lparr>k_socket = (\<lambda>_. 5), k_connect = (\<lambda>_. True), k_setsockopt = (\<lambda>_. True),
     k_send = (\<lambda>t. if t = 4 then SendIntr else if t = 5 then Sends 3 else Sends 100),
     k_read = (\<lambda>t. Reads demo_resp),
     k_recvmsg = (\<lambda>_. Msg [\<lparr>cm_rights = True, cm_long = True, cm_fds = [9]\<rparr>] False)\<rparr>"

definition demo_args :: alloc_args where
  "demo_args = \<lparr>a_width = 1920, a_height = 1080, a_format = FMT_ABGR8888, a_scanout = False,
     a_force_linear = False, a_needs_map_stride = False\<rparr>"

lemma demo_lawful: "lawful demo_sys"
  by (simp add: lawful_def demo_sys_def msg_fds_def)

lemma demo_lively: "lively demo_sys"
proof -
  have "k_send demo_sys (t + 6) \<noteq> SendIntr" "k_read demo_sys t \<noteq> ReadIntr" "k_recvmsg demo_sys t \<noteq> MsgIntr" for t
    by (simp_all add: demo_sys_def)
  then show ?thesis unfolding lively_def by (meson le_add1 order_refl)
qed

section \<open>Properties\<close>

text \<open>
  C7. One allocation request, whatever the kernel and the server do. Either the connection is gone
  (the result is ENODEV, EPROTO or EIO, every socket opened or held is closed, every descriptor
  received is closed, and the next request reconnects); or the connection is kept and in step: on
  it exactly the handshake (if it is new) and this request were sent and exactly one 36-byte
  response was read, and the result is the host's status, or success with exactly one descriptor
  and the stride and modifier of the response.
\<close>

theorem vtest_alloc_outcomes:
  assumes "lawful k" "vtest_alloc k a sock t = Some (x, t', tr)"
  shows "alloc_outcome a sock x tr"
  by (rule alloc_spec [OF assms(2,1)])

theorem vtest_alloc_outcomes_witness:
  "\<exists>t' tr. vtest_alloc demo_sys demo_args (-1) 0 = Some ((0, Some (alloc_result demo_resp 9), 5), t', tr) \<and>
     alloc_outcome demo_args (-1) (0, Some (alloc_result demo_resp 9), 5) tr"
proof -
  have "map_option fst (vtest_alloc demo_sys demo_args (-1) 0) = Some (0, Some (alloc_result demo_resp 9), 5)"
    by code_simp
  then obtain t' tr where "vtest_alloc demo_sys demo_args (-1) 0 = Some ((0, Some (alloc_result demo_resp 9), 5), t', tr)"
    by auto
  then show ?thesis using vtest_alloc_outcomes [OF demo_lawful] by blast
qed

text \<open>
  C9. A device's whole life returns as long as interrupts do not go on forever, and then every
  socket and every descriptor it ever held is closed exactly once, except the buffers it handed
  out, whatever the kernel and the server do.
\<close>

theorem vtest_session_balanced:
  assumes "lawful k" "lively k"
  shows "\<exists>outs t' tr. vtest_session k c as t = Some (outs, t', tr) \<and> run_ev {#} (fds tr) = Some (mset (map out_fd outs))"
proof -
  obtain outs s t1 tr1 where a: "vtest_allocs k as (-1) t = Some ((outs, s), t1, tr1)"
    using returns_obtain [OF allocs_returns [OF assms(2)]] by (metis surj_pair)
  have own: "run_ev {#} (fds tr1) = Some (holds s + mset (map out_fd outs))"
    using allocs_fds [OF a assms(1), of "{#}"] by (simp add: holds_def)
  show ?thesis
  proof (cases "c \<and> s \<ge> 0")
    case False
    then consider "\<not> c" | "c" "s < 0" by linarith
    then show ?thesis
    proof cases
      case 1
      then show ?thesis by (simp add: vtest_session_def vtest_dev_create_def ret_def fds_def)
    next
      case 2
      then have "vtest_session k c as t = Some (outs, t1, tr1)"
        using a by (simp add: vtest_session_def vtest_dev_create_def andthen_def vtest_dev_destroy_def ret_def)
      then show ?thesis using own 2 by (simp add: holds_def)
    qed
  next
    case True
    then have "vtest_session k c as t = Some (outs, Suc t1, tr1 @ [Close s])"
      using a by (simp add: vtest_session_def vtest_dev_create_def andthen_def vtest_dev_destroy_def sock_close_def tick_def ret_def)
    then show ?thesis using own True by (simp add: holds_def run_ev_append)
  qed
qed

theorem vtest_session_balanced_witness:
  "\<exists>outs t' tr. vtest_session demo_sys True [demo_args, demo_args] 0 = Some (outs, t', tr) \<and>
     run_ev {#} (fds tr) = Some (mset (map out_fd outs))"
  by (rule vtest_session_balanced [OF demo_lawful demo_lively])


end
