(* ===== verification/Vtest_Buffers.thy ===== *)
theory Vtest_Buffers
  imports Nv_Prelude
begin

text \<open>
  The mapper half of src/minigbm-vtest/vtest_wrapper.c: a buffer object duplicates the descriptor
  it imports, maps it at most once, keeps the mapping until it is freed. The answers of calloc,
  lseek, fcntl and mmap are arguments; the heap object, the descriptor and the mapping are the
  resources of the trace.
\<close>

datatype bo_res = BoMem | BoFd int | BoMap handle

record vtest_bo =
  b_fd :: int
  b_size :: u64
  b_map :: "handle option"

record import_env =
  i_calloc :: bool
  i_lseek :: int
  i_dup :: int

definition vtest_import :: "import_env \<Rightarrow> bo_res ev list \<times> (unit + vtest_bo)" where
  "vtest_import k =
    (if \<not> i_calloc k then ([], Inl ())
     else if i_lseek k \<le> 0 then ([Acq BoMem, Rel BoMem], Inl ())
     else if i_dup k < 0 then ([Acq BoMem, Rel BoMem], Inl ())
     else ([Acq BoMem, Acq (BoFd (i_dup k))],
           Inr \<lparr>b_fd = i_dup k, b_size = of_int (i_lseek k), b_map = None\<rparr>))"

definition vtest_free :: "vtest_bo \<Rightarrow> bo_res ev list" where
  "vtest_free bo = (case b_map bo of None \<Rightarrow> [] | Some p \<Rightarrow> [Rel (BoMap p)]) @ [Rel (BoFd (b_fd bo)), Rel BoMem]"

text \<open>\<open>mmap\<close> answers the address or MAP_FAILED; the result is what \<open>addr\<close> and \<open>map_data\<close> become.\<close>

definition vtest_map :: "handle option \<Rightarrow> vtest_bo \<Rightarrow> bo_res ev list \<times> handle option \<times> vtest_bo" where
  "vtest_map mmap bo =
    (case b_map bo of
       Some p \<Rightarrow> ([], Some p, bo)
     | None \<Rightarrow> (case mmap of
                  None \<Rightarrow> ([], None, bo)
                | Some p \<Rightarrow> ([Acq (BoMap p)], Some p, bo\<lparr>b_map := Some p\<rparr>)))"

definition vtest_unmap :: "vtest_bo \<Rightarrow> bo_res ev list \<times> vtest_bo" where
  "vtest_unmap bo = ([], bo)"

datatype bo_op = BoMapOp "handle option" | BoUnmapOp

fun bo_run :: "vtest_bo \<Rightarrow> bo_op list \<Rightarrow> bo_res ev list \<times> handle option list \<times> vtest_bo" where
  "bo_run bo [] = ([], [], bo)"
| "bo_run bo (BoMapOp m # xs) =
    (let (tr, r, bo1) = vtest_map m bo; (tr', rs, bo2) = bo_run bo1 xs in (tr @ tr', r # rs, bo2))"
| "bo_run bo (BoUnmapOp # xs) =
    (let (tr, bo1) = vtest_unmap bo; (tr', rs, bo2) = bo_run bo1 xs in (tr @ tr', rs, bo2))"

definition bo_holds :: "vtest_bo \<Rightarrow> bo_res multiset" where
  "bo_holds bo = {#BoMem, BoFd (b_fd bo)#} + (case b_map bo of None \<Rightarrow> {#} | Some p \<Rightarrow> {#BoMap p#})"

interpretation vimport: owned_op vtest_import "\<lambda>_. True" bo_holds
  by unfold_locales (auto simp: vtest_import_def bo_holds_def split: if_splits)

lemma map_holds: "vtest_map m bo = (tr, r, bo') \<Longrightarrow> run_ev (bo_holds bo) tr = Some (bo_holds bo') \<and>
    (b_map bo \<noteq> None \<longrightarrow> bo' = bo \<and> r = b_map bo) \<and> (r \<noteq> None \<longrightarrow> b_map bo' = r)"
  by (auto simp: vtest_map_def bo_holds_def split: option.splits)

lemma bo_run_map:
  assumes "bo_run bo (BoMapOp m # xs) = (tr, rs, bo')"
  obtains tr1 r bo1 tr2 rs2 where "vtest_map m bo = (tr1, r, bo1)" "bo_run bo1 xs = (tr2, rs2, bo')"
    "tr = tr1 @ tr2" "rs = r # rs2"
  using assms by (auto split: prod.splits)

lemma bo_run_unmap: "bo_run bo (BoUnmapOp # xs) = bo_run bo xs"
  by (simp add: vtest_unmap_def split: prod.splits)

lemma bo_run_holds: "bo_run bo xs = (tr, rs, bo') \<Longrightarrow> run_ev (bo_holds bo) tr = Some (bo_holds bo')"
proof (induction xs arbitrary: bo tr rs)
  case (Cons x xs)
  show ?case
  proof (cases x)
    case (BoMapOp m)
    with Cons.prems obtain tr1 r bo1 tr2 rs2 where "vtest_map m bo = (tr1, r, bo1)"
      "bo_run bo1 xs = (tr2, rs2, bo')" "tr = tr1 @ tr2" using bo_run_map by metis
    then show ?thesis using Cons.IH map_holds [of m bo tr1 r bo1] by (simp add: run_ev_append)
  next
    case BoUnmapOp
    then show ?thesis using Cons.IH Cons.prems by (simp only: bo_run_unmap)
  qed
qed simp

lemma bo_run_mapped: "bo_run bo xs = (tr, rs, bo') \<Longrightarrow> b_map bo = Some p \<Longrightarrow>
    tr = [] \<and> bo' = bo \<and> set rs \<subseteq> {Some p}"
proof (induction xs arbitrary: bo tr rs)
  case (Cons x xs)
  show ?case
  proof (cases x)
    case (BoMapOp m)
    with Cons.prems obtain tr1 r bo1 tr2 rs2 where m: "vtest_map m bo = (tr1, r, bo1)"
      "bo_run bo1 xs = (tr2, rs2, bo')" "tr = tr1 @ tr2" "rs = r # rs2" using bo_run_map by metis
    moreover have "tr1 = []" "r = Some p" "bo1 = bo" using m(1) Cons.prems(2) by (auto simp: vtest_map_def)
    ultimately show ?thesis using Cons.IH [of bo tr2 rs2] Cons.prems(2) by simp
  next
    case BoUnmapOp
    then show ?thesis using Cons.IH Cons.prems by (simp only: bo_run_unmap)
  qed
qed simp

lemma bo_run_same: "bo_run bo xs = (tr, rs, bo') \<Longrightarrow> b_map bo = None \<Longrightarrow> set rs \<subseteq> {None, b_map bo'}"
proof (induction xs arbitrary: bo tr rs)
  case (Cons x xs)
  show ?case
  proof (cases x)
    case (BoMapOp m)
    with Cons.prems obtain tr1 r bo1 tr2 rs2 where m: "vtest_map m bo = (tr1, r, bo1)"
      "bo_run bo1 xs = (tr2, rs2, bo')" "rs = r # rs2" using bo_run_map by metis
    show ?thesis
    proof (cases m)
      case None
      then have "r = None" "bo1 = bo" using m(1) Cons.prems(2) by (auto simp: vtest_map_def)
      then show ?thesis using m Cons.IH [of bo tr2 rs2] Cons.prems(2) by simp
    next
      case (Some p)
      then have r: "r = Some p" "b_map bo1 = Some p" using m(1) Cons.prems(2) by (auto simp: vtest_map_def)
      then show ?thesis using m bo_run_mapped [OF m(2) r(2)] by auto
    qed
  next
    case BoUnmapOp
    then show ?thesis using Cons.IH Cons.prems by (simp only: bo_run_unmap)
  qed
qed simp

section \<open>Properties\<close>

text \<open>
  C25. The life of an imported buffer: whatever is mapped and unmapped and however often mmap fails,
  all successful maps answer the same address, and freeing the buffer releases the descriptor, the
  mapping and the memory, each exactly once; a failed import holds nothing.
\<close>

theorem vtest_bo_lifecycle:
  "case vtest_import k of
     (tr0, Inl _) \<Rightarrow> run_ev {#} tr0 = Some {#}
   | (tr0, Inr bo) \<Rightarrow>
       (case bo_run bo xs of
          (tr1, rs, bo') \<Rightarrow> run_ev {#} (tr0 @ tr1 @ vtest_free bo') = Some {#} \<and>
            (\<exists>p. set rs \<subseteq> {None, Some p}))"
proof (cases "vtest_import k")
  case (Pair tr0 res)
  note imp = vimport.op_clean [OF TrueI Pair]
  show ?thesis
  proof (cases res)
    case (Inl u)
    then show ?thesis using Pair imp by simp
  next
    case (Inr bo)
    obtain tr1 rs bo' where run: "bo_run bo xs = (tr1, rs, bo')" by (cases "bo_run bo xs")
    have "b_map bo = None" using Pair Inr by (auto simp: vtest_import_def split: if_splits)
    then have "\<exists>p. set rs \<subseteq> {None, Some p}" using bo_run_same [OF run] by (cases "b_map bo'") auto
    moreover have "run_ev (bo_holds bo') (vtest_free bo') = Some {#}"
      by (auto simp: vtest_free_def bo_holds_def split: option.splits)
    ultimately show ?thesis using Pair Inr imp run bo_run_holds [OF run] by (simp add: run_ev_append)
  qed
qed

end
