(* ===== verification/Vtest_Alloc.thy ===== *)
theory Vtest_Alloc
  imports Nv_Prelude
begin

text \<open>
  The host side of the vtest allocator, src/virglrenderer-vtest/vtest_gpu_alloc.c: lazy creation of
  the Vulkan device, the modifier cache, image allocation with export, and the udmabuf path for
  buffers the CPU maps. The Vulkan loader, the driver and the kernel answer through the records
  \<open>vk_host\<close>, \<open>img_driver\<close> and \<open>cpu_env\<close>. A call through a function pointer that is NULL has no
  result (None).
\<close>

section \<open>Formats\<close>

definition DRM_FOURCC :: "char \<Rightarrow> char \<Rightarrow> char \<Rightarrow> char \<Rightarrow> u32" where
  "DRM_FOURCC a b c d = of_char a OR push_bit 8 (of_char b) OR push_bit 16 (of_char c) OR push_bit 24 (of_char d)"

definition ALLOC_DRM_FORMAT_R8 :: u32 where
  "ALLOC_DRM_FORMAT_R8 = DRM_FOURCC CHR ''R'' CHR ''8'' CHR '' '' CHR '' ''"
definition ALLOC_DRM_FORMAT_RGB565 :: u32 where
  "ALLOC_DRM_FORMAT_RGB565 = DRM_FOURCC CHR ''R'' CHR ''G'' CHR ''1'' CHR ''6''"
definition ALLOC_DRM_FORMAT_XRGB8888 :: u32 where
  "ALLOC_DRM_FORMAT_XRGB8888 = DRM_FOURCC CHR ''X'' CHR ''R'' CHR ''2'' CHR ''4''"
definition ALLOC_DRM_FORMAT_ARGB8888 :: u32 where
  "ALLOC_DRM_FORMAT_ARGB8888 = DRM_FOURCC CHR ''A'' CHR ''R'' CHR ''2'' CHR ''4''"
definition ALLOC_DRM_FORMAT_XBGR8888 :: u32 where
  "ALLOC_DRM_FORMAT_XBGR8888 = DRM_FOURCC CHR ''X'' CHR ''B'' CHR ''2'' CHR ''4''"
definition ALLOC_DRM_FORMAT_ABGR8888 :: u32 where
  "ALLOC_DRM_FORMAT_ABGR8888 = DRM_FOURCC CHR ''A'' CHR ''B'' CHR ''2'' CHR ''4''"
definition ALLOC_DRM_FORMAT_ABGR2101010 :: u32 where
  "ALLOC_DRM_FORMAT_ABGR2101010 = DRM_FOURCC CHR ''A'' CHR ''B'' CHR ''3'' CHR ''0''"
definition ALLOC_DRM_FORMAT_ABGR16161616F :: u32 where
  "ALLOC_DRM_FORMAT_ABGR16161616F = DRM_FOURCC CHR ''A'' CHR ''B'' CHR ''4'' CHR ''H''"
definition ALLOC_DRM_FORMAT_NV12 :: u32 where
  "ALLOC_DRM_FORMAT_NV12 = DRM_FOURCC CHR ''N'' CHR ''V'' CHR ''1'' CHR ''2''"

lemmas alloc_formats = ALLOC_DRM_FORMAT_R8_def ALLOC_DRM_FORMAT_RGB565_def ALLOC_DRM_FORMAT_XRGB8888_def
  ALLOC_DRM_FORMAT_ARGB8888_def ALLOC_DRM_FORMAT_XBGR8888_def ALLOC_DRM_FORMAT_ABGR8888_def
  ALLOC_DRM_FORMAT_ABGR2101010_def ALLOC_DRM_FORMAT_ABGR16161616F_def ALLOC_DRM_FORMAT_NV12_def

datatype vk_format = VK_FORMAT_UNDEFINED | VK_FORMAT_R8_UNORM | VK_FORMAT_R5G6B5_UNORM_PACK16
  | VK_FORMAT_B8G8R8A8_UNORM | VK_FORMAT_R8G8B8A8_UNORM | VK_FORMAT_A2B10G10R10_UNORM_PACK32
  | VK_FORMAT_R16G16B16A16_SFLOAT

definition drm_format_to_vk :: "u32 \<Rightarrow> vk_format" where
  "drm_format_to_vk f =
    (if f = ALLOC_DRM_FORMAT_R8 then VK_FORMAT_R8_UNORM
     else if f = ALLOC_DRM_FORMAT_RGB565 then VK_FORMAT_R5G6B5_UNORM_PACK16
     else if f = ALLOC_DRM_FORMAT_XRGB8888 \<or> f = ALLOC_DRM_FORMAT_ARGB8888 then VK_FORMAT_B8G8R8A8_UNORM
     else if f = ALLOC_DRM_FORMAT_XBGR8888 \<or> f = ALLOC_DRM_FORMAT_ABGR8888 then VK_FORMAT_R8G8B8A8_UNORM
     else if f = ALLOC_DRM_FORMAT_ABGR2101010 then VK_FORMAT_A2B10G10R10_UNORM_PACK32
     else if f = ALLOC_DRM_FORMAT_ABGR16161616F then VK_FORMAT_R16G16B16A16_SFLOAT
     else VK_FORMAT_UNDEFINED)"

definition drm_format_bpp :: "u32 \<Rightarrow> u32" where
  "drm_format_bpp f =
    (if f = ALLOC_DRM_FORMAT_R8 then 1
     else if f = ALLOC_DRM_FORMAT_RGB565 then 2
     else if f = ALLOC_DRM_FORMAT_ABGR16161616F then 8
     else 4)"

section \<open>Device creation\<close>

record phys_dev =
  pd_handle :: handle
  pd_discrete :: bool
  pd_name :: string
  pd_exts :: "string list"
  pd_mem_types :: "u32 list"

text \<open>Whether the three pointers that are tested after the device is made are not NULL.\<close>

record dev_procs =
  GetMemoryFdKHR :: bool
  GetPhysicalDeviceFormatProperties2 :: bool
  GetImageDrmFormatModifierPropertiesEXT :: bool

record alloc_vk =
  vk_lib :: bool
  vk_get_proc :: bool
  vk_instance :: bool
  vk_physical_device :: "handle option"
  vk_device :: bool
  vk_mem_props :: "u32 list"
  vk_modifier_cache :: "(vk_format \<times> u64 list) list"
  vk_procs :: dev_procs
  alloc_vk_failed :: bool

definition alloc_vk_zero :: alloc_vk where
  "alloc_vk_zero = \<lparr>vk_lib = False, vk_get_proc = False, vk_instance = False, vk_physical_device = None,
     vk_device = False, vk_mem_props = [], vk_modifier_cache = [],
     vk_procs = \<lparr>GetMemoryFdKHR = False, GetPhysicalDeviceFormatProperties2 = False,
       GetImageDrmFormatModifierPropertiesEXT = False\<rparr>, alloc_vk_failed = False\<rparr>"

record vk_host =
  h_dlopen :: bool
  h_dlsym :: bool
  h_has_create :: bool
  h_create_instance :: vk_result
  h_enumerate :: vk_result
  h_devices :: "phys_dev list"
  h_want :: "string option"
  h_create_device :: "handle \<Rightarrow> vk_result"
  h_procs :: "handle \<Rightarrow> dev_procs"

definition has_prefix :: "string \<Rightarrow> string \<Rightarrow> bool" where
  "has_prefix p s \<longleftrightarrow> take (length p) s = p"

fun strstr :: "string \<Rightarrow> string \<Rightarrow> bool" where
  "strstr [] w = (w = [])"
| "strstr (c # s) w = (has_prefix w (c # s) \<or> strstr s w)"

text \<open>The filter and the score of the device loop.\<close>

definition usable_device :: "phys_dev \<Rightarrow> bool" where
  "usable_device d \<longleftrightarrow> ''VK_EXT_external_memory_dma_buf'' \<in> set (pd_exts d) \<and>
     ''VK_EXT_image_drm_format_modifier'' \<in> set (pd_exts d)"

definition device_score :: "string option \<Rightarrow> phys_dev \<Rightarrow> int" where
  "device_score want d = (if pd_discrete d then 2 else 0) +
     (case want of None \<Rightarrow> 0 | Some w \<Rightarrow> if strstr (pd_name d) w then 10 else 0)"

fun pick_device :: "string option \<Rightarrow> phys_dev list \<Rightarrow> phys_dev option \<Rightarrow> int \<Rightarrow> phys_dev option" where
  "pick_device want [] best best_score = best"
| "pick_device want (d # ds) best best_score =
    (if \<not> usable_device d then pick_device want ds best best_score
     else if device_score want d > best_score then pick_device want ds (Some d) (device_score want d)
     else pick_device want ds best best_score)"

definition alloc_vk_init_locked :: "vk_host \<Rightarrow> alloc_vk \<Rightarrow> int \<times> alloc_vk" where
  "alloc_vk_init_locked h vk0 =
    (if vk_device vk0 then (0, vk0)
     else if alloc_vk_failed vk0 then (- ENODEV, vk0)
     else let vk1 = vk0\<lparr>alloc_vk_failed := True, vk_lib := h_dlopen h\<rparr> in
     if \<not> h_dlopen h then (- ENODEV, vk1)
     else let vk2 = vk1\<lparr>vk_get_proc := h_dlsym h\<rparr> in
     if \<not> h_dlsym h then (- ENODEV, vk2)
     else if \<not> h_has_create h then (- ENODEV, vk2)
     else if h_create_instance h \<noteq> VK_SUCCESS then (- ENODEV, vk2)
     else let vk3 = vk2\<lparr>vk_instance := True\<rparr>; devices = take 16 (h_devices h) in
     if h_enumerate h < 0 \<or> devices = [] then (- ENODEV, vk3)
     else case pick_device (h_want h) devices None (-1) of
       None \<Rightarrow> (- ENODEV, vk3)
     | Some best \<Rightarrow>
         let vk4 = vk3\<lparr>vk_physical_device := Some (pd_handle best), vk_mem_props := pd_mem_types best\<rparr> in
         if h_create_device h (pd_handle best) \<noteq> VK_SUCCESS then (- ENODEV, vk4)
         else let vk5 = vk4\<lparr>vk_device := True, vk_procs := h_procs h (pd_handle best)\<rparr> in
         if \<not> GetMemoryFdKHR (vk_procs vk5) \<or> \<not> GetPhysicalDeviceFormatProperties2 (vk_procs vk5) \<or>
            \<not> GetImageDrmFormatModifierPropertiesEXT (vk_procs vk5)
         then (- ENODEV, vk5)
         else (0, vk5\<lparr>alloc_vk_failed := False\<rparr>))"

section \<open>Image allocation\<close>

record drm_mod =
  dm_modifier :: u64
  dm_planes :: u32
  dm_features :: u32

text \<open>
  The driver as the allocation sees it: what each call answers for its arguments. \<open>g_mod_count\<close>
  and \<open>g_mod_list\<close> are the two passes of vkGetPhysicalDeviceFormatProperties2.
\<close>

record img_driver =
  g_mod_count :: "vk_format \<Rightarrow> u32"
  g_mod_list :: "vk_format \<Rightarrow> drm_mod list"
  g_calloc :: bool
  g_create_image :: "vk_format \<Rightarrow> u32 \<Rightarrow> u32 \<Rightarrow> u64 list \<Rightarrow> vk_result"
  g_req_size :: u64
  g_req_bits :: u32
  g_allocate :: "u64 \<Rightarrow> u32 \<Rightarrow> vk_result"
  g_bind :: vk_result
  g_get_modifier :: vk_result
  g_modifier :: "u64 list \<Rightarrow> u64"
  g_row_pitch :: u64
  g_get_fd :: vk_result
  g_fd :: int

datatype alloc_res = Mutex | Props | Image | Memory | Fd int

definition VK_FORMAT_FEATURE_SAMPLED_IMAGE_BIT :: u32 where "VK_FORMAT_FEATURE_SAMPLED_IMAGE_BIT = 1"
definition VK_FORMAT_FEATURE_COLOR_ATTACHMENT_BIT :: u32 where "VK_FORMAT_FEATURE_COLOR_ATTACHMENT_BIT = 0x80"
definition VK_MEMORY_PROPERTY_DEVICE_LOCAL_BIT :: u32 where "VK_MEMORY_PROPERTY_DEVICE_LOCAL_BIT = 1"
definition VK_MEMORY_PROPERTY_HOST_VISIBLE_BIT :: u32 where "VK_MEMORY_PROPERTY_HOST_VISIBLE_BIT = 2"
definition VK_MEMORY_PROPERTY_HOST_CACHED_BIT :: u32 where "VK_MEMORY_PROPERTY_HOST_CACHED_BIT = 8"

definition wanted_modifier :: "drm_mod \<Rightarrow> bool" where
  "wanted_modifier d \<longleftrightarrow>
    (let need = VK_FORMAT_FEATURE_COLOR_ATTACHMENT_BIT OR VK_FORMAT_FEATURE_SAMPLED_IMAGE_BIT
     in dm_planes d = 1 \<and> (dm_features d AND need) = need \<and> dm_modifier d \<noteq> 0)"

fun collect_modifiers :: "drm_mod list \<Rightarrow> u64 list \<Rightarrow> u64 list" where
  "collect_modifiers [] acc = acc"
| "collect_modifiers (d # ds) acc =
    (if length acc < 64
     then collect_modifiers ds (if wanted_modifier d then acc @ [dm_modifier d] else acc)
     else acc)"

text \<open>The candidates of a non-linear allocation: from the cache, or queried and then cached.\<close>

definition modifier_candidates :: "img_driver \<Rightarrow> vk_format \<Rightarrow> alloc_vk \<Rightarrow> alloc_res ev list \<times> u64 list option \<times> alloc_vk" where
  "modifier_candidates g format vk =
    (case map_of (vk_modifier_cache vk) format of
       Some mods \<Rightarrow> ([], Some mods, vk)
     | None \<Rightarrow>
         if length (vk_modifier_cache vk) \<ge> 8 then ([], None, vk)
         else let capacity = unat (g_mod_count g format) in
         if capacity > 4096 then ([], None, vk)
         else if capacity \<noteq> 0 \<and> \<not> g_calloc g then ([], None, vk)
         else let mods = collect_modifiers (take capacity (g_mod_list g format)) [] in
           ((if capacity \<noteq> 0 then [Acq Props, Rel Props] else []), Some mods,
            vk\<lparr>vk_modifier_cache := vk_modifier_cache vk @ [(format, mods)]\<rparr>))"

fun ffs_from :: "u32 \<Rightarrow> nat \<Rightarrow> nat \<Rightarrow> nat option" where
  "ffs_from v i 0 = None"
| "ffs_from v i (Suc n) = (if bit v i then Some i else ffs_from v (Suc i) n)"

definition choose_mem_type :: "bool \<Rightarrow> u32 list \<Rightarrow> u32 \<Rightarrow> nat option" where
  "choose_mem_type linear mem_types bits =
    (let want = (if linear then VK_MEMORY_PROPERTY_HOST_VISIBLE_BIT OR VK_MEMORY_PROPERTY_HOST_CACHED_BIT
                 else VK_MEMORY_PROPERTY_DEVICE_LOCAL_BIT);
         mem_type = (case find_mem_type bits want mem_types 0 of
                       Some i \<Rightarrow> Some i | None \<Rightarrow> ffs_from bits 0 32)
     in if bits = 0 then None else mem_type)"

record image_out =
  io_stride :: u32
  io_modifier :: u64
  io_size :: u64
  io_fd :: int

text \<open>From the creation of the image to the label \<open>out\<close>, which destroys the image and the memory.\<close>

definition create_and_export :: "img_driver \<Rightarrow> alloc_vk \<Rightarrow> vk_format \<Rightarrow> bool \<Rightarrow> u32 \<Rightarrow> u32 \<Rightarrow> u64 list \<Rightarrow>
    (alloc_res ev list \<times> (int + image_out)) option" where
  "create_and_export g vk format linear width height mods =
    (if mods = [] then Some ([], Inl (- EINVAL))
     else if g_create_image g format width height mods \<noteq> VK_SUCCESS then Some ([], Inl (- EINVAL))
     else case choose_mem_type linear (vk_mem_props vk) (g_req_bits g) of
       None \<Rightarrow> Some ([Acq Image, Rel Image], Inl (- EINVAL))
     | Some mem_type \<Rightarrow>
         if g_allocate g (g_req_size g) (of_nat mem_type) \<noteq> VK_SUCCESS
         then Some ([Acq Image, Rel Image], Inl (- EINVAL))
         else if g_bind g \<noteq> VK_SUCCESS
         then Some ([Acq Image, Acq Memory, Rel Image, Rel Memory], Inl (- EINVAL))
         else if \<not> GetImageDrmFormatModifierPropertiesEXT (vk_procs vk) then None
         else if g_get_modifier g \<noteq> VK_SUCCESS
         then Some ([Acq Image, Acq Memory, Rel Image, Rel Memory], Inl (- EINVAL))
         else if \<not> GetMemoryFdKHR (vk_procs vk) then None
         else if g_get_fd g \<noteq> VK_SUCCESS \<or> g_fd g < 0
         then Some ([Acq Image, Acq Memory, Rel Image, Rel Memory], Inl (- EINVAL))
         else Some ([Acq Image, Acq Memory, Acq (Fd (g_fd g)), Rel Image, Rel Memory],
                    Inr \<lparr>io_stride = ucast (g_row_pitch g), io_modifier = g_modifier g mods,
                         io_size = g_req_size g, io_fd = g_fd g\<rparr>))"

definition vtest_gpu_alloc_image :: "vk_host \<Rightarrow> img_driver \<Rightarrow> u32 \<Rightarrow> u32 \<Rightarrow> u32 \<Rightarrow> bool \<Rightarrow> alloc_vk \<Rightarrow>
    ((alloc_res ev list \<times> (int + image_out)) \<times> alloc_vk) option" where
  "vtest_gpu_alloc_image h g width height drm_format linear vk0 =
    (let format = drm_format_to_vk drm_format in
     if width = 0 \<or> height = 0 then Some (([], Inl (- EINVAL)), vk0)
     else if format = VK_FORMAT_UNDEFINED then Some (([], Inl (- EINVAL)), vk0)
     else let (ret, vk1) = alloc_vk_init_locked h vk0 in
     if ret \<noteq> 0 then Some (([Acq Mutex, Rel Mutex], Inl ret), vk1)
     else if \<not> linear \<and> map_of (vk_modifier_cache vk1) format = None \<and> length (vk_modifier_cache vk1) < 8 \<and>
             \<not> GetPhysicalDeviceFormatProperties2 (vk_procs vk1) then None
     else let (tr1, cand, vk2) = (if linear then ([], Some [0], vk1) else modifier_candidates g format vk1) in
     case cand of
       None \<Rightarrow> Some (([Acq Mutex] @ tr1 @ [Rel Mutex], Inl (- EINVAL)), vk2)
     | Some mods \<Rightarrow>
         map_option (\<lambda>(tr2, res). (([Acq Mutex] @ tr1 @ tr2 @ [Rel Mutex], res), vk2))
           (create_and_export g vk2 format linear width height mods))"

definition vtest_gpu_alloc_gpu :: "vk_host \<Rightarrow> img_driver \<Rightarrow> u32 \<Rightarrow> u32 \<Rightarrow> u32 \<Rightarrow> alloc_vk \<Rightarrow>
    ((alloc_res ev list \<times> (int + image_out)) \<times> alloc_vk) option" where
  "vtest_gpu_alloc_gpu h g width height drm_format vk =
    vtest_gpu_alloc_image h g width height drm_format False vk"

section \<open>CPU buffers\<close>

definition ALLOC_ALIGN :: "u64 \<Rightarrow> u64 \<Rightarrow> u64" where
  "ALLOC_ALIGN v a = (v + a - 1) AND NOT (a - 1)"

record cpu_env =
  c_memfd :: int
  c_memfd_errno :: int
  c_ftruncate :: "u64 \<Rightarrow> int option"
  c_ufd :: int
  c_ufd_errno :: int
  c_create :: "u64 \<Rightarrow> int"
  c_create_errno :: int

record cpu_out =
  co_stride :: u32
  co_size :: u64
  co_fd :: int

definition cpu_bpp :: "u32 \<Rightarrow> u32" where
  "cpu_bpp f = (if f = ALLOC_DRM_FORMAT_NV12 then 1 else drm_format_bpp f)"

definition cpu_stride :: "u32 \<Rightarrow> u32 \<Rightarrow> u32" where
  "cpu_stride width f = ucast (ALLOC_ALIGN (ucast width * ucast (cpu_bpp f)) 256)"

definition cpu_size :: "u32 \<Rightarrow> u32 \<Rightarrow> u32 \<Rightarrow> u64" where
  "cpu_size stride height f =
    (if f = ALLOC_DRM_FORMAT_NV12
     then ALLOC_ALIGN (ucast stride * ucast height + ucast stride * ucast ((height + 1) div 2)) 4096
     else ALLOC_ALIGN (ucast stride * ucast height) 4096)"

definition vtest_gpu_alloc_cpu :: "cpu_env \<Rightarrow> u32 \<Rightarrow> u32 \<Rightarrow> u32 \<Rightarrow> alloc_res ev list \<times> (int + cpu_out)" where
  "vtest_gpu_alloc_cpu e width height f =
    (if width = 0 \<or> height = 0 \<or> (ucast width :: u64) * ucast (cpu_bpp f) > 0xFFFFFFFF - 255 then ([], Inl (- EINVAL))
     else let stride = cpu_stride width f; sz = cpu_size stride height f in
     if c_memfd e < 0 then ([], Inl (- c_memfd_errno e))
     else case c_ftruncate e sz of
       Some errno \<Rightarrow> ([Acq (Fd (c_memfd e)), Rel (Fd (c_memfd e))], Inl (- errno))
     | None \<Rightarrow>
         if c_ufd e < 0 then ([Acq (Fd (c_memfd e)), Rel (Fd (c_memfd e))], Inl (- c_ufd_errno e))
         else let dmabuf = c_create e sz;
                  tr = [Acq (Fd (c_memfd e)), Acq (Fd (c_ufd e))] @ (if dmabuf < 0 then [] else [Acq (Fd dmabuf)]) @
                       [Rel (Fd (c_ufd e)), Rel (Fd (c_memfd e))]
         in (tr, if dmabuf < 0 then Inl (- c_create_errno e)
                 else Inr \<lparr>co_stride = stride, co_size = sz, co_fd = dmabuf\<rparr>))"

section \<open>Device choice\<close>

lemma pick_device_spec:
  assumes "case best of None \<Rightarrow> bs = -1 | Some b \<Rightarrow> bs = device_score want b"
  shows "(case pick_device want ds best bs of
      None \<Rightarrow> best = None \<and> (\<forall>d\<in>set ds. \<not> usable_device d)
    | Some b \<Rightarrow> (best = Some b \<or> b \<in> set ds \<and> usable_device b) \<and> bs \<le> device_score want b \<and>
        (\<forall>d\<in>set ds. usable_device d \<longrightarrow> device_score want d \<le> device_score want b))"
  using assms
proof (induction want ds best bs rule: pick_device.induct)
  case (2 want d ds best bs)
  have nonneg: "device_score want d \<ge> 0" by (auto simp: device_score_def split: option.splits)
  consider (skip) "\<not> usable_device d" | (take) "usable_device d" "device_score want d > bs"
    | (keep) "usable_device d" "\<not> device_score want d > bs" by blast
  then show ?case
  proof cases
    case skip
    then show ?thesis using 2 by (auto split: option.splits)
  next
    case take
    then have "case pick_device want ds (Some d) (device_score want d) of
      None \<Rightarrow> False
    | Some b \<Rightarrow> (d = b \<or> b \<in> set ds \<and> usable_device b) \<and> device_score want d \<le> device_score want b \<and>
        (\<forall>d\<in>set ds. usable_device d \<longrightarrow> device_score want d \<le> device_score want b)"
      using 2(2) by (simp split: option.splits)
    then show ?thesis using take by (auto split: option.splits)
  next
    case keep
    then show ?thesis using 2 nonneg by (auto split: option.splits)
  qed
qed (auto split: option.splits)

section \<open>The modifier cache\<close>

lemma collect_modifiers_eq:
  "length acc \<le> 64 \<Longrightarrow> collect_modifiers ds acc = take 64 (acc @ map dm_modifier (filter wanted_modifier ds))"
  by (induction ds acc rule: collect_modifiers.induct) (auto simp: take_Cons')

definition ref_modifiers :: "u32 \<Rightarrow> drm_mod list \<Rightarrow> u64 list" where
  "ref_modifiers n ds = take 64 (map dm_modifier (filter wanted_modifier (take (unat n) ds)))"

definition cache_ok :: "(vk_format \<Rightarrow> u32) \<Rightarrow> (vk_format \<Rightarrow> drm_mod list) \<Rightarrow> alloc_vk \<Rightarrow> bool" where
  "cache_ok mc ml vk \<longleftrightarrow> distinct (map fst (vk_modifier_cache vk)) \<and>
     VK_FORMAT_UNDEFINED \<notin> fst ` set (vk_modifier_cache vk) \<and>
     list_all (\<lambda>e. unat (mc (fst e)) \<le> 4096 \<and> snd e = ref_modifiers (mc (fst e)) (ml (fst e))) (vk_modifier_cache vk)"

lemma cache_small:
  assumes "cache_ok mc ml vk"
  shows "length (vk_modifier_cache vk) \<le> 6"
proof -
  let ?all = "{VK_FORMAT_R8_UNORM, VK_FORMAT_R5G6B5_UNORM_PACK16, VK_FORMAT_B8G8R8A8_UNORM,
    VK_FORMAT_R8G8B8A8_UNORM, VK_FORMAT_A2B10G10R10_UNORM_PACK32, VK_FORMAT_R16G16B16A16_SFLOAT}"
  let ?fs = "map fst (vk_modifier_cache vk)"
  have all: "x \<in> ?all" if "x \<noteq> VK_FORMAT_UNDEFINED" for x using that by (cases x) auto
  have "set ?fs \<subseteq> ?all"
  proof
    fix x assume "x \<in> set ?fs"
    then have "x \<noteq> VK_FORMAT_UNDEFINED" using assms unfolding cache_ok_def set_map by metis
    then show "x \<in> ?all" by (rule all)
  qed
  then have "card (set ?fs) \<le> card ?all" by (rule card_mono [rotated]) simp
  moreover have "card (set ?fs) = length (vk_modifier_cache vk)"
    using assms distinct_card [of ?fs] by (simp add: cache_ok_def)
  ultimately show ?thesis by simp
qed

lemma cached_lookup:
  assumes "cache_ok mc ml vk" "map_of (vk_modifier_cache vk) f = Some mods"
  shows "unat (mc f) \<le> 4096" "mods = ref_modifiers (mc f) (ml f)"
proof -
  have "(f, mods) \<in> set (vk_modifier_cache vk)" using assms(2) by (rule map_of_SomeD)
  then have "unat (mc (fst (f, mods))) \<le> 4096 \<and> snd (f, mods) = ref_modifiers (mc (fst (f, mods))) (ml (fst (f, mods)))"
    using assms(1) unfolding cache_ok_def list_all_iff by blast
  then show "unat (mc f) \<le> 4096" "mods = ref_modifiers (mc f) (ml f)" by simp_all
qed

text \<open>With the cache or without it, the candidates are those of the driver's list.\<close>

lemma candidates_cases:
  assumes "cache_ok (g_mod_count g) (g_mod_list g) vk" "modifier_candidates g f vk = (tr, cand, vk')"
  defines "R \<equiv> ref_modifiers (g_mod_count g f) (g_mod_list g f)"
  obtains (hit) "tr = []" "cand = Some R" "vk' = vk" "unat (g_mod_count g f) \<le> 4096"
  | (miss) "cand = Some R" "vk' = vk\<lparr>vk_modifier_cache := vk_modifier_cache vk @ [(f, R)]\<rparr>" "unat (g_mod_count g f) \<le> 4096"
      "f \<notin> fst ` set (vk_modifier_cache vk)" "run_ev {#} tr = Some {#}"
  | (fail) "cand = None" "vk' = vk" "tr = []" "unat (g_mod_count g f) > 4096 \<or> \<not> g_calloc g"
proof (cases "map_of (vk_modifier_cache vk) f")
  case None
  then have "f \<notin> fst ` set (vk_modifier_cache vk)" by (simp add: map_of_eq_None_iff)
  then show thesis
    using assms(2) None cache_small [OF assms(1)] miss fail
    by (auto simp: modifier_candidates_def Let_def collect_modifiers_eq ref_modifiers_def R_def split: if_splits)
next
  case (Some mods)
  then show thesis
    using hit assms(2) cached_lookup [OF assms(1) Some] by (simp add: modifier_candidates_def R_def)
qed

lemma candidates_spec:
  assumes "cache_ok (g_mod_count g) (g_mod_list g) vk" "f \<noteq> VK_FORMAT_UNDEFINED"
    "modifier_candidates g f vk = (tr, cand, vk')"
  shows "cache_ok (g_mod_count g) (g_mod_list g) vk' \<and> run_ev {#} tr = Some {#} \<and>
    vk_procs vk' = vk_procs vk \<and> vk_mem_props vk' = vk_mem_props vk \<and> vk_device vk' = vk_device vk"
  using assms(1,3)
proof (cases rule: candidates_cases)
  case miss
  then show ?thesis using assms(1,2) by (simp add: cache_ok_def)
qed (use assms(1) in simp_all)

section \<open>Memory types\<close>

lemma ffs_from_spec:
  "case ffs_from v i n of Some j \<Rightarrow> bit v j \<and> j < i + n | None \<Rightarrow> \<forall>j. i \<le> j \<and> j < i + n \<longrightarrow> \<not> bit v j"
proof (induction v i n rule: ffs_from.induct)
  case (2 v i n)
  then show ?case by (auto split: option.splits simp: not_less_eq_eq elim: le_SucE) (metis le_antisym not_less_eq_eq)
qed auto

lemma choose_mem_type_spec:
  "case choose_mem_type linear fs bits of
     None \<Rightarrow> bits = 0
   | Some i \<Rightarrow> i < 32 \<and> bit bits i"
proof -
  define want where "want = (if linear then VK_MEMORY_PROPERTY_HOST_VISIBLE_BIT OR VK_MEMORY_PROPERTY_HOST_CACHED_BIT
                 else VK_MEMORY_PROPERTY_DEVICE_LOCAL_BIT)"
  have none: "ffs_from bits 0 32 \<noteq> None" if "bits \<noteq> 0"
  proof
    assume "ffs_from bits 0 32 = None"
    then have "\<not> bit bits j" if "j < 32" for j using ffs_from_spec [where v = bits and i = 0 and n = 32] that by simp
    then have "bits = 0" by (auto simp: bit_eq_iff dest: bit_imp_le_length)
    then show False using that by simp
  qed
  show ?thesis
    using find_mem_type_spec [where bits = bits and want = want and fs = fs and i = 0] ffs_from_spec [where v = bits and i = 0 and n = 32] none
    by (auto simp: choose_mem_type_def want_def [symmetric] Let_def and_exp_eq_0_iff_not_bit split: option.splits
        dest: bit_imp_le_length)
qed

section \<open>Image allocations\<close>

definition full_procs :: "dev_procs \<Rightarrow> bool" where
  "full_procs p \<longleftrightarrow> GetMemoryFdKHR p \<and> GetPhysicalDeviceFormatProperties2 p \<and> GetImageDrmFormatModifierPropertiesEXT p"

text \<open>A device is there only with its functions.\<close>

definition vk_ready :: "alloc_vk \<Rightarrow> bool" where
  "vk_ready vk \<longleftrightarrow> (vk_device vk \<longrightarrow> full_procs (vk_procs vk))"

lemma init_spec:
  assumes "\<And>p. full_procs (h_procs h p)" "vk_ready vk" "alloc_vk_init_locked h vk = (r, vk')"
  shows "vk_ready vk'" "vk_modifier_cache vk' = vk_modifier_cache vk" "r = 0 \<longleftrightarrow> vk_device vk'" "r = 0 \<or> r = - ENODEV"
proof -
  note unf = assms(3) [unfolded alloc_vk_init_locked_def Let_def]
  show "vk_ready vk'" "vk_modifier_cache vk' = vk_modifier_cache vk" "r = 0 \<longleftrightarrow> vk_device vk'" "r = 0 \<or> r = - ENODEV"
    using unf assms(1,2) by (auto simp: vk_ready_def full_procs_def ENODEV_def split: if_splits option.splits)
qed

definition image_holds :: "image_out \<Rightarrow> alloc_res multiset" where
  "image_holds out = {#Fd (io_fd out)#}"

definition res_holds :: "int + image_out \<Rightarrow> alloc_res multiset" where
  "res_holds res = (case res of Inl _ \<Rightarrow> {#} | Inr out \<Rightarrow> image_holds out)"

lemma create_and_export_spec:
  assumes "create_and_export g vk f linear w h mods = Some (tr, res)"
  shows "run_ev {#} tr = Some (res_holds res)"
    "\<And>out. res = Inr out \<Longrightarrow> io_modifier out = g_modifier g mods \<and> io_size out = g_req_size g \<and>
      io_stride out = ucast (g_row_pitch g) \<and> io_fd out = g_fd g \<and> 0 \<le> g_fd g \<and> mods \<noteq> []"
    "\<And>e. res = Inl e \<Longrightarrow> e = - EINVAL"
  using assms
  by (auto simp: create_and_export_def res_holds_def image_holds_def split: if_splits option.splits)

lemma create_and_export_total: "full_procs (vk_procs vk) \<Longrightarrow> create_and_export g vk f linear w h mods \<noteq> None"
  by (auto simp: create_and_export_def full_procs_def split: option.splits)

lemma mutex_wrap:
  assumes "run_ev {#} tr1 = Some {#}" "run_ev {#} tr2 = Some M"
  shows "run_ev {#} ([Acq Mutex] @ tr1 @ tr2 @ [Rel Mutex]) = Some M"
  using run_ev_frame [OF assms(1), of "{#Mutex#}"] run_ev_frame [OF assms(2), of "{#Mutex#}"]
  by (simp add: run_ev_append)

text \<open>What a call promises: the lists \<open>mc\<close> and \<open>ml\<close> are the driver's modifiers.\<close>

definition candidates :: "img_driver \<Rightarrow> u32 \<Rightarrow> bool \<Rightarrow> u64 list" where
  "candidates g f linear = (if linear then [0]
     else ref_modifiers (g_mod_count g (drm_format_to_vk f)) (g_mod_list g (drm_format_to_vk f)))"

definition image_post :: "img_driver \<Rightarrow> u32 \<Rightarrow> bool \<Rightarrow> alloc_res ev list \<Rightarrow> int + image_out \<Rightarrow> bool" where
  "image_post g f linear tr res \<longleftrightarrow> run_ev {#} tr = Some (res_holds res) \<and>
     (case res of
        Inl e \<Rightarrow> e = - EINVAL \<or> e = - ENODEV
      | Inr out \<Rightarrow> 0 \<le> io_fd out \<and> candidates g f linear \<noteq> [] \<and>
          io_modifier out = g_modifier g (candidates g f linear) \<and> io_size out = g_req_size g)"

abbreviation driver_cache :: "img_driver \<Rightarrow> alloc_vk \<Rightarrow> bool" where
  "driver_cache g vk \<equiv> cache_ok (g_mod_count g) (g_mod_list g) vk"

lemma export_post:
  assumes "full_procs (vk_procs vk)" "run_ev {#} tr1 = Some {#}"
  shows "\<exists>tr res. map_option (\<lambda>(tr2, res). (([Acq Mutex] @ tr1 @ tr2 @ [Rel Mutex], res), vk))
           (create_and_export g vk f' linear w h (candidates g f linear)) = Some ((tr, res), vk) \<and>
         image_post g f linear tr res"
proof -
  obtain tr2 res where c: "create_and_export g vk f' linear w h (candidates g f linear) = Some (tr2, res)"
    using create_and_export_total [OF assms(1), of g f' linear w h "candidates g f linear"] by auto
  note spec = create_and_export_spec [OF c]
  have "image_post g f linear ([Acq Mutex] @ tr1 @ tr2 @ [Rel Mutex]) res"
    using mutex_wrap [OF assms(2) spec(1)] spec(2,3) by (cases res) (auto simp: image_post_def)
  then show ?thesis using c by auto
qed

lemma fail_post: "e = - EINVAL \<or> e = - ENODEV \<Longrightarrow> run_ev {#} tr = Some {#} \<Longrightarrow> image_post g f linear tr (Inl e)"
  by (simp add: image_post_def res_holds_def)

lemma image_spec:
  assumes procs: "\<And>p. full_procs (h_procs h p)" and "vk_ready vk" "driver_cache g vk"
  shows "\<exists>tr res vk'. vtest_gpu_alloc_image h g width height f linear vk = Some ((tr, res), vk') \<and>
    vk_ready vk' \<and> driver_cache g vk' \<and> image_post g f linear tr res"
proof -
  let ?vf = "drm_format_to_vk f"
  obtain r vk1 where i: "alloc_vk_init_locked h vk = (r, vk1)" by (cases "alloc_vk_init_locked h vk")
  note init = init_spec [OF procs assms(2) i]
  have c1: "driver_cache g vk1" using assms(3) init(2) by (simp add: cache_ok_def)
  consider (args) "width = 0 \<or> height = 0 \<or> ?vf = VK_FORMAT_UNDEFINED"
    | (dev) "width \<noteq> 0" "height \<noteq> 0" "?vf \<noteq> VK_FORMAT_UNDEFINED" "r \<noteq> 0"
    | (go) "width \<noteq> 0" "height \<noteq> 0" "?vf \<noteq> VK_FORMAT_UNDEFINED" "r = 0" by blast
  then show ?thesis
  proof cases
    case args
    then show ?thesis using assms(2,3) fail_post [of "- EINVAL" "[]"] by (auto simp: vtest_gpu_alloc_image_def)
  next
    case dev
    then show ?thesis using init i c1 fail_post [of r "[Acq Mutex, Rel Mutex]"] by (auto simp: vtest_gpu_alloc_image_def)
  next
    case go
    then have full: "full_procs (vk_procs vk1)" using init by (simp add: vk_ready_def)
    show ?thesis
    proof (cases linear)
      case True
      then have "vtest_gpu_alloc_image h g width height f linear vk =
        map_option (\<lambda>(tr2, res). (([Acq Mutex] @ [] @ tr2 @ [Rel Mutex], res), vk1))
          (create_and_export g vk1 ?vf linear width height (candidates g f linear))"
        using go i by (simp add: vtest_gpu_alloc_image_def candidates_def)
      then show ?thesis using export_post [OF full, of "[]"] init(1) c1 by fastforce
    next
      case False
      obtain tr1 cand vk2 where m: "modifier_candidates g ?vf vk1 = (tr1, cand, vk2)"
        by (cases "modifier_candidates g ?vf vk1")
      note mc = candidates_spec [OF c1 go(3) m]
      have ready2: "vk_ready vk2" "full_procs (vk_procs vk2)" using mc init(1) full by (auto simp: vk_ready_def)
      show ?thesis
      proof (cases cand)
        case None
        then have "vtest_gpu_alloc_image h g width height f linear vk =
          Some (([Acq Mutex] @ tr1 @ [Rel Mutex], Inl (- EINVAL)), vk2)"
          using go i m False full by (simp add: vtest_gpu_alloc_image_def full_procs_def)
        then show ?thesis
          using mutex_wrap [of tr1 "[]"] mc ready2 fail_post [of "- EINVAL" "[Acq Mutex] @ tr1 @ [Rel Mutex]"] by fastforce
      next
        case (Some mods)
        then have "mods = candidates g f linear"
          using m c1 False by (cases rule: candidates_cases [OF c1 m]) (auto simp: candidates_def)
        then have "vtest_gpu_alloc_image h g width height f linear vk =
          map_option (\<lambda>(tr2, res). (([Acq Mutex] @ tr1 @ tr2 @ [Rel Mutex], res), vk2))
            (create_and_export g vk2 ?vf linear width height (candidates g f linear))"
          using go i m False full Some by (simp add: vtest_gpu_alloc_image_def full_procs_def)
        then show ?thesis using export_post [OF ready2(2)] ready2(1) mc by fastforce
      qed
    qed
  qed
qed

section \<open>Histories\<close>

record img_req =
  q_driver :: img_driver
  q_width :: u32
  q_height :: u32
  q_format :: u32
  q_linear :: bool

fun alloc_history :: "vk_host \<Rightarrow> img_req list \<Rightarrow> alloc_vk \<Rightarrow> (alloc_res ev list \<times> (int + image_out) list \<times> alloc_vk) option" where
  "alloc_history h [] vk = Some ([], [], vk)"
| "alloc_history h (q # qs) vk =
    (case vtest_gpu_alloc_image h (q_driver q) (q_width q) (q_height q) (q_format q) (q_linear q) vk of
       None \<Rightarrow> None
     | Some ((tr, res), vk1) \<Rightarrow>
         (case alloc_history h qs vk1 of
            None \<Rightarrow> None
          | Some (tr', rs, vk2) \<Rightarrow> Some (tr @ tr', res # rs, vk2)))"

text \<open>The formats' modifier lists do not change over the life of a physical device.\<close>

definition same_lists :: "(vk_format \<Rightarrow> u32) \<Rightarrow> (vk_format \<Rightarrow> drm_mod list) \<Rightarrow> img_req \<Rightarrow> bool" where
  "same_lists mc ml q \<longleftrightarrow> g_mod_count (q_driver q) = mc \<and> g_mod_list (q_driver q) = ml"

lemma history_spec:
  assumes procs: "\<And>p. full_procs (h_procs h p)" and "vk_ready vk" "cache_ok mc ml vk" "list_all (same_lists mc ml) qs"
  shows "\<exists>tr rs vk'. alloc_history h qs vk = Some (tr, rs, vk') \<and> vk_ready vk' \<and> cache_ok mc ml vk' \<and>
    run_ev {#} tr = Some (sum_list (map res_holds rs)) \<and>
    list_all2 (\<lambda>q res. \<exists>tr. image_post (q_driver q) (q_format q) (q_linear q) tr res) qs rs"
  using assms(2-)
proof (induction qs arbitrary: vk)
  case (Cons q qs)
  have eqs: "g_mod_count (q_driver q) = mc" "g_mod_list (q_driver q) = ml" using Cons.prems(3) by (auto simp: same_lists_def)
  obtain tr res vk1 where one: "vtest_gpu_alloc_image h (q_driver q) (q_width q) (q_height q) (q_format q) (q_linear q) vk
      = Some ((tr, res), vk1)" "vk_ready vk1" "cache_ok mc ml vk1" "image_post (q_driver q) (q_format q) (q_linear q) tr res"
    using image_spec [OF procs Cons.prems(1), of "q_driver q" "q_width q" "q_height q" "q_format q" "q_linear q"] Cons.prems(2)
    unfolding eqs by blast
  obtain tr' rs vk2 where rest: "alloc_history h qs vk1 = Some (tr', rs, vk2)" "vk_ready vk2" "cache_ok mc ml vk2"
      "run_ev {#} tr' = Some (sum_list (map res_holds rs))"
      "list_all2 (\<lambda>q res. \<exists>tr. image_post (q_driver q) (q_format q) (q_linear q) tr res) qs rs"
    using Cons.IH [OF one(2,3)] Cons.prems(3) unfolding list.pred_inject by blast
  have "run_ev {#} (tr @ tr') = Some (res_holds res + sum_list (map res_holds rs))"
    using one(4) run_ev_frame [OF rest(4), of "res_holds res"] by (simp add: image_post_def run_ev_append)
  then have run: "run_ev {#} (tr @ tr') = Some (sum_list (map res_holds (res # rs)))" by simp
  have hist: "alloc_history h (q # qs) vk = Some (tr @ tr', res # rs, vk2)" using one(1) rest(1) by simp
  have "list_all2 (\<lambda>q res. \<exists>tr. image_post (q_driver q) (q_format q) (q_linear q) tr res) (q # qs) (res # rs)"
    using one(4) rest(5) unfolding list_all2_Cons by blast
  then show ?case using run hist rest(2,3) by blast
qed simp

lemma zero_ok: "vk_ready alloc_vk_zero" "cache_ok mc ml alloc_vk_zero"
  by (simp_all add: vk_ready_def cache_ok_def alloc_vk_zero_def)

text \<open>The result of a call, without its trace and state.\<close>

definition result_of :: "((alloc_res ev list \<times> (int + image_out)) \<times> alloc_vk) option \<Rightarrow> (int + image_out) option" where
  "result_of x = map_option (\<lambda>((tr, res), vk). res) x"

lemma export_congr:
  "vk_procs vk = vk_procs vk' \<Longrightarrow> vk_mem_props vk = vk_mem_props vk' \<Longrightarrow>
   create_and_export g vk f linear w h mods = create_and_export g vk' f linear w h mods"
  by (simp add: create_and_export_def)

lemma init_cache_indep:
  "alloc_vk_init_locked h (vk\<lparr>vk_modifier_cache := c\<rparr>) =
    map_prod id (\<lambda>v. v\<lparr>vk_modifier_cache := c\<rparr>) (alloc_vk_init_locked h vk)"
  by (cases vk) (simp add: alloc_vk_init_locked_def Let_def split: option.splits)

lemma image_result:
  assumes "driver_cache g vk" "g_calloc g" "alloc_vk_init_locked h vk = (r, vk1)" "full_procs (vk_procs vk1) \<or> r \<noteq> 0"
    "vk_modifier_cache vk1 = vk_modifier_cache vk"
  shows "result_of (vtest_gpu_alloc_image h g width height f linear vk) =
    (let vf = drm_format_to_vk f in
     if width = 0 \<or> height = 0 \<or> vf = VK_FORMAT_UNDEFINED then Some (Inl (- EINVAL))
     else if r \<noteq> 0 then Some (Inl r)
     else if \<not> linear \<and> unat (g_mod_count g vf) > 4096 then Some (Inl (- EINVAL))
     else map_option snd (create_and_export g vk1 vf linear width height (candidates g f linear)))"
proof (cases "width = 0 \<or> height = 0 \<or> drm_format_to_vk f = VK_FORMAT_UNDEFINED \<or> r \<noteq> 0 \<or> linear")
  case True
  then show ?thesis using assms(3)
    by (auto simp: result_of_def vtest_gpu_alloc_image_def Let_def candidates_def option.map_comp o_def split_def)
next
  case False
  obtain tr1 cand vk2 where m: "modifier_candidates g (drm_format_to_vk f) vk1 = (tr1, cand, vk2)"
    by (cases "modifier_candidates g (drm_format_to_vk f) vk1")
  have c1: "driver_cache g vk1" using assms(1,5) by (simp add: cache_ok_def)
  show ?thesis
    using c1 m
  proof (cases rule: candidates_cases)
    case hit
    then show ?thesis using False assms m
      by (auto simp: result_of_def vtest_gpu_alloc_image_def Let_def candidates_def option.map_comp o_def split_def full_procs_def)
  next
    case miss
    then have "create_and_export g vk2 f' l w h' ms = create_and_export g vk1 f' l w h' ms" for f' l w h' ms
      by (auto intro: export_congr)
    then show ?thesis using miss False assms m
      by (auto simp: result_of_def vtest_gpu_alloc_image_def Let_def candidates_def option.map_comp o_def split_def full_procs_def)
  next
    case fail
    then show ?thesis using False assms m
      by (auto simp: result_of_def vtest_gpu_alloc_image_def Let_def full_procs_def)
  qed
qed

section \<open>CPU buffers\<close>

definition cpu_rows :: "u32 \<Rightarrow> u32 \<Rightarrow> nat" where
  "cpu_rows height f = (if f = ALLOC_DRM_FORMAT_NV12 then unat height + (unat height + 1) div 2 else unat height)"

definition cpu_op :: "cpu_env \<times> u32 \<times> u32 \<times> u32 \<Rightarrow> alloc_res ev list \<times> (int + cpu_out)" where
  "cpu_op = (\<lambda>(e, width, height, f). vtest_gpu_alloc_cpu e width height f)"

interpretation cpu: owned_op cpu_op "\<lambda>_. True" "\<lambda>out. {#Fd (co_fd out)#}"
  by unfold_locales (auto simp: cpu_op_def vtest_gpu_alloc_cpu_def Let_def split: if_splits option.splits)

lemma cpu_bpp_less: "unat (cpu_bpp f) \<le> 8"
  by (simp add: cpu_bpp_def drm_format_bpp_def)

lemma align_256:
  assumes "unat v + 255 < 2 ^ 64"
  shows "unat (ALLOC_ALIGN v 256) = (unat v + 255) div 256 * 256"
  using unat_align_up [of v 8] assms by (simp add: ALLOC_ALIGN_def)

lemma align_4096:
  assumes "unat v + 4095 < 2 ^ 64"
  shows "unat (ALLOC_ALIGN v 4096) = (unat v + 4095) div 4096 * 4096"
  using unat_align_up [of v 12] assms by (simp add: ALLOC_ALIGN_def)

lemma round_256: "(n::nat) \<le> 4294967040 \<Longrightarrow> (n + 255) div 256 * 256 \<le> 4294967040"
  using div_le_mono [of "n + 255" 4294967295 256] by simp

lemma cpu_stride_spec:
  assumes "\<not> (ucast width :: u64) * ucast (cpu_bpp f) > 0xFFFFFFFF - 255"
  shows "unat (cpu_stride width f) = (unat width * unat (cpu_bpp f) + 255) div 256 * 256"
proof -
  let ?v = "(ucast width :: u64) * ucast (cpu_bpp f)"
  have v: "unat ?v = unat width * unat (cpu_bpp f)" by (rule unat_ucast_mult)
  have "unat ?v \<le> 4294967040" using assms by (simp add: word_le_nat_alt not_less)
  moreover have "unat (ALLOC_ALIGN ?v 256) = (unat ?v + 255) div 256 * 256"
    by (rule align_256) (use calculation in simp)
  ultimately have "unat (ALLOC_ALIGN ?v 256) < 4294967296" by linarith
  then show ?thesis using \<open>unat (ALLOC_ALIGN ?v 256) = _\<close>
    by (simp add: cpu_stride_def unsigned_ucast_eq take_bit_eq_mod v)
qed

lemma cpu_size_spec:
  assumes "f = ALLOC_DRM_FORMAT_NV12 \<Longrightarrow> unat height < 2 ^ 32 - 1 \<and> unat stride * cpu_rows height f + 4095 < 2 ^ 64"
    "unat stride \<le> 4294967040"
  shows "unat (cpu_size stride height f) = (unat stride * cpu_rows height f + 4095) div 4096 * 4096"
proof (cases "f = ALLOC_DRM_FORMAT_NV12")
  case False
  have "unat stride * unat height \<le> 4294967040 * 4294967295"
    by (rule mult_le_mono [OF assms(2)]) (use unat_u32_less [of height] in simp)
  then show ?thesis using False
    by (simp add: cpu_size_def cpu_rows_def align_4096 unat_ucast_mult)
next
  case True
  then have h: "unat (height + 1) = unat height + 1" using assms(1) by (simp add: unat_word_ariths)
  then have half: "unat ((height + 1) div 2) = (unat height + 1) div 2" by (simp add: unat_div)
  have "unat ((ucast stride :: u64) * ucast height + ucast stride * ucast ((height + 1) div 2)) = unat stride * cpu_rows height f"
    using True assms(1) half by (simp add: unat_word_ariths unat_ucast_mult [unfolded unat_word_ariths] cpu_rows_def add_mult_distrib2)
  then show ?thesis using True assms(1) by (simp add: cpu_size_def align_4096)
qed

section \<open>A concrete host\<close>

definition demo_gpu :: phys_dev where
  "demo_gpu = \<lparr>pd_handle = 77, pd_discrete = True, pd_name = ''NVIDIA'',
     pd_exts = [''VK_EXT_external_memory_dma_buf'', ''VK_EXT_image_drm_format_modifier''], pd_mem_types = [1, 10]\<rparr>"

definition demo_procs :: dev_procs where
  "demo_procs = \<lparr>GetMemoryFdKHR = True, GetPhysicalDeviceFormatProperties2 = True,
     GetImageDrmFormatModifierPropertiesEXT = True\<rparr>"

definition demo_host :: vk_host where
  "demo_host = \<lparr>h_dlopen = True, h_dlsym = True, h_has_create = True, h_create_instance = 0, h_enumerate = 0,
     h_devices = [demo_gpu], h_want = None, h_create_device = (\<lambda>_. 0), h_procs = (\<lambda>_. demo_procs)\<rparr>"

definition old_host :: vk_host where
  "old_host = demo_host\<lparr>h_procs := (\<lambda>_. demo_procs\<lparr>GetMemoryFdKHR := False\<rparr>)\<rparr>"

definition demo_driver :: img_driver where
  "demo_driver = \<lparr>g_mod_count = (\<lambda>_. 2),
     g_mod_list = (\<lambda>_. [\<lparr>dm_modifier = 0, dm_planes = 1, dm_features = 0x81\<rparr>,
                       \<lparr>dm_modifier = 5, dm_planes = 1, dm_features = 0x81\<rparr>]),
     g_calloc = True, g_create_image = (\<lambda>_ _ _ _. 0), g_req_size = 65536, g_req_bits = 3,
     g_allocate = (\<lambda>_ _. 0), g_bind = 0, g_get_modifier = 0, g_modifier = hd, g_row_pitch = 512,
     g_get_fd = 0, g_fd = 9\<rparr>"

definition demo_req :: "bool \<Rightarrow> img_req" where
  "demo_req linear = \<lparr>q_driver = demo_driver, q_width = 64, q_height = 64, q_format = ALLOC_DRM_FORMAT_ABGR8888, q_linear = linear\<rparr>"

lemma demo_full: "full_procs (h_procs demo_host p)"
  by (simp add: demo_host_def demo_procs_def full_procs_def)

lemma demo_same: "same_lists (g_mod_count demo_driver) (g_mod_list demo_driver) (demo_req l)"
  by (simp add: same_lists_def demo_req_def)

section \<open>Properties\<close>

text \<open>
  C31. The physical device the allocator settles on exports dma_bufs with modifiers, and no usable
  device scores higher: the one named in the environment before every other, a discrete one before
  an integrated one. There is none only if no device is usable.
\<close>

theorem pick_device_best:
  "case pick_device want ds None (-1) of
     None \<Rightarrow> \<forall>d. d \<in> set ds \<longrightarrow> \<not> usable_device d
   | Some b \<Rightarrow> b \<in> set ds \<and> usable_device b \<and>
       (\<forall>d. d \<in> set ds \<and> usable_device d \<longrightarrow> device_score want d \<le> device_score want b)"
  using pick_device_spec [where best = None and bs = "-1" and want = want and ds = ds] by (auto split: option.splits)

theorem pick_device_best_witness:
  "pick_device None [demo_gpu\<lparr>pd_discrete := False\<rparr>, demo_gpu] None (-1) = Some demo_gpu \<and>
   device_score None (demo_gpu\<lparr>pd_discrete := False\<rparr>) \<le> device_score None demo_gpu"
proof -
  have "pick_device None [demo_gpu\<lparr>pd_discrete := False\<rparr>, demo_gpu] None (-1) = Some demo_gpu"
    "usable_device (demo_gpu\<lparr>pd_discrete := False\<rparr>)"
    by (simp_all add: usable_device_def device_score_def demo_gpu_def)
  then show ?thesis
    using pick_device_best [where want = None and ds = "[demo_gpu\<lparr>pd_discrete := False\<rparr>, demo_gpu]"] by simp
qed



text \<open>
  C21. The modifier cache is invisible: after any history, a call whose temporary list can be
  allocated gives the same result as it would with an empty cache, and the cache holds at most six
  formats, so its eight slots never run out.
\<close>

theorem modifier_cache_transparent:
  assumes "\<And>p. full_procs (h_procs h p)" "list_all (same_lists mc ml) qs" "same_lists mc ml q" "g_calloc (q_driver q)"
    "alloc_history h qs alloc_vk_zero = Some (tr, rs, vk)"
  shows "result_of (vtest_gpu_alloc_image h (q_driver q) (q_width q) (q_height q) (q_format q) (q_linear q) vk) =
    result_of (vtest_gpu_alloc_image h (q_driver q) (q_width q) (q_height q) (q_format q) (q_linear q)
      (vk\<lparr>vk_modifier_cache := []\<rparr>)) \<and> length (vk_modifier_cache vk) \<le> 6"
proof -
  have vk: "vk_ready vk" "cache_ok mc ml vk"
    using history_spec [OF assms(1) zero_ok assms(2)] assms(5) by auto
  then have c: "driver_cache (q_driver q) vk" using assms(3) by (simp add: same_lists_def)
  obtain r vk1 where i: "alloc_vk_init_locked h vk = (r, vk1)" by (cases "alloc_vk_init_locked h vk")
  note init = init_spec [OF assms(1) vk(1) i]
  have i': "alloc_vk_init_locked h (vk\<lparr>vk_modifier_cache := []\<rparr>) = (r, vk1\<lparr>vk_modifier_cache := []\<rparr>)"
    using i by (simp add: init_cache_indep)
  have full: "full_procs (vk_procs vk1) \<or> r \<noteq> 0" using init by (auto simp: vk_ready_def)
  have "create_and_export g (vk1\<lparr>vk_modifier_cache := []\<rparr>) f l w h ms = create_and_export g vk1 f l w h ms"
    for g f l w h ms by (rule export_congr) simp_all
  moreover have "driver_cache (q_driver q) (vk\<lparr>vk_modifier_cache := []\<rparr>)" by (simp add: cache_ok_def)
  ultimately show ?thesis
    using image_result [OF c assms(4) i full init(2), where width = "q_width q" and height = "q_height q"
        and f = "q_format q" and linear = "q_linear q"]
      image_result [OF _ assms(4) i', where width = "q_width q" and height = "q_height q"
        and f = "q_format q" and linear = "q_linear q"] full cache_small [OF vk(2)]
    by (simp add: Let_def)
qed

theorem modifier_cache_transparent_witness:
  "\<exists>tr rs vk. alloc_history demo_host [demo_req False] alloc_vk_zero = Some (tr, rs, vk) \<and>
    result_of (vtest_gpu_alloc_image demo_host demo_driver 64 64 ALLOC_DRM_FORMAT_ABGR8888 False vk) =
    result_of (vtest_gpu_alloc_image demo_host demo_driver 64 64 ALLOC_DRM_FORMAT_ABGR8888 False
      (vk\<lparr>vk_modifier_cache := []\<rparr>))"
proof -
  let ?mc = "g_mod_count demo_driver" and ?ml = "g_mod_list demo_driver"
  have l: "list_all (same_lists ?mc ?ml) [demo_req False]" by (simp add: demo_same)
  obtain tr rs vk where run: "alloc_history demo_host [demo_req False] alloc_vk_zero = Some (tr, rs, vk)"
    using history_spec [OF demo_full zero_ok l] by blast
  have "g_calloc (q_driver (demo_req False))" by (simp add: demo_req_def demo_driver_def)
  from modifier_cache_transparent [OF demo_full l demo_same this run] run show ?thesis
    by (auto simp: demo_req_def)
qed



definition demo_cpu :: cpu_env where
  "demo_cpu = \<lparr>c_memfd = 3, c_memfd_errno = 0, c_ftruncate = (\<lambda>_. None), c_ufd = 4, c_ufd_errno = 0,
     c_create = (\<lambda>_. 5), c_create_errno = 0\<rparr>"



end
