(* ===== verification/Gbm_Device.thy ===== *)
theory Gbm_Device
  imports Nv_Prelude
begin

text \<open>
  The native gralloc backend, nvidia-prolapse/gralloc/nvidia_gbm_wrapper.c, first part: the format
  table and the process-wide Vulkan device (\<open>vk_init_locked\<close>, \<open>vk_get\<close>). The dynamic linker, the
  ICD and the allocator answer through the record \<open>icd_env\<close>; the heap blocks and the Vulkan
  instance and device are the resources of the trace.
\<close>

section \<open>Formats\<close>

definition fourcc_code :: "char \<Rightarrow> char \<Rightarrow> char \<Rightarrow> char \<Rightarrow> u32" where
  "fourcc_code a b c d = of_char a OR push_bit 8 (of_char b) OR push_bit 16 (of_char c) OR push_bit 24 (of_char d)"

definition DRM_FORMAT_R8 :: u32 where "DRM_FORMAT_R8 = fourcc_code CHR ''R'' CHR ''8'' CHR '' '' CHR '' ''"
definition DRM_FORMAT_RGB565 :: u32 where "DRM_FORMAT_RGB565 = fourcc_code CHR ''R'' CHR ''G'' CHR ''1'' CHR ''6''"
definition DRM_FORMAT_XRGB8888 :: u32 where "DRM_FORMAT_XRGB8888 = fourcc_code CHR ''X'' CHR ''R'' CHR ''2'' CHR ''4''"
definition DRM_FORMAT_ARGB8888 :: u32 where "DRM_FORMAT_ARGB8888 = fourcc_code CHR ''A'' CHR ''R'' CHR ''2'' CHR ''4''"
definition DRM_FORMAT_XBGR8888 :: u32 where "DRM_FORMAT_XBGR8888 = fourcc_code CHR ''X'' CHR ''B'' CHR ''2'' CHR ''4''"
definition DRM_FORMAT_ABGR8888 :: u32 where "DRM_FORMAT_ABGR8888 = fourcc_code CHR ''A'' CHR ''B'' CHR ''2'' CHR ''4''"
definition DRM_FORMAT_ABGR2101010 :: u32 where "DRM_FORMAT_ABGR2101010 = fourcc_code CHR ''A'' CHR ''B'' CHR ''3'' CHR ''0''"
definition DRM_FORMAT_ABGR16161616F :: u32 where "DRM_FORMAT_ABGR16161616F = fourcc_code CHR ''A'' CHR ''B'' CHR ''4'' CHR ''H''"
definition DRM_FORMAT_NV12 :: u32 where "DRM_FORMAT_NV12 = fourcc_code CHR ''N'' CHR ''V'' CHR ''1'' CHR ''2''"
definition DRM_FORMAT_P010 :: u32 where "DRM_FORMAT_P010 = fourcc_code CHR ''P'' CHR ''0'' CHR ''1'' CHR ''0''"

definition DRM_FORMAT_MOD_LINEAR :: u64 where "DRM_FORMAT_MOD_LINEAR = 0"
definition DRM_FORMAT_MOD_INVALID :: u64 where "DRM_FORMAT_MOD_INVALID = 0x00FFFFFFFFFFFFFF"

text \<open>Vulkan formats by their number in vulkan_core.h; 0 is VK_FORMAT_UNDEFINED.\<close>

record nvg_format =
  nf_drm :: u32
  nf_vk :: nat
  nf_srgb :: nat
  nf_bpp :: u32

definition nvg_formats :: "nvg_format list" where
  "nvg_formats =
   [\<lparr>nf_drm = DRM_FORMAT_R8, nf_vk = 9, nf_srgb = 0, nf_bpp = 1\<rparr>,
    \<lparr>nf_drm = DRM_FORMAT_RGB565, nf_vk = 4, nf_srgb = 0, nf_bpp = 2\<rparr>,
    \<lparr>nf_drm = DRM_FORMAT_XRGB8888, nf_vk = 44, nf_srgb = 50, nf_bpp = 4\<rparr>,
    \<lparr>nf_drm = DRM_FORMAT_ARGB8888, nf_vk = 44, nf_srgb = 50, nf_bpp = 4\<rparr>,
    \<lparr>nf_drm = DRM_FORMAT_XBGR8888, nf_vk = 37, nf_srgb = 43, nf_bpp = 4\<rparr>,
    \<lparr>nf_drm = DRM_FORMAT_ABGR8888, nf_vk = 37, nf_srgb = 43, nf_bpp = 4\<rparr>,
    \<lparr>nf_drm = DRM_FORMAT_ABGR2101010, nf_vk = 64, nf_srgb = 0, nf_bpp = 4\<rparr>,
    \<lparr>nf_drm = DRM_FORMAT_ABGR16161616F, nf_vk = 97, nf_srgb = 0, nf_bpp = 8\<rparr>]"

definition find_format :: "u32 \<Rightarrow> nvg_format option" where
  "find_format f = find (\<lambda>e. nf_drm e = f) nvg_formats"

definition nvg_get_gbm_format :: "u32 \<Rightarrow> u32" where
  "nvg_get_gbm_format f = (if find_format f \<noteq> None then f else 0)"

text \<open>A gralloc device: the device number of the DRM node, if it is a character device.\<close>

definition nvg_dev_create :: "bool \<Rightarrow> int \<Rightarrow> (bool \<times> (nat \<times> nat) option) option \<Rightarrow> (nat \<times> nat) option option" where
  "nvg_dev_create calloc_ok fd fstat =
    (if \<not> calloc_ok then None
     else Some (if fd \<ge> 0 then (case fstat of Some (is_chr, rdev) \<Rightarrow> if is_chr then rdev else None | None \<Rightarrow> None)
                else None))"

section \<open>The process-wide device\<close>

definition NVG_VENDOR_NVIDIA :: u32 where "NVG_VENDOR_NVIDIA = 0x10de"
definition NVG_ICD_INTERFACE_VERSION :: u32 where "NVG_ICD_INTERFACE_VERSION = 5"

definition nvg_device_exts :: "string list" where
  "nvg_device_exts = [''VK_KHR_external_memory_fd'', ''VK_EXT_external_memory_dma_buf'',
     ''VK_EXT_image_drm_format_modifier'', ''VK_KHR_image_format_list'']"

definition instance_fns :: "string list" where
  "instance_fns = [''vkEnumeratePhysicalDevices'', ''vkGetPhysicalDeviceProperties'', ''vkGetPhysicalDeviceProperties2'',
     ''vkEnumerateDeviceExtensionProperties'', ''vkGetPhysicalDeviceQueueFamilyProperties'',
     ''vkGetPhysicalDeviceMemoryProperties'', ''vkCreateDevice'', ''vkGetDeviceProcAddr'', ''vkDestroyInstance'',
     ''vkGetPhysicalDeviceFormatProperties2'', ''vkGetPhysicalDeviceImageFormatProperties2'']"

definition device_fns :: "string list" where
  "device_fns = [''vkCreateImage'', ''vkDestroyImage'', ''vkGetImageMemoryRequirements'', ''vkGetImageMemoryRequirements2'',
     ''vkGetImageSubresourceLayout'', ''vkGetImageDrmFormatModifierPropertiesEXT'', ''vkAllocateMemory'', ''vkFreeMemory'',
     ''vkBindImageMemory'', ''vkGetMemoryFdKHR'', ''vkGetDeviceQueue'', ''vkGetMemoryFdPropertiesKHR'', ''vkCreateBuffer'',
     ''vkDestroyBuffer'', ''vkGetBufferMemoryRequirements'', ''vkBindBufferMemory'', ''vkMapMemory'', ''vkUnmapMemory'',
     ''vkFlushMappedMemoryRanges'', ''vkInvalidateMappedMemoryRanges'', ''vkCreateCommandPool'', ''vkAllocateCommandBuffers'',
     ''vkResetCommandBuffer'', ''vkBeginCommandBuffer'', ''vkEndCommandBuffer'', ''vkCmdPipelineBarrier'',
     ''vkCmdCopyImageToBuffer'', ''vkCmdCopyBufferToImage'', ''vkQueueSubmit'', ''vkCreateFence'', ''vkWaitForFences'',
     ''vkResetFences'']"

text \<open>What the ICD says of one physical device, and whether the two queries and the calloc for its extensions succeed.\<close>

record nvg_pd =
  x_pd :: handle
  x_vendor :: u32
  x_count_ok :: bool
  x_calloc :: bool
  x_list_ok :: bool
  x_exts :: "string list"
  x_render :: "(nat \<times> nat) option"
  x_queues :: "u32 list"
  x_mem :: "u32 list"

record icd_env =
  e_dlopen :: bool
  e_negotiate_sym :: bool
  e_gipa :: bool
  e_negotiate :: vk_result
  e_iface :: u32
  e_create_sym :: bool
  e_create_instance :: vk_result
  e_instance_fn :: "string \<Rightarrow> bool"
  e_enum1 :: vk_result
  e_calloc_pds :: bool
  e_calloc_infos :: bool
  e_enum2 :: vk_result
  e_pds :: "nvg_pd list"
  e_create_device :: vk_result
  e_device_fn :: "string \<Rightarrow> bool"

record nvg_vk =
  v_icd :: bool
  v_gipa :: bool
  v_instance :: bool
  v_destroy_instance :: bool
  v_pd :: "nvg_pd option"
  v_qf :: nat
  v_device :: bool
  v_memprops :: "u32 list"
  v_queue :: bool

definition nvg_vk_zero :: nvg_vk where
  "nvg_vk_zero = \<lparr>v_icd = False, v_gipa = False, v_instance = False, v_destroy_instance = False, v_pd = None, v_qf = 0,
     v_device = False, v_memprops = [], v_queue = False\<rparr>"

datatype dev_res = PdsMem | InfosMem | ExtsMem nat | VkInst | VkDev | VkImg | VkMem | DmaFd int

definition has_ext :: "string list \<Rightarrow> string \<Rightarrow> bool" where
  "has_ext exts name \<longleftrightarrow> name \<in> set exts"

text \<open>
  The loop over the physical devices: the NVIDIA ones, at most sixteen, with the memory of their
  extension lists; it stops with a failure at the first one whose extensions cannot be listed.
\<close>

fun scan_pds :: "nat \<Rightarrow> nvg_pd list \<Rightarrow> nvg_pd list \<Rightarrow> bool \<times> dev_res ev list \<times> nat list \<times> nvg_pd list" where
  "scan_pds i [] nv = (True, [], [], nv)"
| "scan_pds i (p # ps) nv =
    (if x_vendor p \<noteq> NVG_VENDOR_NVIDIA then scan_pds (Suc i) ps nv
     else if \<not> x_count_ok p \<or> \<not> x_calloc p then (False, [], [], nv)
     else if \<not> x_list_ok p then (False, [Acq (ExtsMem i)], [i], nv)
     else let (ok, tr, held, nv') = scan_pds (Suc i) ps (if length nv < 16 then nv @ [p] else nv)
          in (ok, Acq (ExtsMem i) # tr, i # held, nv'))"

definition x_has_drm :: "nvg_pd \<Rightarrow> bool" where
  "x_has_drm p \<longleftrightarrow> has_ext (x_exts p) ''VK_EXT_physical_device_drm''"

text \<open>\<open>rdev\<close> is None for 0, otherwise the major and minor number; the last match of the loop wins.\<close>

definition matches_rdev :: "(nat \<times> nat) option \<Rightarrow> nvg_pd \<Rightarrow> bool" where
  "matches_rdev rdev p \<longleftrightarrow> rdev \<noteq> None \<and> x_has_drm p \<and> x_render p \<noteq> None \<and> x_render p = rdev"

fun pick_rdev :: "(nat \<times> nat) option \<Rightarrow> nvg_pd list \<Rightarrow> nvg_pd option \<Rightarrow> nvg_pd option" where
  "pick_rdev rdev [] pick = pick"
| "pick_rdev rdev (p # ps) pick = pick_rdev rdev ps (if matches_rdev rdev p then Some p else pick)"

definition pick_gpu :: "(nat \<times> nat) option \<Rightarrow> nvg_pd list \<Rightarrow> nvg_pd option" where
  "pick_gpu rdev nv =
    (case pick_rdev rdev nv None of
       Some p \<Rightarrow> Some p
     | None \<Rightarrow> if length nv = 1 then Some (hd nv) else None)"

definition VK_QUEUE_GRAPHICS_BIT :: u32 where "VK_QUEUE_GRAPHICS_BIT = 1"

fun find_graphics :: "nat \<Rightarrow> u32 list \<Rightarrow> nat option" where
  "find_graphics i [] = None"
| "find_graphics i (q # qs) = (if q AND VK_QUEUE_GRAPHICS_BIT \<noteq> 0 then Some i else find_graphics (Suc i) qs)"

text \<open>From the choice of the device to the end: the answer, the state and the device if it was made.\<close>

definition open_device :: "icd_env \<Rightarrow> nvg_pd \<Rightarrow> nvg_vk \<Rightarrow> int \<times> nvg_vk \<times> dev_res ev list" where
  "open_device e pick vk0 =
    (let vk1 = vk0\<lparr>v_pd := Some pick\<rparr> in
     if \<not> list_all (has_ext (x_exts pick)) nvg_device_exts then (- ENODEV, vk1, [])
     else if \<not> has_ext (x_exts pick) ''VK_KHR_format_feature_flags2'' then (- ENODEV, vk1, [])
     else case find_graphics 0 (take 32 (x_queues pick)) of
       None \<Rightarrow> (- ENODEV, vk1, [])
     | Some qf \<Rightarrow>
         let vk2 = vk1\<lparr>v_qf := qf\<rparr> in
         if e_create_device e \<noteq> VK_SUCCESS then (- ENODEV, vk2, [])
         else let vk3 = vk2\<lparr>v_device := True, v_memprops := x_mem pick\<rparr> in
         if \<not> list_all (e_device_fn e) device_fns then (- ENODEV, vk3, [Acq VkDev])
         else (0, vk3\<lparr>v_queue := True\<rparr>, [Acq VkDev]))"

text \<open>The label \<open>out\<close>: free the lists, and on failure destroy the instance if no device uses it.\<close>

definition release_lists :: "bool \<Rightarrow> bool \<Rightarrow> nat list \<Rightarrow> dev_res ev list" where
  "release_lists pds infos held =
    (if infos then map (\<lambda>i. Rel (ExtsMem i)) held @ [Rel InfosMem] else []) @ (if pds then [Rel PdsMem] else [])"

definition init_out :: "int \<Rightarrow> nvg_vk \<Rightarrow> nvg_vk \<times> dev_res ev list" where
  "init_out ret vk =
    (if ret \<noteq> 0 \<and> \<not> v_device vk \<and> v_instance vk \<and> v_destroy_instance vk
     then (vk\<lparr>v_instance := False\<rparr>, [Rel VkInst]) else (vk, []))"

text \<open>The part between the instance functions and the label \<open>out\<close>.\<close>

definition find_and_open :: "icd_env \<Rightarrow> (nat \<times> nat) option \<Rightarrow> nvg_vk \<Rightarrow> int \<times> nvg_vk \<times> dev_res ev list" where
  "find_and_open e rdev vk =
    (let lists = (if e_calloc_pds e then [Acq PdsMem] else []) @ (if e_calloc_infos e then [Acq InfosMem] else []) in
     if e_enum1 e \<noteq> VK_SUCCESS \<or> e_pds e = [] then (- ENODEV, vk, [])
     else if \<not> e_calloc_pds e \<or> \<not> e_calloc_infos e
     then (- ENOMEM, vk, lists @ release_lists (e_calloc_pds e) (e_calloc_infos e) [])
     else if e_enum2 e \<noteq> VK_SUCCESS then (- ENODEV, vk, lists @ release_lists True True [])
     else let (ok, tr, held, nv) = scan_pds 0 (e_pds e) []
       in if \<not> ok then (- ENODEV, vk, lists @ tr @ release_lists True True held)
       else case (if nv = [] then None else pick_gpu rdev nv) of
         None \<Rightarrow> (- ENODEV, vk, lists @ tr @ release_lists True True held)
       | Some pick \<Rightarrow>
           let (ret, vk', tr') = open_device e pick vk
           in (ret, vk', lists @ tr @ tr' @ release_lists True True held))"

definition vk_init_locked :: "icd_env \<Rightarrow> (nat \<times> nat) option \<Rightarrow> nvg_vk \<Rightarrow> int \<times> nvg_vk \<times> dev_res ev list" where
  "vk_init_locked e rdev vk0 =
    (let vk1 = vk0\<lparr>v_icd := e_dlopen e\<rparr> in
     if \<not> e_dlopen e then (- ENODEV, vk1, [])
     else let vk2 = vk1\<lparr>v_gipa := e_gipa e\<rparr> in
     if \<not> e_negotiate_sym e \<or> \<not> e_gipa e then (- ENODEV, vk2, [])
     else if e_negotiate e \<noteq> VK_SUCCESS \<or> e_iface e < NVG_ICD_INTERFACE_VERSION then (- ENODEV, vk2, [])
     else if \<not> e_create_sym e then (- ENODEV, vk2, [])
     else if e_create_instance e \<noteq> VK_SUCCESS then (- ENODEV, vk2\<lparr>v_instance := False\<rparr>, [])
     else let vk3 = vk2\<lparr>v_instance := True\<rparr>;
              (ret, vk4, tr) =
                (if \<not> list_all (e_instance_fn e) instance_fns then (- ENODEV, vk3, [])
                 else find_and_open e rdev (vk3\<lparr>v_destroy_instance := True\<rparr>));
              (vk5, tr') = init_out ret vk4
          in (ret, vk5, [Acq VkInst] @ tr @ tr'))"

record gbm_global =
  g_vk :: nvg_vk
  g_vk_state :: int

definition gbm_global_zero :: gbm_global where
  "gbm_global_zero = \<lparr>g_vk = nvg_vk_zero, g_vk_state = 0\<rparr>"

definition vk_get :: "icd_env \<Rightarrow> (nat \<times> nat) option \<Rightarrow> gbm_global \<Rightarrow> nvg_vk option \<times> gbm_global \<times> dev_res ev list" where
  "vk_get e rdev g =
    (let (g', tr) = (if g_vk_state g = 0
                     then case vk_init_locked e rdev (g_vk g) of
                            (ret, vk, tr) \<Rightarrow> (\<lparr>g_vk = vk, g_vk_state = (if ret \<noteq> 0 then -1 else 1)\<rparr>, tr)
                     else (g, []))
     in ((if g_vk_state g' < 0 then None else Some (g_vk g')), g', tr))"

section \<open>Resources of the initialisation\<close>

lemma scan_pds_run:
  "scan_pds i ps nv = (ok, tr, held, nv') \<Longrightarrow> run_ev M tr = Some (M + mset (map ExtsMem held))"
proof (induction i ps nv arbitrary: ok tr held nv' M rule: scan_pds.induct)
  case (2 i p ps nv)
  show ?case
  proof (cases "x_vendor p \<noteq> NVG_VENDOR_NVIDIA \<or> \<not> x_count_ok p \<or> \<not> x_calloc p \<or> \<not> x_list_ok p")
    case True
    then show ?thesis using 2 by (auto split: if_splits)
  next
    case False
    let ?nv = "if length nv < 16 then nv @ [p] else nv"
    obtain tr2 held2 where rest: "scan_pds (Suc i) ps ?nv = (ok, tr2, held2, nv')" "tr = Acq (ExtsMem i) # tr2" "held = i # held2"
      using False 2(3) by (auto split: prod.splits)
    have "run_ev (add_mset (ExtsMem i) M) tr2 = Some (add_mset (ExtsMem i) M + mset (map ExtsMem held2))"
      by (rule 2(2)) (use False rest in auto)
    then show ?thesis using rest by simp
  qed
qed simp

lemma release_exts_run: "run_ev (K + mset (map ExtsMem held)) (map (\<lambda>i. Rel (ExtsMem i)) held) = Some K"
  by (induction held) auto

lemma release_lists_run:
  "run_ev (add_mset InfosMem (add_mset PdsMem (K + mset (map ExtsMem held)))) (release_lists True True held) = Some K"
  using release_exts_run [of "add_mset InfosMem (add_mset PdsMem K)" held]
  by (simp add: release_lists_def run_ev_append)

lemma scan_pds_nv: "scan_pds i ps nv = (ok, tr, held, nv') \<Longrightarrow> set nv' \<subseteq> set nv \<union> {p \<in> set ps. x_vendor p = NVG_VENDOR_NVIDIA}"
proof (induction i ps nv arbitrary: ok tr held nv' rule: scan_pds.induct)
  case (2 i p ps nv)
  show ?case
  proof (cases "x_vendor p \<noteq> NVG_VENDOR_NVIDIA \<or> \<not> x_count_ok p \<or> \<not> x_calloc p \<or> \<not> x_list_ok p")
    case True
    then show ?thesis using 2 by (auto split: if_splits)
  next
    case False
    let ?nv = "if length nv < 16 then nv @ [p] else nv"
    obtain tr2 held2 where rest: "scan_pds (Suc i) ps ?nv = (ok, tr2, held2, nv')"
      using False 2(3) by (auto split: prod.splits)
    have "set nv' \<subseteq> set ?nv \<union> {p \<in> set ps. x_vendor p = NVG_VENDOR_NVIDIA}"
      by (rule 2(2)) (use False rest in auto)
    moreover have "set ?nv \<subseteq> insert p (set nv)" by auto
    ultimately show ?thesis using False by auto
  qed
qed simp

definition dev_holds :: "nvg_vk \<Rightarrow> dev_res multiset" where
  "dev_holds vk = (if v_instance vk then {#VkInst#} else {#}) + (if v_device vk then {#VkDev#} else {#})"

lemma open_device_run:
  assumes "open_device e pick vk = (ret, vk', tr)" "\<not> v_device vk"
  shows "run_ev M tr = Some (M + (if v_device vk' then {#VkDev#} else {#}))" "v_instance vk' = v_instance vk"
    "v_destroy_instance vk' = v_destroy_instance vk"
  using assms by (auto simp: open_device_def Let_def split: if_splits option.splits)

lemma find_and_open_run:
  assumes "find_and_open e rdev vk = (ret, vk', tr)" "\<not> v_device vk"
  shows "run_ev M tr = Some (M + (if v_device vk' then {#VkDev#} else {#})) \<and> v_instance vk' = v_instance vk \<and>
    v_destroy_instance vk' = v_destroy_instance vk"
proof -
  obtain ok tr1 held nv where scan: "scan_pds 0 (e_pds e) [] = (ok, tr1, held, nv)" by (cases "scan_pds 0 (e_pds e) []")
  note s = scan_pds_run [OF scan]
  define pick where "pick = (if nv = [] then None else pick_gpu rdev nv)"
  have balanced: "run_ev M ([Acq PdsMem, Acq InfosMem] @ tr1 @ release_lists True True held) = Some M"
    using s release_lists_run [of M held] by (simp add: run_ev_append)
  consider (early) "e_enum1 e \<noteq> VK_SUCCESS \<or> e_pds e = [] \<or> \<not> e_calloc_pds e \<or> \<not> e_calloc_infos e \<or> e_enum2 e \<noteq> VK_SUCCESS"
    | (none) "e_enum1 e = VK_SUCCESS" "e_pds e \<noteq> []" "e_calloc_pds e" "e_calloc_infos e" "e_enum2 e = VK_SUCCESS" "\<not> ok \<or> pick = None"
    | (some) p where "e_enum1 e = VK_SUCCESS" "e_pds e \<noteq> []" "e_calloc_pds e" "e_calloc_infos e" "e_enum2 e = VK_SUCCESS" "ok" "pick = Some p"
    by blast
  then show ?thesis
  proof cases
    case early
    then show ?thesis using assms by (auto simp: find_and_open_def Let_def release_lists_def split: if_splits)
  next
    case none
    then show ?thesis using assms scan balanced by (auto simp: find_and_open_def Let_def pick_def [symmetric] split: if_splits)
  next
    case (some p)
    obtain ret' vk1 tr2 where o: "open_device e p vk = (ret', vk1, tr2)" by (cases "open_device e p vk")
    then have "tr = [Acq PdsMem, Acq InfosMem] @ tr1 @ tr2 @ release_lists True True held" "vk' = vk1"
      using some assms(1) scan by (auto simp: find_and_open_def Let_def pick_def [symmetric])
    then show ?thesis
      using open_device_run [OF o assms(2)] s release_lists_run [of "M + (if v_device vk1 then {#VkDev#} else {#})" held]
      by (cases "v_device vk1") (simp_all add: run_ev_append add_mset_commute)
  qed
qed

lemma init_run:
  assumes "vk_init_locked e rdev vk = (ret, vk', tr)" "\<not> v_instance vk" "\<not> v_device vk"
  shows "run_ev {#} tr = Some (dev_holds vk')"
proof (cases "e_dlopen e \<and> e_negotiate_sym e \<and> e_gipa e \<and> e_negotiate e = VK_SUCCESS \<and>
    \<not> e_iface e < NVG_ICD_INTERFACE_VERSION \<and> e_create_sym e \<and> e_create_instance e = VK_SUCCESS")
  case False
  then show ?thesis using assms by (auto simp: vk_init_locked_def dev_holds_def Let_def split: if_splits)
next
  case True
  define vk3 where "vk3 = vk\<lparr>v_icd := True, v_gipa := True, v_instance := True\<rparr>"
  define R where "R = (if \<not> list_all (e_instance_fn e) instance_fns then (- ENODEV, vk3, [])
                 else find_and_open e rdev (vk3\<lparr>v_destroy_instance := True\<rparr>))"
  obtain r vk4 tr1 where R: "R = (r, vk4, tr1)" by (cases R)
  have four: "run_ev {#VkInst#} tr1 = Some ({#VkInst#} + (if v_device vk4 then {#VkDev#} else {#}))" "v_instance vk4"
    using R find_and_open_run [of e rdev "vk3\<lparr>v_destroy_instance := True\<rparr>" r vk4 tr1 "{#VkInst#}"] assms(3)
    by (auto simp: R_def vk3_def split: if_splits)
  obtain vk5 tr2 where out: "init_out r vk4 = (vk5, tr2)" by (cases "init_out r vk4")
  have "vk_init_locked e rdev vk =
    (case R of (ret, vk4, tr) \<Rightarrow> case init_out ret vk4 of (vk5, tr') \<Rightarrow> (ret, vk5, [Acq VkInst] @ tr @ tr'))"
    using True by (simp add: vk_init_locked_def R_def vk3_def Let_def split_def)
  then have "tr = [Acq VkInst] @ tr1 @ tr2" "vk' = vk5" using assms(1) R out by simp_all
  moreover have "run_ev ({#VkInst#} + (if v_device vk4 then {#VkDev#} else {#})) tr2 = Some (dev_holds vk5)"
    using out four(2) by (auto simp: init_out_def dev_holds_def split: if_splits)
  ultimately show ?thesis using four(1) by (simp add: run_ev_append)
qed

section \<open>The chosen device\<close>

lemma find_graphics_spec:
  "find_graphics i qs = Some q \<Longrightarrow> i \<le> q \<and> q < i + length qs \<and> qs ! (q - i) AND VK_QUEUE_GRAPHICS_BIT \<noteq> 0"
proof (induction i qs rule: find_graphics.induct)
  case (2 i x qs)
  show ?case
  proof (cases "x AND VK_QUEUE_GRAPHICS_BIT \<noteq> 0")
    case True
    then show ?thesis using 2 by simp
  next
    case False
    then have ih: "Suc i \<le> q" "q < Suc i + length qs" "qs ! (q - Suc i) AND VK_QUEUE_GRAPHICS_BIT \<noteq> 0" using 2 by auto
    moreover have "(x # qs) ! (q - i) = qs ! (q - Suc i)" using ih(1) by (simp add: nth_Cons')
    ultimately show ?thesis by simp
  qed
qed simp

lemma pick_rdev_spec:
  "pick_rdev rdev ps acc = Some p \<Longrightarrow> acc = Some p \<or> p \<in> set ps \<and> matches_rdev rdev p"
  "pick_rdev rdev ps acc = None \<longleftrightarrow> acc = None \<and> (\<forall>p\<in>set ps. \<not> matches_rdev rdev p)"
  by (induction rdev ps acc rule: pick_rdev.induct) (auto split: if_splits)

lemma pick_gpu_spec:
  assumes "pick_gpu rdev nv = Some p"
  shows "p \<in> set nv \<and> ((\<exists>q\<in>set nv. matches_rdev rdev q) \<longrightarrow> matches_rdev rdev p) \<and>
    ((\<exists>q\<in>set nv. matches_rdev rdev q) \<or> nv = [p])"
proof (cases "pick_rdev rdev nv None")
  case None
  then show ?thesis using assms pick_rdev_spec(2) [of rdev nv None]
    by (cases nv) (auto simp: pick_gpu_def split: if_splits)
next
  case (Some q)
  then show ?thesis using assms pick_rdev_spec(1) [of rdev nv None q] by (auto simp: pick_gpu_def)
qed

text \<open>What a ready device promises its users.\<close>

definition good_device :: "icd_env \<Rightarrow> (nat \<times> nat) option \<Rightarrow> nvg_vk \<Rightarrow> bool" where
  "good_device e rdev vk \<longleftrightarrow>
    v_icd vk \<and> v_instance vk \<and> v_device vk \<and> v_queue vk \<and> list_all (e_device_fn e) device_fns \<and>
    (case v_pd vk of
       None \<Rightarrow> False
     | Some p \<Rightarrow> p \<in> set (e_pds e) \<and> x_vendor p = NVG_VENDOR_NVIDIA \<and> set nvg_device_exts \<subseteq> set (x_exts p) \<and>
         v_memprops vk = x_mem p \<and> v_qf vk < length (x_queues p) \<and> x_queues p ! v_qf vk AND VK_QUEUE_GRAPHICS_BIT \<noteq> 0 \<and>
         (matches_rdev rdev p \<or> (\<forall>q\<in>set (snd (snd (snd (scan_pds 0 (e_pds e) [])))). q = p)))"

lemma open_device_good:
  assumes "open_device e p vk = (0, vk', tr)" "v_icd vk" "v_instance vk"
  shows "v_icd vk' \<and> v_instance vk' \<and> v_device vk' \<and> v_queue vk' \<and> list_all (e_device_fn e) device_fns \<and> v_pd vk' = Some p \<and>
    set nvg_device_exts \<subseteq> set (x_exts p) \<and> v_memprops vk' = x_mem p \<and> v_qf vk' < length (x_queues p) \<and>
    x_queues p ! v_qf vk' AND VK_QUEUE_GRAPHICS_BIT \<noteq> 0"
proof -
  obtain q where q: "find_graphics 0 (take 32 (x_queues p)) = Some q"
    and vk': "vk' = vk\<lparr>v_pd := Some p, v_qf := q, v_device := True, v_memprops := x_mem p, v_queue := True\<rparr>"
    and all: "list_all (e_device_fn e) device_fns" "list_all (has_ext (x_exts p)) nvg_device_exts"
    using assms(1) by (auto simp: open_device_def Let_def ENODEV_def split: if_splits option.splits)
  have "q < length (x_queues p)" "x_queues p ! q AND VK_QUEUE_GRAPHICS_BIT \<noteq> 0"
    using find_graphics_spec [OF q] by auto
  then show ?thesis unfolding vk' using assms(2,3) all by (auto simp: list_all_iff has_ext_def)
qed

lemma find_and_open_good:
  assumes "find_and_open e rdev vk = (0, vk', tr)" "v_icd vk" "v_instance vk"
  shows "good_device e rdev vk'"
proof -
  obtain ok tr1 held nv where scan: "scan_pds 0 (e_pds e) [] = (ok, tr1, held, nv)" by (cases "scan_pds 0 (e_pds e) []")
  obtain p tr2 where p: "nv \<noteq> []" "pick_gpu rdev nv = Some p" "open_device e p vk = (0, vk', tr2)"
    using assms(1) scan by (auto simp: find_and_open_def Let_def ENODEV_def ENOMEM_def split: if_splits option.splits prod.splits)
  have "p \<in> set (e_pds e)" "x_vendor p = NVG_VENDOR_NVIDIA"
    using pick_gpu_spec [OF p(2)] scan_pds_nv [OF scan] by auto
  moreover have "matches_rdev rdev p \<or> (\<forall>q\<in>set nv. q = p)" using pick_gpu_spec [OF p(2)] by auto
  ultimately show ?thesis using open_device_good [OF p(3) assms(2,3)] scan by (simp add: good_device_def)
qed

lemma init_good:
  assumes "vk_init_locked e rdev vk = (0, vk', tr)"
  shows "good_device e rdev vk'"
proof -
  define vk3 where "vk3 = vk\<lparr>v_icd := True, v_gipa := True, v_instance := True\<rparr>"
  obtain vk4 tr1 where "find_and_open e rdev (vk3\<lparr>v_destroy_instance := True\<rparr>) = (0, vk4, tr1)" "vk' = vk4"
    using assms by (auto simp: vk_init_locked_def init_out_def Let_def vk3_def ENODEV_def split: if_splits prod.splits)
  then show ?thesis using find_and_open_good [of e rdev "vk3\<lparr>v_destroy_instance := True\<rparr>"] by (simp add: vk3_def)
qed

section \<open>Histories of requests for the device\<close>

fun vk_gets :: "(icd_env \<times> (nat \<times> nat) option) list \<Rightarrow> gbm_global \<Rightarrow> nvg_vk option list \<times> gbm_global \<times> dev_res ev list" where
  "vk_gets [] g = ([], g, [])"
| "vk_gets ((e, rdev) # xs) g =
    (let (r, g1, tr1) = vk_get e rdev g; (rs, g2, tr2) = vk_gets xs g1 in (r # rs, g2, tr1 @ tr2))"

definition answer_of :: "gbm_global \<Rightarrow> nvg_vk option" where
  "answer_of g = (if g_vk_state g < 0 then None else Some (g_vk g))"

lemma vk_gets_settled: "g_vk_state g \<noteq> 0 \<Longrightarrow> vk_gets xs g = (replicate (length xs) (answer_of g), g, [])"
  by (induction xs) (auto simp: vk_get_def answer_of_def)

section \<open>Properties\<close>

text \<open>
  C12. The Vulkan device is set up once per process. Whatever requests follow the first one, from
  whichever gralloc device and however the ICD would answer by then, all get the first answer and
  nothing more is created; the lists made during the setup are all freed, and what is still held is
  the instance and the device of the state. If the answer is a device, it is an NVIDIA GPU with every
  extension and function the allocator calls and a graphics queue family, and it is the GPU of the
  caller's render node, or there was only one NVIDIA GPU to choose.
\<close>

theorem vk_get_once:
  "case vk_gets ((e, rdev) # xs) gbm_global_zero of
     (rs, g, tr) \<Rightarrow> rs = replicate (Suc (length xs)) (answer_of g) \<and> run_ev {#} tr = Some (dev_holds (g_vk g)) \<and>
       (case answer_of g of None \<Rightarrow> g_vk_state g = -1 | Some vk \<Rightarrow> vk = g_vk g \<and> good_device e rdev vk)"
proof -
  obtain ret vk tr where i: "vk_init_locked e rdev nvg_vk_zero = (ret, vk, tr)" by (cases "vk_init_locked e rdev nvg_vk_zero")
  define g where "g = \<lparr>g_vk = vk, g_vk_state = (if ret \<noteq> 0 then -1 else 1)\<rparr>"
  have "vk_get e rdev gbm_global_zero = (answer_of g, g, tr)"
    using i by (simp add: vk_get_def gbm_global_zero_def answer_of_def g_def)
  moreover have "vk_gets xs g = (replicate (length xs) (answer_of g), g, [])"
    by (rule vk_gets_settled) (simp add: g_def)
  ultimately have "vk_gets ((e, rdev) # xs) gbm_global_zero = (replicate (Suc (length xs)) (answer_of g), g, tr)" by simp
  moreover have "run_ev {#} tr = Some (dev_holds (g_vk g))"
    using init_run [OF i] by (simp add: nvg_vk_zero_def g_def)
  moreover have "ret = 0 \<Longrightarrow> good_device e rdev vk" using i init_good by simp
  ultimately show ?thesis by (simp add: answer_of_def g_def)
qed

end
