(* ===== verification/Gbm_Alloc.thy ===== *)
theory Gbm_Alloc
  imports Gbm_Abi Gbm_Device
begin

text \<open>
  Allocation in the native gralloc backend, nvidia-prolapse/gralloc/nvidia_gbm_wrapper.c: the block
  height rule (\<open>modifier_fits_height\<close>), \<open>nvg_alloc_impl\<close> with its two entry points, and
  \<open>nvg_plane_layout\<close>. The driver answers through the records \<open>nvg_driver\<close> and \<open>plane_driver\<close>; the
  build switch NVG_SOURCE_RM is an argument.
\<close>

section \<open>Block height\<close>

function gob_log2 :: "u32 \<Rightarrow> u32 \<Rightarrow> u32" where
  "gob_log2 gob_rows max_log2 =
    (if gob_rows > 1 then gob_log2 (gob_rows div 2 + (if gob_rows mod 2 \<noteq> 0 then 1 else 0)) (max_log2 + 1)
     else max_log2)"
  by pat_completeness auto

lemma half_up_nat: "((n::nat) + 1) div 2 = n div 2 + (if n mod 2 \<noteq> 0 then 1 else 0)"
  by presburger

lemma eighth_up_nat: "((n::nat) + 7) div 8 = n div 8 + (if n mod 8 \<noteq> 0 then 1 else 0)"
  by presburger

lemma unat_half_up:
  "unat ((w :: u32) div 2 + (if w mod 2 \<noteq> 0 then 1 else 0)) = (unat w + 1) div 2"
proof -
  have d: "unat (w div 2) = unat w div 2" by (simp add: unat_div)
  have m: "w mod 2 \<noteq> 0 \<longleftrightarrow> unat w mod 2 \<noteq> 0" by (simp add: unat_mod unat_eq_zero [symmetric])
  have "unat w div 2 + 1 < 4294967296" using unat_u32_less [of w] by linarith
  then have "unat (w div 2 + 1) = unat w div 2 + 1" by (simp add: unat_word_ariths d)
  then show ?thesis using d m half_up_nat [of "unat w"] by (cases "w mod 2 \<noteq> 0") simp_all
qed

termination gob_log2
proof (relation "measure (\<lambda>(r, a). unat r)")
  fix gob_rows max_log2 :: u32
  assume "gob_rows > 1"
  then have "unat gob_rows > 1" by (simp add: word_less_nat_alt)
  then show "((gob_rows div 2 + (if gob_rows mod 2 \<noteq> 0 then 1 else 0), max_log2 + 1), (gob_rows, max_log2))
      \<in> measure (\<lambda>(r, a). unat r)"
    by (simp only: in_measure prod.case unat_half_up)
qed simp

declare gob_log2.simps [simp del]

definition modifier_fits_height :: "u64 \<Rightarrow> u32 \<Rightarrow> bool" where
  "modifier_fits_height modifier height =
    (let gob_generation = drop_bit 20 modifier AND 3 in
     if drop_bit 56 modifier \<noteq> 3 \<or> modifier AND 0x10 = 0 \<or> (gob_generation \<noteq> 0 \<and> gob_generation \<noteq> 2) then True
     else modifier AND 0xf \<le> ucast (gob_log2 (height div 8 + (if height mod 8 \<noteq> 0 then 1 else 0)) 0))"

section \<open>Allocation\<close>

definition GBM_ALLOC_FLAG_CPU_READ_OFTEN :: u32 where "GBM_ALLOC_FLAG_CPU_READ_OFTEN = 1"

definition F2_SAMPLED_IMAGE :: u64 where "F2_SAMPLED_IMAGE = 0x1"
definition F2_STORAGE_IMAGE :: u64 where "F2_STORAGE_IMAGE = 0x2"
definition F2_COLOR_ATTACHMENT :: u64 where "F2_COLOR_ATTACHMENT = 0x80"
definition F2_TRANSFER_SRC :: u64 where "F2_TRANSFER_SRC = 0x4000"
definition F2_TRANSFER_DST :: u64 where "F2_TRANSFER_DST = 0x8000"
definition F2_DISJOINT :: u64 where "F2_DISJOINT = 0x400000"

definition USAGE_TRANSFER_SRC :: u32 where "USAGE_TRANSFER_SRC = 0x1"
definition USAGE_TRANSFER_DST :: u32 where "USAGE_TRANSFER_DST = 0x2"
definition USAGE_SAMPLED :: u32 where "USAGE_SAMPLED = 0x4"
definition USAGE_STORAGE :: u32 where "USAGE_STORAGE = 0x8"
definition USAGE_COLOR_ATTACHMENT :: u32 where "USAGE_COLOR_ATTACHMENT = 0x10"

definition MEM_DEVICE_LOCAL :: u32 where "MEM_DEVICE_LOCAL = 1"
definition MEM_HOST_VISIBLE :: u32 where "MEM_HOST_VISIBLE = 2"
definition MEM_HOST_COHERENT :: u32 where "MEM_HOST_COHERENT = 4"
definition MEM_HOST_CACHED :: u32 where "MEM_HOST_CACHED = 8"

definition EXTMEM_EXPORTABLE :: u32 where "EXTMEM_EXPORTABLE = 2"

record mod_props =
  p_modifier :: u64
  p_planes :: u32
  p_features :: u64

record query_answer =
  qa_result :: vk_result
  qa_features :: u32
  qa_max_w :: u32
  qa_max_h :: u32

record nvg_driver =
  d_mod_count :: u32
  d_mods :: "mod_props list"
  d_query :: "u64 \<Rightarrow> u32 \<Rightarrow> query_answer"
  d_create_image :: "u64 list \<Rightarrow> u32 \<Rightarrow> vk_result"
  d_req_size :: u64
  d_req_bits :: u32
  d_allocate :: "u64 \<Rightarrow> nat \<Rightarrow> vk_result"
  d_bind :: vk_result
  d_get_modifier :: vk_result
  d_modifier :: "u64 list \<Rightarrow> u64"
  d_offset :: u64
  d_row_pitch :: u64
  d_get_fd :: vk_result
  d_fd :: int

definition NVG_MAX_MODS :: nat where "NVG_MAX_MODS = 64"

definition need_features :: "bool \<Rightarrow> u64" where
  "need_features linear = F2_SAMPLED_IMAGE OR F2_TRANSFER_SRC OR F2_TRANSFER_DST OR
     (if linear then 0 else F2_COLOR_ATTACHMENT)"

text \<open>The first loop over the driver's modifiers: the candidates and the usage all of them allow.\<close>

record cand =
  k_mods :: "u64 list"
  k_storage :: bool
  k_color :: bool
  k_linear :: bool

fun scan_mods :: "u64 \<Rightarrow> u32 \<Rightarrow> mod_props list \<Rightarrow> cand \<Rightarrow> cand" where
  "scan_mods need h [] c = c"
| "scan_mods need h (p # ps) c =
    (let is_linear = (p_modifier p = DRM_FORMAT_MOD_LINEAR) in
     if p_modifier p = DRM_FORMAT_MOD_INVALID \<or> is_linear \<noteq> k_linear c \<or> p_planes p \<noteq> 1 \<or> (p_features p AND need) \<noteq> need
     then scan_mods need h ps c
     else if \<not> modifier_fits_height (p_modifier p) h then scan_mods need h ps c
     else scan_mods need h ps
       (c\<lparr>k_storage := (k_storage c \<and> p_features p AND F2_STORAGE_IMAGE \<noteq> 0),
          k_color := (k_color c \<and> p_features p AND F2_COLOR_ATTACHMENT \<noteq> 0),
          k_mods := k_mods c @ [p_modifier p]\<rparr>))"

text \<open>The fallback of the source-built driver: LINEAR with the same features.\<close>

definition linear_fallback :: "u64 \<Rightarrow> mod_props list \<Rightarrow> cand \<Rightarrow> cand" where
  "linear_fallback need ps c =
    (case find (\<lambda>p. p_modifier p = DRM_FORMAT_MOD_LINEAR \<and> p_planes p = 1 \<and> (p_features p AND need) = need) ps of
       None \<Rightarrow> c
     | Some p \<Rightarrow> \<lparr>k_mods = [DRM_FORMAT_MOD_LINEAR], k_storage = (p_features p AND F2_STORAGE_IMAGE \<noteq> 0),
                   k_color = True, k_linear = True\<rparr>)"

definition candidates_of :: "bool \<Rightarrow> nvg_driver \<Rightarrow> bool \<Rightarrow> u32 \<Rightarrow> cand" where
  "candidates_of source_rm d linear h =
    (let need = need_features linear;
         ps = take (min (unat (d_mod_count d)) NVG_MAX_MODS) (d_mods d);
         c = scan_mods need h ps \<lparr>k_mods = [], k_storage = True, k_color = True, k_linear = linear\<rparr>
     in if source_rm \<and> k_mods c = [] \<and> \<not> linear then linear_fallback need ps c else c)"

definition image_usage :: "cand \<Rightarrow> u32" where
  "image_usage c = USAGE_SAMPLED OR USAGE_TRANSFER_SRC OR USAGE_TRANSFER_DST OR
     (if k_color c then USAGE_COLOR_ATTACHMENT else 0) OR (if k_storage c then USAGE_STORAGE else 0)"

fun query_mods :: "nvg_driver \<Rightarrow> u32 \<Rightarrow> u32 \<Rightarrow> u32 \<Rightarrow> u64 list \<Rightarrow> u64 list" where
  "query_mods d usage w h [] = []"
| "query_mods d usage w h (x # xs) =
    (let q = d_query d x usage in
     if qa_result q \<noteq> VK_SUCCESS \<or> qa_features q AND EXTMEM_EXPORTABLE = 0 \<or> w > qa_max_w q \<or> h > qa_max_h q
     then query_mods d usage w h xs else x # query_mods d usage w h xs)"

text \<open>The passes over the memory types: host memory first for LINEAR, then device memory.\<close>

definition choose_type :: "bool \<Rightarrow> u32 \<Rightarrow> u32 list \<Rightarrow> u32 \<Rightarrow> nat option" where
  "choose_type linear alloc_flags memtypes bits =
    (let cpu_read_often = (linear \<and> alloc_flags AND GBM_ALLOC_FLAG_CPU_READ_OFTEN \<noteq> 0);
         host = MEM_HOST_VISIBLE OR MEM_HOST_COHERENT OR (if cpu_read_often then MEM_HOST_CACHED else 0);
         pass0 = (if linear then find_mem_type bits host memtypes 0 else None)
     in if pass0 \<noteq> None then pass0
        else if cpu_read_often then None
        else find_mem_type bits MEM_DEVICE_LOCAL memtypes 0)"

definition oom_or_inval :: "vk_result \<Rightarrow> int" where
  "oom_or_inval r = (if r = VK_ERROR_OUT_OF_HOST_MEMORY \<or> r = VK_ERROR_OUT_OF_DEVICE_MEMORY then - ENOMEM else - EINVAL)"

definition bad_layout :: "nvg_driver \<Rightarrow> bool \<Rightarrow> u32 \<Rightarrow> u32 \<Rightarrow> bool" where
  "bad_layout d mappable w bpp \<longleftrightarrow> d_offset d \<noteq> 0 \<or> d_row_pitch d = 0 \<or> d_row_pitch d > 0xFFFFFFFF \<or>
     (mappable \<and> (d_row_pitch d mod ucast bpp \<noteq> 0 \<or> d_row_pitch d < ucast w * ucast bpp))"

text \<open>From the creation of the image to the label \<open>out\<close> and the release of what it made.\<close>

definition make_image :: "nvg_driver \<Rightarrow> u32 list \<Rightarrow> u32 \<Rightarrow> bool \<Rightarrow> cand \<Rightarrow> u64 list \<Rightarrow> u32 \<Rightarrow> u32 \<Rightarrow>
    dev_res ev list \<times> (int + alloc_out)" where
  "make_image d memtypes alloc_flags mappable c mods w bpp =
    (let r = d_create_image d mods (image_usage c) in
     if r \<noteq> VK_SUCCESS then ([], Inl (oom_or_inval r))
     else case choose_type (k_linear c) alloc_flags memtypes (d_req_bits d) of
       None \<Rightarrow> ([Acq VkImg, Rel VkImg], Inl (- EINVAL))
     | Some type \<Rightarrow>
         if d_allocate d (d_req_size d) type \<noteq> VK_SUCCESS then ([Acq VkImg, Rel VkImg], Inl (- ENOMEM))
         else if d_bind d \<noteq> VK_SUCCESS \<or> d_get_modifier d \<noteq> VK_SUCCESS \<or> bad_layout d mappable w bpp \<or>
                 d_get_fd d \<noteq> VK_SUCCESS \<or> d_fd d < 0
         then ([Acq VkImg, Acq VkMem, Rel VkImg, Rel VkMem], Inl (- EINVAL))
         else ([Acq VkImg, Acq VkMem, Acq (DmaFd (d_fd d)), Rel VkImg, Rel VkMem],
               Inr \<lparr>out_fd = d_fd d, out_stride = ucast (d_row_pitch d),
                    out_map_stride = (if \<not> k_linear c \<and> mappable then ucast (d_row_pitch d) else 0),
                    out_modifier = d_modifier d mods\<rparr>))"

text \<open>
  \<open>dev\<close> is None for a NULL device pointer, otherwise the device number of the gralloc device.
\<close>

definition nvg_alloc_impl :: "bool \<Rightarrow> icd_env \<Rightarrow> nvg_driver \<Rightarrow> (nat \<times> nat) option option \<Rightarrow> alloc_args \<Rightarrow> u32 \<Rightarrow>
    gbm_global \<Rightarrow> (dev_res ev list \<times> (int + alloc_out)) \<times> gbm_global" where
  "nvg_alloc_impl source_rm e d dev args alloc_flags g =
    (case dev of
       None \<Rightarrow> (([], Inl (- EINVAL)), g)
     | Some rdev \<Rightarrow>
    (case find_format (a_format args) of
       None \<Rightarrow> (([], Inl (- EINVAL)), g)
     | Some f \<Rightarrow>
    if a_width args = 0 \<or> a_height args = 0 then (([], Inl (- EINVAL)), g)
    else (case vk_get e rdev g of
       (None, g', tr) \<Rightarrow> ((tr, Inl (- ENODEV)), g')
     | (Some vk, g', tr) \<Rightarrow>
         let mappable = (a_force_linear args \<or> a_needs_map_stride args);
             c = candidates_of source_rm d (a_force_linear args) (a_height args);
             mods = query_mods d (image_usage c) (a_width args) (a_height args) (k_mods c)
         in if k_mods c = [] \<or> mods = [] then ((tr, Inl (- EINVAL)), g')
            else let (tr', res) = make_image d (v_memprops vk) alloc_flags mappable c mods (a_width args) (nf_bpp f)
                 in ((tr @ tr', res), g'))))"

definition nvg_alloc :: "bool \<Rightarrow> icd_env \<Rightarrow> nvg_driver \<Rightarrow> (nat \<times> nat) option option \<Rightarrow> alloc_args \<Rightarrow>
    gbm_global \<Rightarrow> (dev_res ev list \<times> (int + alloc_out)) \<times> gbm_global" where
  "nvg_alloc source_rm e d dev args g = nvg_alloc_impl source_rm e d dev args 0 g"

definition nvg_alloc_flags :: "bool \<Rightarrow> icd_env \<Rightarrow> nvg_driver \<Rightarrow> (nat \<times> nat) option option \<Rightarrow> alloc_args \<Rightarrow> u32 \<Rightarrow>
    gbm_global \<Rightarrow> (dev_res ev list \<times> (int + alloc_out)) \<times> gbm_global" where
  "nvg_alloc_flags source_rm e d dev args flags g =
    (if flags AND NOT GBM_ALLOC_FLAG_CPU_READ_OFTEN \<noteq> 0 then (([], Inl (- EINVAL)), g)
     else nvg_alloc_impl source_rm e d dev args flags g)"

section \<open>Planes of video buffers\<close>

text \<open>
  \<open>pl_disjoint\<close> answers the first image creation, \<open>pl_whole\<close> the second one for the two offsets,
  \<open>pl_req\<close> the size and alignment of each plane, \<open>pl_size\<close> the size of the whole image.
\<close>

record plane_driver =
  pl_mod_count :: u32
  pl_mods :: "mod_props list"
  pl_disjoint :: vk_result
  pl_req :: "nat \<Rightarrow> u64 \<times> u64"
  pl_whole :: "u64 \<Rightarrow> u64 \<Rightarrow> vk_result"
  pl_size :: u64

definition plane_features :: "plane_driver \<Rightarrow> u64" where
  "plane_features d = fold (\<lambda>p feat. if p_modifier p = DRM_FORMAT_MOD_LINEAR \<and> p_planes p = 2 then p_features p else feat)
     (take (min (unat (pl_mod_count d)) NVG_MAX_MODS) (pl_mods d)) 0"

definition place_plane :: "u64 \<times> u64 \<Rightarrow> u32 \<Rightarrow> u64 \<Rightarrow> u64" where
  "place_plane req offset pend =
    (let a = (if snd req \<noteq> 0 then snd req else 1);
         o1 = (if ucast offset > pend then ucast offset else pend)
     in (o1 + a - 1) div a * a)"

definition nvg_plane_layout :: "icd_env \<Rightarrow> plane_driver \<Rightarrow> (nat \<times> nat) option option \<Rightarrow> u32 \<Rightarrow> u32 \<Rightarrow> u32 \<Rightarrow> u32 \<Rightarrow>
    u32 \<times> u32 \<Rightarrow> gbm_global \<Rightarrow> (dev_res ev list \<times> (int + u32 \<times> u32 \<times> u64)) \<times> gbm_global" where
  "nvg_plane_layout e d dev drm_format width height num_planes offsets g =
    (if drm_format \<noteq> DRM_FORMAT_NV12 \<and> drm_format \<noteq> DRM_FORMAT_P010 then (([], Inl (- EINVAL)), g)
     else case dev of None \<Rightarrow> (([], Inl (- EINVAL)), g) | Some rdev \<Rightarrow>
     if num_planes \<noteq> 2 \<or> width = 0 \<or> height = 0 then (([], Inl (- EINVAL)), g)
     else case vk_get e rdev g of
       (None, g', tr) \<Rightarrow> ((tr, Inl (- ENODEV)), g')
     | (Some vk, g', tr) \<Rightarrow>
         if plane_features d AND F2_DISJOINT = 0 then ((tr, Inl (- EINVAL)), g')
         else if pl_disjoint d \<noteq> VK_SUCCESS then ((tr, Inl (oom_or_inval (pl_disjoint d))), g')
         else let tr1 = tr @ [Acq VkImg, Rel VkImg];
                  o0 = place_plane (pl_req d 0) (fst offsets) 0;
                  end0 = o0 + fst (pl_req d 0);
                  o1 = place_plane (pl_req d 1) (snd offsets) end0;
                  end1 = o1 + fst (pl_req d 1)
         in if o0 > 0xFFFFFFFF \<or> o1 > 0xFFFFFFFF then ((tr1, Inl (- EINVAL)), g')
            else if pl_whole d o0 o1 \<noteq> VK_SUCCESS then ((tr1, Inl (oom_or_inval (pl_whole d o0 o1))), g')
            else ((tr1 @ [Acq VkImg, Rel VkImg],
                   Inr (ucast o0, ucast o1, if pl_size d > end1 then pl_size d else end1)), g'))"

section \<open>The block height rule\<close>

definition ceil_log2 :: "nat \<Rightarrow> nat" where
  "ceil_log2 n = (LEAST k. n \<le> 2 ^ k)"

lemma ceil_log2_le: "ceil_log2 n \<le> k \<longleftrightarrow> n \<le> 2 ^ k"
proof
  have ex: "n \<le> 2 ^ ceil_log2 n" unfolding ceil_log2_def by (rule LeastI [of _ n]) (simp add: less_imp_le [OF less_exp])
  assume "ceil_log2 n \<le> k"
  then have "(2::nat) ^ ceil_log2 n \<le> 2 ^ k" by (rule power_increasing) simp
  with ex show "n \<le> 2 ^ k" by (rule order_trans)
next
  assume "n \<le> 2 ^ k"
  then show "ceil_log2 n \<le> k" unfolding ceil_log2_def by (rule Least_le)
qed

lemma ceil_log2_step:
  assumes "n > 1"
  shows "ceil_log2 n = Suc (ceil_log2 ((n + 1) div 2))"
proof -
  have iff: "ceil_log2 n \<le> Suc k \<longleftrightarrow> ceil_log2 ((n + 1) div 2) \<le> k" for k
    unfolding ceil_log2_le by (simp; linarith)
  have "ceil_log2 n \<noteq> 0" using assms ceil_log2_le [of n 0] by simp
  then obtain m where m: "ceil_log2 n = Suc m" by (cases "ceil_log2 n") auto
  have "ceil_log2 ((n + 1) div 2) \<le> m" using iff [of m] m by simp
  moreover have "Suc m \<le> Suc (ceil_log2 ((n + 1) div 2))" using iff [of "ceil_log2 ((n + 1) div 2)"] m by simp
  ultimately show ?thesis using m by simp
qed

lemma gob_log2_spec:
  "unat acc + ceil_log2 (unat rows) < 2 ^ 32 \<Longrightarrow> unat (gob_log2 rows acc) = unat acc + ceil_log2 (unat rows)"
proof (induction rows acc rule: gob_log2.induct)
  case (1 rows acc)
  show ?case
  proof (cases "rows > 1")
    case False
    then have "unat rows \<le> 1" by (simp add: word_less_nat_alt)
    then have "ceil_log2 (unat rows) = 0" using ceil_log2_le [of "unat rows" 0] by simp
    then show ?thesis using False by (simp add: gob_log2.simps [of rows])
  next
    case True
    define half where "half = rows div 2 + (if rows mod 2 \<noteq> 0 then 1 else 0)"
    have n: "unat rows > 1" using True by (simp add: word_less_nat_alt)
    have step: "ceil_log2 (unat rows) = Suc (ceil_log2 (unat half))"
      using ceil_log2_step [OF n] unat_half_up [of rows] by (simp only: half_def)
    then have acc: "unat (acc + 1) = unat acc + 1" using 1(2) by (simp add: unat_word_ariths)
    have "unat (gob_log2 half (acc + 1)) = unat (acc + 1) + ceil_log2 (unat half)"
      unfolding half_def by (rule 1(1) [OF True]) (use 1(2) step acc in \<open>simp add: half_def\<close>)
    moreover have "gob_log2 rows acc = gob_log2 half (acc + 1)" using True by (simp add: gob_log2.simps [of rows] half_def)
    ultimately show ?thesis using step acc by simp
  qed
qed

lemma unat_eighth_up:
  "unat ((w :: u32) div 8 + (if w mod 8 \<noteq> 0 then 1 else 0)) = (unat w + 7) div 8"
proof -
  have d: "unat (w div 8) = unat w div 8" by (simp add: unat_div)
  have m: "w mod 8 \<noteq> 0 \<longleftrightarrow> unat w mod 8 \<noteq> 0" by (simp add: unat_mod unat_eq_zero [symmetric])
  have "unat w div 8 + 1 < 4294967296" using unat_u32_less [of w] by linarith
  then have "unat (w div 8 + 1) = unat w div 8 + 1" by (simp add: unat_word_ariths d)
  then show ?thesis using d m eighth_up_nat [of "unat w"] by (cases "w mod 8 \<noteq> 0") simp_all
qed

definition other_layout :: "u64 \<Rightarrow> bool" where
  "other_layout modifier \<longleftrightarrow> drop_bit 56 modifier \<noteq> 3 \<or> modifier AND 0x10 = 0 \<or>
     (drop_bit 20 modifier AND 3 \<noteq> 0 \<and> drop_bit 20 modifier AND 3 \<noteq> 2)"

lemma fits_height:
  "modifier_fits_height m h \<longleftrightarrow> other_layout m \<or> unat (m AND 0xf) \<le> (LEAST k. unat h \<le> 8 * 2 ^ k)"
proof -
  define rows where "rows = h div 8 + (if h mod 8 \<noteq> 0 then 1 else 0)"
  have rows: "unat rows = (unat h + 7) div 8" unfolding rows_def by (rule unat_eighth_up)
  have "unat rows \<le> 2 ^ 32" using unat_u32_less [of rows] by simp
  then have small: "ceil_log2 (unat rows) \<le> 32" by (simp only: ceil_log2_le)
  then have g: "unat (gob_log2 rows 0) = ceil_log2 (unat rows)" using gob_log2_spec [of 0 rows] by simp
  have "(\<lambda>k. unat rows \<le> 2 ^ k) = (\<lambda>k. unat h \<le> 8 * 2 ^ k)" by (rule ext) (simp add: rows; linarith)
  then have "ceil_log2 (unat rows) = (LEAST k. unat h \<le> 8 * 2 ^ k)" by (simp only: ceil_log2_def)
  moreover have "m AND 0xf \<le> ucast (gob_log2 rows 0) \<longleftrightarrow> unat (m AND 0xf) \<le> ceil_log2 (unat rows)"
    by (simp only: word_le_nat_alt unat_ucast64 g)
  moreover have "modifier_fits_height m h \<longleftrightarrow> other_layout m \<or> m AND 0xf \<le> ucast (gob_log2 rows 0)"
    unfolding modifier_fits_height_def other_layout_def Let_def rows_def [symmetric] by auto
  ultimately show ?thesis by simp
qed

section \<open>Candidates\<close>

definition fits_request :: "u64 \<Rightarrow> u32 \<Rightarrow> bool \<Rightarrow> bool \<Rightarrow> mod_props \<Rightarrow> bool" where
  "fits_request need h storage color p \<longleftrightarrow> p_planes p = 1 \<and> (p_features p AND need) = need \<and>
     (storage \<longrightarrow> p_features p AND F2_STORAGE_IMAGE \<noteq> 0) \<and> (color \<longrightarrow> p_features p AND F2_COLOR_ATTACHMENT \<noteq> 0)"

definition cand_inv :: "mod_props list \<Rightarrow> u64 \<Rightarrow> u32 \<Rightarrow> cand \<Rightarrow> bool" where
  "cand_inv S need h c \<longleftrightarrow> (\<forall>m\<in>set (k_mods c). m \<noteq> DRM_FORMAT_MOD_INVALID \<and> (m = DRM_FORMAT_MOD_LINEAR) = k_linear c \<and>
     modifier_fits_height m h \<and> (\<exists>p\<in>set S. p_modifier p = m \<and> fits_request need h (k_storage c) (k_color c) p))"

lemma cand_inv_keep:
  assumes "cand_inv S need h c" "p \<in> set S" "p_modifier p \<noteq> DRM_FORMAT_MOD_INVALID"
    "(p_modifier p = DRM_FORMAT_MOD_LINEAR) = k_linear c" "p_planes p = 1" "(p_features p AND need) = need"
    "modifier_fits_height (p_modifier p) h"
  shows "cand_inv S need h (c\<lparr>k_storage := (k_storage c \<and> p_features p AND F2_STORAGE_IMAGE \<noteq> 0),
          k_color := (k_color c \<and> p_features p AND F2_COLOR_ATTACHMENT \<noteq> 0), k_mods := k_mods c @ [p_modifier p]\<rparr>)"
  using assms unfolding cand_inv_def fits_request_def by auto

lemma scan_mods_inv:
  "cand_inv S need h c \<Longrightarrow> set ps \<subseteq> set S \<Longrightarrow>
   cand_inv S need h (scan_mods need h ps c) \<and> k_linear (scan_mods need h ps c) = k_linear c"
proof (induction ps arbitrary: c)
  case (Cons p ps)
  then have sub: "p \<in> set S" "set ps \<subseteq> set S" by auto
  show ?case
  proof (cases "p_modifier p = DRM_FORMAT_MOD_INVALID \<or> (p_modifier p = DRM_FORMAT_MOD_LINEAR) \<noteq> k_linear c \<or> p_planes p \<noteq> 1 \<or>
      (p_features p AND need) \<noteq> need \<or> \<not> modifier_fits_height (p_modifier p) h")
    case True
    then have "scan_mods need h (p # ps) c = scan_mods need h ps c" by (auto simp: Let_def)
    then show ?thesis using Cons.IH [OF Cons.prems(1) sub(2)] by simp
  next
    case False
    let ?c = "c\<lparr>k_storage := (k_storage c \<and> p_features p AND F2_STORAGE_IMAGE \<noteq> 0),
          k_color := (k_color c \<and> p_features p AND F2_COLOR_ATTACHMENT \<noteq> 0), k_mods := k_mods c @ [p_modifier p]\<rparr>"
    have inv: "cand_inv S need h ?c" by (rule cand_inv_keep [OF Cons.prems(1) sub(1)]) (use False in auto)
    have "scan_mods need h (p # ps) c = scan_mods need h ps ?c" using False by (auto simp: Let_def)
    then show ?thesis using Cons.IH [OF inv sub(2)] by simp
  qed
qed simp

abbreviation driver_list :: "nvg_driver \<Rightarrow> mod_props list" where
  "driver_list d \<equiv> take (min (unat (d_mod_count d)) NVG_MAX_MODS) (d_mods d)"

definition tiled_candidates :: "nvg_driver \<Rightarrow> u32 \<Rightarrow> u64 list" where
  "tiled_candidates d h = k_mods (candidates_of False d False h)"

lemma linear_fits: "modifier_fits_height DRM_FORMAT_MOD_LINEAR h"
  by (simp add: modifier_fits_height_def DRM_FORMAT_MOD_LINEAR_def)

lemma candidates_of_spec:
  "cand_inv (driver_list d) (need_features linear) h (candidates_of rm d linear h) \<and>
   (k_linear (candidates_of rm d linear h) = linear \<or>
    rm \<and> \<not> linear \<and> k_linear (candidates_of rm d linear h) \<and> tiled_candidates d h = [])"
proof -
  let ?need = "need_features linear" and ?S = "driver_list d"
  define c where "c = scan_mods ?need h ?S \<lparr>k_mods = [], k_storage = True, k_color = True, k_linear = linear\<rparr>"
  have c: "cand_inv ?S ?need h c" "k_linear c = linear"
    using scan_mods_inv [of ?S ?need h "\<lparr>k_mods = [], k_storage = True, k_color = True, k_linear = linear\<rparr>" ?S]
    by (simp_all add: cand_inv_def c_def)
  show ?thesis
  proof (cases "rm \<and> k_mods c = [] \<and> \<not> linear")
    case False
    then have "candidates_of rm d linear h = c" by (auto simp: candidates_of_def c_def Let_def)
    then show ?thesis using c by simp
  next
    case True
    then have eq: "candidates_of rm d linear h = linear_fallback ?need ?S c" by (auto simp: candidates_of_def c_def Let_def)
    have tiled: "tiled_candidates d h = []" using True by (auto simp: tiled_candidates_def candidates_of_def c_def Let_def)
    show ?thesis
    proof (cases "find (\<lambda>p. p_modifier p = DRM_FORMAT_MOD_LINEAR \<and> p_planes p = 1 \<and> (p_features p AND ?need) = ?need) ?S")
      case None
      then show ?thesis using eq c by (simp add: linear_fallback_def)
    next
      case (Some p)
      then have p: "p \<in> set ?S" "p_modifier p = DRM_FORMAT_MOD_LINEAR" "p_planes p = 1" "(p_features p AND ?need) = ?need"
        using find_SomeD [OF Some] by auto
      have "F2_COLOR_ATTACHMENT AND ?need \<noteq> 0" using True by (simp add: need_features_def F2_COLOR_ATTACHMENT_def
            F2_SAMPLED_IMAGE_def F2_TRANSFER_SRC_def F2_TRANSFER_DST_def)
      have "p_features p AND F2_COLOR_ATTACHMENT \<noteq> 0"
      proof
        assume z: "p_features p AND F2_COLOR_ATTACHMENT = 0"
        have "F2_COLOR_ATTACHMENT AND ?need = (p_features p AND F2_COLOR_ATTACHMENT) AND ?need"
          using p(4) by (metis and.assoc and.commute)
        then show False using z \<open>F2_COLOR_ATTACHMENT AND ?need \<noteq> 0\<close> by simp
      qed
      then show ?thesis using eq Some p True tiled linear_fits
        by (auto simp: linear_fallback_def cand_inv_def fits_request_def DRM_FORMAT_MOD_INVALID_def DRM_FORMAT_MOD_LINEAR_def)
    qed
  qed
qed

lemma query_mods_spec:
  "m \<in> set (query_mods d usage w h ms) \<longleftrightarrow> m \<in> set ms \<and> qa_result (d_query d m usage) = VK_SUCCESS \<and>
     qa_features (d_query d m usage) AND EXTMEM_EXPORTABLE \<noteq> 0 \<and> w \<le> qa_max_w (d_query d m usage) \<and> h \<le> qa_max_h (d_query d m usage)"
  by (induction d usage w h ms rule: query_mods.induct) (auto simp: Let_def not_less)

section \<open>The contract of an allocation\<close>

definition usage_allowed :: "u32 \<Rightarrow> u64 \<Rightarrow> bool" where
  "usage_allowed usage features \<longleftrightarrow>
     (usage AND USAGE_STORAGE \<noteq> 0 \<longrightarrow> features AND F2_STORAGE_IMAGE \<noteq> 0) \<and>
     (usage AND USAGE_COLOR_ATTACHMENT \<noteq> 0 \<longrightarrow> features AND F2_COLOR_ATTACHMENT \<noteq> 0)"

definition query_accepts :: "nvg_driver \<Rightarrow> u64 \<Rightarrow> u32 \<Rightarrow> alloc_args \<Rightarrow> bool" where
  "query_accepts d m usage args \<longleftrightarrow> qa_result (d_query d m usage) = VK_SUCCESS \<and>
     qa_features (d_query d m usage) AND EXTMEM_EXPORTABLE \<noteq> 0 \<and>
     a_width args \<le> qa_max_w (d_query d m usage) \<and> a_height args \<le> qa_max_h (d_query d m usage)"

definition mappable_args :: "alloc_args \<Rightarrow> bool" where
  "mappable_args args \<longleftrightarrow> a_force_linear args \<or> a_needs_map_stride args"

definition layout_ok :: "alloc_args \<Rightarrow> nvg_format \<Rightarrow> alloc_out \<Rightarrow> bool" where
  "layout_ok args f out \<longleftrightarrow> out_stride out \<noteq> 0 \<and> 0 \<le> out_fd out \<and>
     (mappable_args args \<longrightarrow> unat (out_stride out) mod unat (nf_bpp f) = 0 \<and>
        unat (a_width args) * unat (nf_bpp f) \<le> unat (out_stride out)) \<and>
     out_map_stride out = (if out_modifier out \<noteq> DRM_FORMAT_MOD_LINEAR \<and> mappable_args args then out_stride out else 0)"

definition modifier_ok :: "bool \<Rightarrow> nvg_driver \<Rightarrow> alloc_args \<Rightarrow> u64 \<Rightarrow> bool" where
  "modifier_ok rm d args m \<longleftrightarrow> m \<noteq> DRM_FORMAT_MOD_INVALID \<and> modifier_fits_height m (a_height args) \<and>
     (\<exists>p usage. p \<in> set (driver_list d) \<and> p_modifier p = m \<and> p_planes p = 1 \<and>
        (p_features p AND need_features (a_force_linear args)) = need_features (a_force_linear args) \<and>
        usage_allowed usage (p_features p) \<and> query_accepts d m usage args) \<and>
     ((m = DRM_FORMAT_MOD_LINEAR) = a_force_linear args \<or>
      rm \<and> m = DRM_FORMAT_MOD_LINEAR \<and> tiled_candidates d (a_height args) = [])"

lemma usage_bits: "image_usage c AND USAGE_STORAGE \<noteq> 0 \<Longrightarrow> k_storage c" "image_usage c AND USAGE_COLOR_ATTACHMENT \<noteq> 0 \<Longrightarrow> k_color c"
  by (auto simp: image_usage_def USAGE_SAMPLED_def USAGE_TRANSFER_SRC_def USAGE_TRANSFER_DST_def USAGE_COLOR_ATTACHMENT_def
      USAGE_STORAGE_def split: if_splits)

lemma candidate_modifier_ok:
  assumes "m \<in> set (query_mods d (image_usage c) (a_width args) (a_height args) (k_mods c))"
    "c = candidates_of rm d (a_force_linear args) (a_height args)"
  shows "modifier_ok rm d args m" "(m = DRM_FORMAT_MOD_LINEAR) = k_linear c"
proof -
  have spec: "cand_inv (driver_list d) (need_features (a_force_linear args)) (a_height args) c"
    "k_linear c = a_force_linear args \<or> rm \<and> \<not> a_force_linear args \<and> k_linear c \<and> tiled_candidates d (a_height args) = []"
    using candidates_of_spec [of d "a_force_linear args" "a_height args" rm] by (simp_all add: assms(2))
  have m: "m \<in> set (k_mods c)" "query_accepts d m (image_usage c) args"
    using assms(1) by (auto simp: query_mods_spec query_accepts_def)
  then obtain p where p: "m \<noteq> DRM_FORMAT_MOD_INVALID" "(m = DRM_FORMAT_MOD_LINEAR) = k_linear c" "modifier_fits_height m (a_height args)"
      "p \<in> set (driver_list d)" "p_modifier p = m"
      "fits_request (need_features (a_force_linear args)) (a_height args) (k_storage c) (k_color c) p"
    using spec(1) unfolding cand_inv_def by blast
  have "usage_allowed (image_usage c) (p_features p)"
    using p(6) usage_bits [of c] by (auto simp: usage_allowed_def fits_request_def)
  then show "modifier_ok rm d args m"
    unfolding modifier_ok_def using p m(2) spec(2) by (auto simp: fits_request_def)
  show "(m = DRM_FORMAT_MOD_LINEAR) = k_linear c" by (rule p(2))
qed

lemma stride_ok:
  assumes "\<not> bad_layout d mappable w bpp"
  shows "ucast (d_row_pitch d) \<noteq> (0 :: u32)"
    "mappable \<Longrightarrow> unat (ucast (d_row_pitch d) :: u32) mod unat bpp = 0 \<and> unat w * unat bpp \<le> unat (ucast (d_row_pitch d) :: u32)"
proof -
  have "unat (d_row_pitch d) \<le> 4294967295" using assms by (simp add: bad_layout_def word_le_nat_alt not_less)
  then have u: "unat (ucast (d_row_pitch d) :: u32) = unat (d_row_pitch d)"
    by (simp only: unsigned_ucast_eq take_bit_eq_mod) simp
  have "unat (d_row_pitch d) \<noteq> 0" using assms by (simp add: bad_layout_def unat_eq_zero)
  then show "ucast (d_row_pitch d) \<noteq> (0 :: u32)" using u by (metis unat_0)
  assume m: mappable
  then have lay: "d_row_pitch d mod ucast bpp = 0" "ucast w * ucast bpp \<le> d_row_pitch d" using assms by (auto simp: bad_layout_def)
  have "unat (d_row_pitch d) mod unat bpp = 0" using lay(1) by (metis unat_mod unat_0 unat_ucast64)
  moreover have "unat w * unat bpp \<le> unat (d_row_pitch d)"
    using lay(2) by (simp only: word_le_nat_alt unat_ucast_mult)
  ultimately show "unat (ucast (d_row_pitch d) :: u32) mod unat bpp = 0 \<and> unat w * unat bpp \<le> unat (ucast (d_row_pitch d) :: u32)"
    by (simp only: u simp_thms)
qed

lemma make_image_cases:
  assumes "make_image d memtypes fl mappable c mods w bpp = (tr, res)"
  shows "run_ev M tr = Some (M + (case res of Inl _ \<Rightarrow> {#} | Inr out \<Rightarrow> {#DmaFd (out_fd out)#}))"
    "\<And>out. res = Inr out \<Longrightarrow> \<not> bad_layout d mappable w bpp \<and> 0 \<le> d_fd d \<and>
       out = \<lparr>out_fd = d_fd d, out_stride = ucast (d_row_pitch d),
              out_map_stride = (if \<not> k_linear c \<and> mappable then ucast (d_row_pitch d) else 0), out_modifier = d_modifier d mods\<rparr>"
    "\<And>e. res = Inl e \<Longrightarrow> e = - EINVAL \<or> e = - ENOMEM"
  using assms by (auto simp: make_image_def Let_def oom_or_inval_def split: if_splits option.splits)

lemma alloc_impl_success:
  assumes law: "\<And>mods. mods \<noteq> [] \<Longrightarrow> d_modifier d mods \<in> set mods"
    and "nvg_alloc_impl rm e d dev args fl g = ((tr, Inr out), g')"
  shows "\<exists>f. find_format (a_format args) = Some f \<and> modifier_ok rm d args (out_modifier out) \<and> layout_ok args f out"
proof -
  define c where "c = candidates_of rm d (a_force_linear args) (a_height args)"
  define mods where "mods = query_mods d (image_usage c) (a_width args) (a_height args) (k_mods c)"
  obtain f and vk :: nvg_vk and tr2 where f: "find_format (a_format args) = Some f" "mods \<noteq> []"
    "make_image d (v_memprops vk) fl (mappable_args args) c mods (a_width args) (nf_bpp f) = (tr2, Inr out)"
    using assms(2) by (auto simp: nvg_alloc_impl_def Let_def c_def [symmetric] mods_def [symmetric] mappable_args_def [symmetric]
        split: option.splits if_splits prod.splits)
  note img = make_image_cases(2) [OF f(3) refl]
  have m: "d_modifier d mods \<in> set mods" by (rule law [OF f(2)])
  note ok = candidate_modifier_ok [OF m [unfolded mods_def] c_def]
  have "layout_ok args f out"
    using img stride_ok [of d "mappable_args args" "a_width args" "nf_bpp f"] ok(2) by (auto simp: layout_ok_def mods_def)
  moreover have "modifier_ok rm d args (out_modifier out)" using ok(1) img by (simp add: mods_def)
  ultimately show ?thesis using f(1) by blast
qed

section \<open>Resources over a process's life\<close>

definition gbm_ok :: "gbm_global \<Rightarrow> bool" where
  "gbm_ok g \<longleftrightarrow> (g_vk_state g = 0 \<longrightarrow> \<not> v_instance (g_vk g) \<and> \<not> v_device (g_vk g))"

lemma vk_get_run:
  assumes "gbm_ok g" "vk_get e rdev g = (r, g', tr)"
  shows "gbm_ok g'" "run_ev (dev_holds (g_vk g)) tr = Some (dev_holds (g_vk g'))"
proof -
  show "gbm_ok g'" using assms by (auto simp: vk_get_def gbm_ok_def Let_def split: prod.splits if_splits)
  show "run_ev (dev_holds (g_vk g)) tr = Some (dev_holds (g_vk g'))"
  proof (cases "g_vk_state g = 0")
    case True
    obtain ret vk tr1 where i: "vk_init_locked e rdev (g_vk g) = (ret, vk, tr1)" by (cases "vk_init_locked e rdev (g_vk g)")
    have none: "\<not> v_instance (g_vk g)" "\<not> v_device (g_vk g)" using True assms(1) by (auto simp: gbm_ok_def)
    then have "dev_holds (g_vk g) = {#}" by (simp add: dev_holds_def)
    moreover have "tr = tr1" "g_vk g' = vk" using assms(2) True i by (auto simp: vk_get_def Let_def)
    ultimately show ?thesis using init_run [OF i none] by simp
  next
    case False
    then show ?thesis using assms(2) by (auto simp: vk_get_def)
  qed
qed

definition fd_holds :: "int + alloc_out \<Rightarrow> dev_res multiset" where
  "fd_holds res = (case res of Inl _ \<Rightarrow> {#} | Inr out \<Rightarrow> {#DmaFd (out_fd out)#})"

definition step_ok :: "dev_res multiset \<Rightarrow> gbm_global \<Rightarrow> (dev_res ev list \<times> (int + alloc_out)) \<times> gbm_global \<Rightarrow> bool" where
  "step_ok K g x \<longleftrightarrow> gbm_ok (snd x) \<and>
     run_ev (K + dev_holds (g_vk g)) (fst (fst x)) = Some (K + dev_holds (g_vk (snd x)) + fd_holds (snd (fst x))) \<and>
     (case snd (fst x) of Inl e \<Rightarrow> e = - EINVAL \<or> e = - ENOMEM \<or> e = - ENODEV | Inr out \<Rightarrow> True)"

lemma alloc_impl_step:
  assumes "gbm_ok g"
  shows "step_ok K g (nvg_alloc_impl rm e d dev args fl g)"
proof -
  define c where "c = candidates_of rm d (a_force_linear args) (a_height args)"
  define mods where "mods = query_mods d (image_usage c) (a_width args) (a_height args) (k_mods c)"
  have stay: "step_ok K g (([], Inl (- EINVAL)), g)" using assms by (simp add: step_ok_def fd_holds_def)
  show ?thesis
  proof (cases "\<exists>rdev f. dev = Some rdev \<and> find_format (a_format args) = Some f \<and> a_width args \<noteq> 0 \<and> a_height args \<noteq> 0")
    case False
    then show ?thesis using stay by (auto simp: nvg_alloc_impl_def split: option.splits)
  next
    case True
    then obtain rdev f where go: "dev = Some rdev" "find_format (a_format args) = Some f" "a_width args \<noteq> 0" "a_height args \<noteq> 0"
      by blast
    obtain r g' tr where v: "vk_get e rdev g = (r, g', tr)" by (cases "vk_get e rdev g")
    note run = vk_get_run [OF assms v] run_ev_frame [OF vk_get_run(2) [OF assms v], of K]
    have early: "step_ok K g ((tr, Inl x), g')" if "x = - EINVAL \<or> x = - ENODEV" for x
      using run that by (auto simp: step_ok_def fd_holds_def)
    consider "r = None" | vk where "r = Some vk" "k_mods c = [] \<or> mods = []" | vk where "r = Some vk" "k_mods c \<noteq> []" "mods \<noteq> []"
      by (cases r) auto
    then show ?thesis
    proof cases
      case 3
      obtain tr2 res where m: "make_image d (v_memprops vk) fl (a_force_linear args \<or> a_needs_map_stride args) c mods
          (a_width args) (nf_bpp f) = (tr2, res)" by (cases "make_image d (v_memprops vk) fl
          (a_force_linear args \<or> a_needs_map_stride args) c mods (a_width args) (nf_bpp f)")
      have "nvg_alloc_impl rm e d dev args fl g = ((tr @ tr2, res), g')"
        using go v 3 m by (simp add: nvg_alloc_impl_def Let_def c_def mods_def)
      then show ?thesis
        using run make_image_cases(1,3) [OF m] by (auto simp: step_ok_def fd_holds_def run_ev_append split: sum.splits)
    qed (use go v early in \<open>auto simp: nvg_alloc_impl_def Let_def c_def mods_def\<close>)
  qed
qed

record alloc_call =
  ac_env :: icd_env
  ac_driver :: nvg_driver
  ac_dev :: "(nat \<times> nat) option option"
  ac_args :: alloc_args
  ac_flags :: u32

fun alloc_calls :: "bool \<Rightarrow> alloc_call list \<Rightarrow> gbm_global \<Rightarrow> dev_res ev list \<times> (int + alloc_out) list \<times> gbm_global" where
  "alloc_calls rm [] g = ([], [], g)"
| "alloc_calls rm (q # qs) g =
    (case nvg_alloc_flags rm (ac_env q) (ac_driver q) (ac_dev q) (ac_args q) (ac_flags q) g of
       ((tr, res), g1) \<Rightarrow> (case alloc_calls rm qs g1 of (tr', rs, g2) \<Rightarrow> (tr @ tr', res # rs, g2)))"

lemma alloc_flags_step: "gbm_ok g \<Longrightarrow> step_ok K g (nvg_alloc_flags rm e d dev args fl g)"
  using alloc_impl_step [of g K rm e d dev args fl] by (simp add: nvg_alloc_flags_def step_ok_def fd_holds_def)

lemma alloc_calls_run:
  "gbm_ok g \<Longrightarrow> alloc_calls rm qs g = (tr, rs, g') \<Longrightarrow>
   run_ev (K + dev_holds (g_vk g)) tr = Some (K + dev_holds (g_vk g') + sum_list (map fd_holds rs))"
proof (induction qs arbitrary: g tr rs K)
  case (Cons q qs)
  obtain tr1 res g1 where one: "nvg_alloc_flags rm (ac_env q) (ac_driver q) (ac_dev q) (ac_args q) (ac_flags q) g = ((tr1, res), g1)"
    by (metis surj_pair)
  obtain tr2 rs2 where rest: "alloc_calls rm qs g1 = (tr2, rs2, g')" "tr = tr1 @ tr2" "rs = res # rs2"
    using Cons.prems(2) one by (auto split: prod.splits)
  have s: "gbm_ok g1" "run_ev (K + dev_holds (g_vk g)) tr1 = Some (K + dev_holds (g_vk g1) + fd_holds res)"
    using alloc_flags_step [OF Cons.prems(1), of K rm "ac_env q" "ac_driver q" "ac_dev q" "ac_args q" "ac_flags q"] one
    by (simp_all add: step_ok_def)
  have "run_ev (K + fd_holds res + dev_holds (g_vk g1)) tr2 =
      Some (K + fd_holds res + dev_holds (g_vk g') + sum_list (map fd_holds rs2))"
    by (rule Cons.IH [OF s(1) rest(1)])
  then show ?case using s(2) rest by (simp add: run_ev_append ac_simps)
qed simp

section \<open>Placement of memory and planes\<close>

definition has_flags :: "u32 \<Rightarrow> u32 \<Rightarrow> bool" where
  "has_flags flags want \<longleftrightarrow> (flags AND want) = want"

lemma find_mem_type_some:
  assumes "find_mem_type bits want fs 0 = Some t"
  shows "t < length fs \<and> bit bits t \<and> has_flags (fs ! t) want"
  using find_mem_type_spec [where bits = bits and want = want and fs = fs and i = 0] assms
  by (simp add: has_flags_def and_exp_eq_0_iff_not_bit)

lemma find_mem_type_none:
  assumes "find_mem_type bits want fs 0 = None" "t < length fs" "bit bits t"
  shows "\<not> has_flags (fs ! t) want"
  using find_mem_type_spec [where bits = bits and want = want and fs = fs and i = 0] assms
  by (simp add: has_flags_def and_exp_eq_0_iff_not_bit)

definition req_align :: "u64 \<times> u64 \<Rightarrow> nat" where
  "req_align req = (if snd req \<noteq> 0 then unat (snd req) else 1)"

lemma place_plane_spec:
  fixes offset :: u32
  assumes "unat (snd req) \<le> 2 ^ 62" "unat pend \<le> 2 ^ 63"
  defines "r \<equiv> unat (place_plane req offset pend)"
  shows "r mod req_align req = 0" "unat offset \<le> r" "unat pend \<le> r"
proof -
  define a where "a = (if snd req \<noteq> 0 then snd req else 1)"
  define o1 where "o1 = (if ucast offset > pend then ucast offset else pend)"
  have a: "unat a = req_align req" "0 < unat a" "unat a \<le> 2 ^ 62"
    using assms(1) by (auto simp: a_def req_align_def unat_gt_0)
  have o1: "unat o1 \<le> 2 ^ 63" "unat offset \<le> unat o1" "unat pend \<le> unat o1"
    using assms(2) unat_u32_less [of offset] by (auto simp: o1_def word_less_nat_alt)
  have sum: "unat (o1 + a - 1) = unat o1 + (unat a - 1)"
  proof -
    have "o1 + a - 1 = of_nat (unat o1 + (unat a - 1))" using a(2) by (simp add: of_nat_diff)
    moreover have "unat o1 + (unat a - 1) < 2 ^ 64" using a o1 by simp
    ultimately show ?thesis by (simp only: unsigned_of_nat take_bit_eq_mod of_nat_id) simp
  qed
  define n where "n = unat o1 + (unat a - 1)"
  have le: "n div unat a * unat a \<le> n" by (simp add: div_times_less_eq_dividend)
  have "unat ((o1 + a - 1) div a * a) = n div unat a * unat a"
  proof -
    have "n < 2 ^ 64" using a o1 by (simp add: n_def)
    then have "n div unat a * unat a < 2 ^ 64" using le by (rule le_less_trans [rotated])
    moreover have "unat ((o1 + a - 1) div a) = n div unat a" by (simp only: unat_div sum n_def)
    ultimately show ?thesis by (simp only: unat_word_ariths(2)) simp
  qed
  then have r: "r = n div unat a * unat a" by (simp add: r_def place_plane_def Let_def a_def o1_def)
  then show "r mod req_align req = 0" by (simp add: a(1) [symmetric])
  have "n - n mod unat a = r" by (simp add: r minus_mod_eq_div_mult)
  moreover have "n mod unat a \<le> unat a - 1" using mod_less_divisor [OF a(2), of n] by simp
  ultimately have "unat o1 \<le> r" unfolding n_def by linarith
  then show "unat offset \<le> r" "unat pend \<le> r" using o1 by auto
qed

section \<open>A concrete driver\<close>

definition demo_pd :: nvg_pd where
  "demo_pd = \<lparr>x_pd = 7, x_vendor = 0x10de, x_count_ok = True, x_calloc = True, x_list_ok = True,
     x_exts = ''VK_KHR_format_feature_flags2'' # nvg_device_exts, x_render = None, x_queues = [6, 1], x_mem = [1, 14]\<rparr>"

definition demo_icd :: icd_env where
  "demo_icd = \<lparr>e_dlopen = True, e_negotiate_sym = True, e_gipa = True, e_negotiate = 0, e_iface = 5, e_create_sym = True,
     e_create_instance = 0, e_instance_fn = (\<lambda>_. True), e_enum1 = 0, e_calloc_pds = True, e_calloc_infos = True,
     e_enum2 = 0, e_pds = [demo_pd], e_create_device = 0, e_device_fn = (\<lambda>_. True)\<rparr>"

definition demo_nvg :: nvg_driver where
  "demo_nvg = \<lparr>d_mod_count = 2,
     d_mods = [\<lparr>p_modifier = 0, p_planes = 1, p_features = 0xC001\<rparr>,
               \<lparr>p_modifier = 0x0300000000606010, p_planes = 1, p_features = 0xC083\<rparr>],
     d_query = (\<lambda>_ _. \<lparr>qa_result = 0, qa_features = 3, qa_max_w = 16384, qa_max_h = 16384\<rparr>),
     d_create_image = (\<lambda>_ _. 0), d_req_size = 65536, d_req_bits = 3, d_allocate = (\<lambda>_ _. 0), d_bind = 0,
     d_get_modifier = 0, d_modifier = hd, d_offset = 0, d_row_pitch = 512, d_get_fd = 0, d_fd = 11\<rparr>"

definition demo_call_args :: alloc_args where
  "demo_call_args = \<lparr>a_width = 64, a_height = 64, a_format = DRM_FORMAT_ABGR8888, a_scanout = False,
     a_force_linear = False, a_needs_map_stride = True\<rparr>"

definition demo_plane :: plane_driver where
  "demo_plane = \<lparr>pl_mod_count = 1, pl_mods = [\<lparr>p_modifier = 0, p_planes = 2, p_features = 0x400001\<rparr>], pl_disjoint = 0,
     pl_req = (\<lambda>p. if p = 0 then (100000, 65536) else (50000, 65536)), pl_whole = (\<lambda>_ _. 0), pl_size = 150000\<rparr>"

section \<open>Properties\<close>

text \<open>
  C24. The block height rule: an NVIDIA block-linear modifier of the Fermi or Turing layouts is
  accepted for an image exactly when its block-height exponent is at most the least k such that
  8 * 2^k rows cover the image; every other modifier is accepted. The loop that computes the bound
  ends for every height.
\<close>

theorem modifier_fits_height_exact:
  "modifier_fits_height m h = (other_layout m \<or> unat (m AND 0xf) \<le> (LEAST k. unat h \<le> 8 * 2 ^ k))"
  by (rule fits_height)

text \<open>
  C11. A successful allocation, with either entry point and either build: the modifier is one the
  driver lists for the format, single-plane, with every feature the layout needs, accepted by the
  image query as exportable at this size for a usage its features allow, and its blocks fit the
  height. It is LINEAR exactly when the caller forces LINEAR; only the source-built driver may
  answer LINEAR unforced, and only when it lists no fitting block-linear modifier. The stride of a
  buffer the CPU maps is whole pixels and holds a row, and the map stride is the stride for
  block-linear mappable buffers and 0 otherwise. The driver is assumed to choose from the list it
  is given.
\<close>

theorem nvg_alloc_contract:
  assumes "\<And>mods. mods \<noteq> [] \<Longrightarrow> d_modifier d mods \<in> set mods"
    and "nvg_alloc_flags rm e d dev args fl g = ((tr, Inr out), g')"
  shows "\<exists>f. find_format (a_format args) = Some f \<and> modifier_ok rm d args (out_modifier out) \<and> layout_ok args f out"
  using alloc_impl_success [OF assms(1)] assms(2) by (simp add: nvg_alloc_flags_def split: if_splits)

theorem nvg_alloc_contract_witness:
  "\<exists>tr out g'. nvg_alloc_flags False demo_icd demo_nvg (Some None) demo_call_args 0 gbm_global_zero = ((tr, Inr out), g') \<and>
     (\<exists>f. find_format (a_format demo_call_args) = Some f \<and> modifier_ok False demo_nvg demo_call_args (out_modifier out) \<and>
       layout_ok demo_call_args f out)"
proof -
  have "case snd (fst (nvg_alloc_flags False demo_icd demo_nvg (Some None) demo_call_args 0 gbm_global_zero)) of
      Inr out \<Rightarrow> True | Inl _ \<Rightarrow> False" by code_simp
  then obtain tr out g' where run: "nvg_alloc_flags False demo_icd demo_nvg (Some None) demo_call_args 0 gbm_global_zero = ((tr, Inr out), g')"
    by (cases "nvg_alloc_flags False demo_icd demo_nvg (Some None) demo_call_args 0 gbm_global_zero") (auto split: sum.splits prod.splits)
  have "mods \<noteq> [] \<Longrightarrow> d_modifier demo_nvg mods \<in> set mods" for mods by (simp add: demo_nvg_def)
  from nvg_alloc_contract [OF this run] run show ?thesis by blast
qed

text \<open>
  C13. Over any sequence of allocations from the start of the process, whatever fails in them: every
  image and memory object is released, and what stays open is the process-wide instance and device
  and one descriptor per successful call.
\<close>

theorem nvg_allocs_balanced:
  "case alloc_calls rm qs gbm_global_zero of
     (tr, rs, g) \<Rightarrow> run_ev {#} tr = Some (dev_holds (g_vk g) + sum_list (map fd_holds rs))"
proof -
  obtain tr rs g where run: "alloc_calls rm qs gbm_global_zero = (tr, rs, g)" by (cases "alloc_calls rm qs gbm_global_zero")
  have "gbm_ok gbm_global_zero" "dev_holds (g_vk gbm_global_zero) = {#}"
    by (simp_all add: gbm_ok_def gbm_global_zero_def nvg_vk_zero_def dev_holds_def)
  then show ?thesis using alloc_calls_run [OF _ run, of "{#}"] run by simp
qed

text \<open>
  C32. Where memory goes: the chosen type is one the image allows. A LINEAR buffer the CPU reads
  often gets host-visible, coherent and cached memory or none at all; any other LINEAR buffer gets
  host-visible coherent memory if the image allows such a type, and device memory only otherwise;
  a block-linear buffer gets device memory.
\<close>

theorem choose_type_placement:
  "case choose_type linear fl fs bits of
     None \<Rightarrow> list_all (\<lambda>t. bit bits t \<longrightarrow> \<not> has_flags (fs ! t)
         (if linear \<and> bit fl 0 then 0xE else MEM_DEVICE_LOCAL)) [0..<length fs]
   | Some t \<Rightarrow> t < length fs \<and> bit bits t \<and>
       (if linear \<and> bit fl 0 then has_flags (fs ! t) 0xE
        else if linear then has_flags (fs ! t) 0x6 \<or> has_flags (fs ! t) MEM_DEVICE_LOCAL \<and>
          list_all (\<lambda>s. bit bits s \<longrightarrow> \<not> has_flags (fs ! s) 0x6) [0..<length fs]
        else has_flags (fs ! t) MEM_DEVICE_LOCAL)"
proof -
  have often: "fl AND GBM_ALLOC_FLAG_CPU_READ_OFTEN \<noteq> 0 \<longleftrightarrow> bit fl 0"
    using and_exp_eq_0_iff_not_bit [of fl 0] by (simp add: GBM_ALLOC_FLAG_CPU_READ_OFTEN_def)
  have host: "MEM_HOST_VISIBLE OR MEM_HOST_COHERENT OR (if b then MEM_HOST_CACHED else 0) = (if b then 0xE else 0x6)" for b
    by (simp add: MEM_HOST_VISIBLE_def MEM_HOST_COHERENT_def MEM_HOST_CACHED_def)
  show ?thesis
    unfolding choose_type_def Let_def often host
    by (auto simp: list_all_iff dest: find_mem_type_some find_mem_type_none split: option.splits)
qed

theorem choose_type_placement_witness:
  "choose_type True 1 [1, 6, 14] 7 = Some 2 \<and> has_flags ([1, 6, 14] ! 2) 0xE"
proof -
  have "choose_type True 1 [1, 6, 14] 7 = Some 2" by code_simp
  then show ?thesis
    using choose_type_placement [where linear = True and fl = 1 and fs = "[1, 6, 14]" and bits = 7] by (simp add: bit_simps)
qed

lemma plane_layout_bounds:
  assumes "\<And>p. unat (fst (pl_req d p)) \<le> 2 ^ 62" "\<And>p. unat (snd (pl_req d p)) \<le> 2 ^ 62"
    and "nvg_plane_layout e d dev fmt width height n offsets g = ((tr, Inr (o0, o1, tot)), g')"
  shows "unat o0 mod req_align (pl_req d 0) = 0 \<and> unat o1 mod req_align (pl_req d 1) = 0 \<and>
    unat (fst offsets) \<le> unat o0 \<and> unat (snd offsets) \<le> unat o1 \<and>
    unat o0 + unat (fst (pl_req d 0)) \<le> unat o1 \<and> unat o1 + unat (fst (pl_req d 1)) \<le> unat tot \<and>
    unat (pl_size d) \<le> unat tot"
proof -
  define p0 where "p0 = place_plane (pl_req d 0) (fst offsets) 0"
  define p1 where "p1 = place_plane (pl_req d 1) (snd offsets) (p0 + fst (pl_req d 0))"
  have out: "\<not> p0 > 0xFFFFFFFF" "\<not> p1 > 0xFFFFFFFF" "o0 = ucast p0" "o1 = ucast p1"
      "tot = (if pl_size d > p1 + fst (pl_req d 1) then pl_size d else p1 + fst (pl_req d 1))"
    using assms(3) by (auto simp: nvg_plane_layout_def Let_def p0_def p1_def
        split: option.splits if_splits prod.splits)
  have small: "unat p0 \<le> 4294967295" "unat p1 \<le> 4294967295" using out(1,2) by (simp_all add: word_less_nat_alt not_less)
  have cast: "unat o0 = unat p0" "unat o1 = unat p1"
    using small by (simp_all only: out(3,4) unsigned_ucast_eq take_bit_eq_mod) simp_all
  have e0: "unat (p0 + fst (pl_req d 0)) = unat p0 + unat (fst (pl_req d 0))"
    and e1: "unat (p1 + fst (pl_req d 1)) = unat p1 + unat (fst (pl_req d 1))"
    using small assms(1) [of 0] assms(1) [of 1] by (simp_all add: unat_word_ariths)
  have "unat (p0 + fst (pl_req d 0)) \<le> 2 ^ 63" using e0 small assms(1) [of 0] by simp
  note r1 = place_plane_spec [OF assms(2) [of 1] this, of "snd offsets", folded p1_def]
  note r0 = place_plane_spec [OF assms(2) [of 0], where pend = 0 and offset = "fst offsets", folded p0_def]
  have "unat tot \<ge> unat (p1 + fst (pl_req d 1)) \<and> unat tot \<ge> unat (pl_size d)"
    using out(5) by (auto simp: word_less_nat_alt)
  then show ?thesis using r0 r1 cast e0 e1 by simp
qed

text \<open>
  C23. The planes of a video buffer: when the layout is granted, each plane starts at a multiple of
  the alignment the driver wants for it and not before the offset the caller proposed, the second
  plane starts after the first one's required size, and the buffer holds the second plane and the
  whole image as the driver sizes them. The driver's plane sizes and alignments are taken to be at
  most 2^62 bytes.
\<close>

theorem plane_layout_disjoint:
  assumes "\<And>p. unat (fst (pl_req d p)) \<le> 2 ^ 62" "\<And>p. unat (snd (pl_req d p)) \<le> 2 ^ 62"
    and "nvg_plane_layout e d dev fmt width height n offsets g = ((tr, Inr (o0, o1, tot)), g')"
  shows "unat o0 mod req_align (pl_req d 0) = 0 \<and> unat o1 mod req_align (pl_req d 1) = 0 \<and>
    unat (fst offsets) \<le> unat o0 \<and> unat (snd offsets) \<le> unat o1 \<and>
    unat o0 + unat (fst (pl_req d 0)) \<le> unat o1 \<and> unat o1 + unat (fst (pl_req d 1)) \<le> unat tot \<and>
    unat (pl_size d) \<le> unat tot"
  by (rule plane_layout_bounds [OF assms])

theorem plane_layout_disjoint_witness:
  "\<exists>tr o0 o1 tot g'. nvg_plane_layout demo_icd demo_plane (Some None) DRM_FORMAT_NV12 640 480 2 (0, 90000) gbm_global_zero
      = ((tr, Inr (o0, o1, tot)), g') \<and> unat o0 + 100000 \<le> unat o1 \<and> unat o1 + 50000 \<le> unat tot"
proof -
  have "case snd (fst (nvg_plane_layout demo_icd demo_plane (Some None) DRM_FORMAT_NV12 640 480 2 (0, 90000) gbm_global_zero)) of
      Inr out \<Rightarrow> True | Inl _ \<Rightarrow> False" by code_simp
  then obtain tr o0 o1 tot g' where run: "nvg_plane_layout demo_icd demo_plane (Some None) DRM_FORMAT_NV12 640 480 2 (0, 90000)
      gbm_global_zero = ((tr, Inr (o0, o1, tot)), g')"
    by (cases "nvg_plane_layout demo_icd demo_plane (Some None) DRM_FORMAT_NV12 640 480 2 (0, 90000) gbm_global_zero")
      (auto split: sum.splits prod.splits)
  have "unat (fst (pl_req demo_plane p)) \<le> 2 ^ 62" "unat (snd (pl_req demo_plane p)) \<le> 2 ^ 62" for p
    by (simp_all add: demo_plane_def)
  from plane_layout_disjoint [OF this run] run show ?thesis by (auto simp: demo_plane_def)
qed

end
