(* ===== verification/Gbm_Map.thy ===== *)
theory Gbm_Map
  imports Gbm_Alloc
begin

text \<open>
  CPU access in the native gralloc backend, nvidia-prolapse/gralloc/nvidia_gbm_wrapper.c: import and
  free of a buffer, locks of LINEAR buffers by mmap with dma-buf synchronisation, and locks of
  block-linear buffers through a staging copy (\<open>tiled_setup_locked\<close>, \<open>tiled_copy_locked\<close>,
  \<open>nvg_map_tiled\<close>, \<open>nvg_unmap_tiled\<close>). The kernel, the allocator and the driver answer through the
  record \<open>lock_env\<close>. The image's bytes (row and column) and the staging bytes (offset) are part of
  the state; a copy has the effect the Vulkan copy commands define for the region the code passes.
\<close>

section \<open>State\<close>

definition GBM_MAP_FLAG_READ :: u32 where "GBM_MAP_FLAG_READ = 1"
definition GBM_MAP_FLAG_WRITE :: u32 where "GBM_MAP_FLAG_WRITE = 2"
definition NVG_MAP_RW :: u32 where "NVG_MAP_RW = GBM_MAP_FLAG_READ OR GBM_MAP_FLAG_WRITE"

record nvg_bo =
  bo_fd :: int
  bo_size :: u64
  bo_modifier :: u64
  bo_width :: u32
  bo_height :: u32
  bo_stride :: u32
  bo_format :: u32
  bo_rdev :: "(nat \<times> nat) option"
  bo_img :: bool
  bo_img_mem :: bool
  bo_stg :: bool
  bo_stg_mem :: bool
  bo_stg_ptr :: "handle option"
  bo_stg_size :: u64
  bo_stg_coherent :: bool
  bo_locked :: bool

record nvg_map =
  m_addr :: "handle option"
  m_size :: u64
  m_tiled :: bool
  m_flags :: u32

record lock_world =
  w_gbm :: gbm_global
  w_xfer :: int
  w_image :: "nat \<Rightarrow> nat \<Rightarrow> u8"
  w_staging :: "nat \<Rightarrow> u8"

datatype lock_res = BoBlk | BoFdR int | MapBlk | LinMap handle | DupFd int | TImg | TImgMem | TStg | TStgMem | XferLock
  | Dev dev_res

record setup_env =
  s_create_image :: vk_result
  s_req_size :: u64
  s_req_bits :: u32
  s_fdp :: vk_result
  s_fdp_bits :: u32
  s_dup :: int
  s_alloc :: vk_result
  s_bind :: vk_result
  s_create_buffer :: "u64 \<Rightarrow> vk_result"
  s_breq_bits :: u32
  s_balloc :: vk_result
  s_bbind :: vk_result
  s_map :: vk_result
  s_ptr :: handle

text \<open>\<open>c_torn\<close>: the contents of image and staging when the copy did not complete in time.\<close>

record copy_env =
  c_reset :: vk_result
  c_begin :: vk_result
  c_end :: vk_result
  c_submit :: vk_result
  c_wait :: vk_result
  c_reset_fence :: vk_result
  c_torn :: "(nat \<Rightarrow> nat \<Rightarrow> u8) \<times> (nat \<Rightarrow> u8)"

record lock_env =
  l_icd :: icd_env
  l_malloc :: bool
  l_pool :: vk_result
  l_cmdbuf :: vk_result
  l_fence :: vk_result
  l_setup :: setup_env
  l_copy :: copy_env
  l_ranges :: vk_result
  l_mmap :: "int + handle"
  l_sync :: "u64 \<Rightarrow> nat \<Rightarrow> int"

section \<open>Import and free\<close>

record nvg_import_env =
  n_lseek :: int
  n_size_max :: int
  n_calloc :: bool
  n_dup :: int

definition nvg_import :: "nvg_import_env \<Rightarrow> (nat \<times> nat) option \<Rightarrow> u32 \<Rightarrow> u32 \<Rightarrow> u32 \<Rightarrow> u64 \<Rightarrow> u32 \<Rightarrow>
    lock_res ev list \<times> (unit + nvg_bo)" where
  "nvg_import k rdev width height stride modifier drm_format =
    (if n_lseek k \<le> 0 then ([], Inl ())
     else if n_lseek k > n_size_max k then ([], Inl ())
     else if \<not> n_calloc k then ([], Inl ())
     else if n_dup k < 0 then ([Acq BoBlk, Rel BoBlk], Inl ())
     else ([Acq BoBlk, Acq (BoFdR (n_dup k))],
           Inr \<lparr>bo_fd = n_dup k, bo_size = of_int (n_lseek k), bo_modifier = modifier, bo_width = width, bo_height = height,
                bo_stride = stride, bo_format = drm_format, bo_rdev = rdev, bo_img = False, bo_img_mem = False, bo_stg = False,
                bo_stg_mem = False, bo_stg_ptr = None, bo_stg_size = 0, bo_stg_coherent = False, bo_locked = False\<rparr>))"

definition tiled_release_locked :: "nvg_bo \<Rightarrow> nvg_bo \<times> lock_res ev list" where
  "tiled_release_locked bo =
    (bo\<lparr>bo_stg := False, bo_stg_mem := False, bo_stg_ptr := None, bo_img := False, bo_img_mem := False, bo_locked := False\<rparr>,
     (if bo_stg bo then [Rel TStg] else []) @ (if bo_stg_mem bo then [Rel TStgMem] else []) @
     (if bo_img bo then [Rel TImg] else []) @ (if bo_img_mem bo then [Rel TImgMem] else []))"

definition nvg_free :: "nvg_bo option \<Rightarrow> lock_res ev list" where
  "nvg_free obo =
    (case obo of
       None \<Rightarrow> []
     | Some bo \<Rightarrow>
         (if bo_img bo \<or> bo_stg bo then [Acq XferLock] @ snd (tiled_release_locked bo) @ [Rel XferLock] else []) @
         [Rel (BoFdR (bo_fd bo)), Rel BoBlk])"

section \<open>Synchronisation of LINEAR buffers\<close>

definition DMA_BUF_SYNC_READ :: u64 where "DMA_BUF_SYNC_READ = 1"
definition DMA_BUF_SYNC_WRITE :: u64 where "DMA_BUF_SYNC_WRITE = 2"
definition DMA_BUF_SYNC_START :: u64 where "DMA_BUF_SYNC_START = 0"
definition DMA_BUF_SYNC_END :: u64 where "DMA_BUF_SYNC_END = 4"

definition dma_buf_dir :: "u32 \<Rightarrow> u64" where
  "dma_buf_dir flags = (if flags AND GBM_MAP_FLAG_READ \<noteq> 0 then DMA_BUF_SYNC_READ else 0) OR
     (if flags AND GBM_MAP_FLAG_WRITE \<noteq> 0 then DMA_BUF_SYNC_WRITE else 0)"

text \<open>
  \<open>l_sync flags n\<close> is 0 or the errno of the n-th ioctl with these flags; the result is 0 or a
  negative errno.
\<close>

partial_function (option) dma_buf_sync :: "(nat \<Rightarrow> int) \<Rightarrow> nat \<Rightarrow> int option" where
  "dma_buf_sync k n =
    (if k n = EINTR \<or> k n = EAGAIN then dma_buf_sync k (Suc n) else Some (- k n))"

declare dma_buf_sync.simps [code]

section \<open>The copy context and the staging buffer\<close>

definition xfer_ready_locked :: "lock_env \<Rightarrow> lock_world \<Rightarrow> bool \<times> lock_world" where
  "xfer_ready_locked e w =
    (if w_xfer w > 0 then (True, w)
     else if w_xfer w < 0 then (False, w)
     else if l_pool e = VK_SUCCESS \<and> l_cmdbuf e = VK_SUCCESS \<and> l_fence e = VK_SUCCESS then (True, w\<lparr>w_xfer := 1\<rparr>)
     else (False, w\<lparr>w_xfer := -1\<rparr>))"

fun find_staging :: "u32 \<Rightarrow> u32 \<Rightarrow> u32 list \<Rightarrow> nat \<Rightarrow> nat option" where
  "find_staging bits want [] i = None"
| "find_staging bits want (flags # fs) i =
    (if bits AND push_bit i 1 \<noteq> 0 \<and> (flags AND want) = want \<and> flags AND MEM_DEVICE_LOCAL = 0 then Some i
     else find_staging bits want fs (Suc i))"

definition staging_type :: "u32 \<Rightarrow> u32 list \<Rightarrow> nat option" where
  "staging_type bits memtypes =
    (let cached = MEM_HOST_VISIBLE OR MEM_HOST_CACHED in
     case find_staging bits (cached OR MEM_HOST_COHERENT) memtypes 0 of
       Some t \<Rightarrow> Some t
     | None \<Rightarrow> find_staging bits cached memtypes 0)"

text \<open>
  The body of \<open>tiled_setup_locked\<close> up to the label \<open>fail\<close>: on failure the buffer has the handles
  made so far. Memory allocated with the duplicated descriptor takes it over.
\<close>

definition setup_staging :: "setup_env \<Rightarrow> u32 list \<Rightarrow> nvg_bo \<Rightarrow> bool \<times> nvg_bo \<times> lock_res ev list" where
  "setup_staging s memtypes bo0 =
    (let bo1 = bo0\<lparr>bo_stg_size := ucast (bo_stride bo0) * ucast (bo_height bo0)\<rparr> in
     if s_create_buffer s (bo_stg_size bo1) \<noteq> VK_SUCCESS then (False, bo1, [])
     else let bo2 = bo1\<lparr>bo_stg := True\<rparr> in
     case staging_type (s_breq_bits s) memtypes of
       None \<Rightarrow> (False, bo2, [Acq TStg])
     | Some t \<Rightarrow>
         let bo3 = bo2\<lparr>bo_stg_coherent := (memtypes ! t AND MEM_HOST_COHERENT \<noteq> 0)\<rparr> in
         if s_balloc s \<noteq> VK_SUCCESS then (False, bo3, [Acq TStg])
         else let bo4 = bo3\<lparr>bo_stg_mem := True\<rparr> in
         if s_bbind s \<noteq> VK_SUCCESS \<or> s_map s \<noteq> VK_SUCCESS then (False, bo4, [Acq TStg, Acq TStgMem])
         else (True, bo4\<lparr>bo_stg_ptr := Some (s_ptr s)\<rparr>, [Acq TStg, Acq TStgMem]))"

definition setup_image :: "setup_env \<Rightarrow> u32 list \<Rightarrow> nvg_bo \<Rightarrow> bool \<times> nvg_bo \<times> lock_res ev list" where
  "setup_image s memtypes bo0 =
    (if s_create_image s \<noteq> VK_SUCCESS then (False, bo0\<lparr>bo_img := False\<rparr>, [])
     else let bo1 = bo0\<lparr>bo_img := True\<rparr> in
     if s_fdp s \<noteq> VK_SUCCESS \<or> find_mem_type (s_req_bits s AND s_fdp_bits s) 0 memtypes 0 = None \<or> s_req_size s > bo_size bo1
     then (False, bo1, [Acq TImg])
     else if s_dup s < 0 then (False, bo1, [Acq TImg])
     else if s_alloc s \<noteq> VK_SUCCESS then (False, bo1, [Acq TImg, Acq (DupFd (s_dup s)), Rel (DupFd (s_dup s))])
     else let bo2 = bo1\<lparr>bo_img_mem := True\<rparr>;
              tr = [Acq TImg, Acq (DupFd (s_dup s)), Rel (DupFd (s_dup s)), Acq TImgMem] in
     if s_bind s \<noteq> VK_SUCCESS then (False, bo2, tr)
     else (True, bo2, tr))"

definition tiled_setup_locked :: "setup_env \<Rightarrow> u32 list \<Rightarrow> nvg_bo \<Rightarrow> bool \<times> nvg_bo \<times> lock_res ev list" where
  "tiled_setup_locked s memtypes bo =
    (let (ok1, bo1, tr1) = setup_image s memtypes bo;
         (ok2, bo2, tr2) = (if ok1 then setup_staging s memtypes bo1 else (False, bo1, []))
     in if ok2 then (True, bo2, tr1 @ tr2)
        else let (bo3, tr3) = tiled_release_locked bo2 in (False, bo3, tr1 @ tr2 @ tr3))"

section \<open>Copies\<close>

text \<open>
  The copy region: rows of \<open>bufferRowLength = stride / bpp\<close> pixels in the buffer, the image's width
  and height of pixels of \<open>bpp\<close> bytes.
\<close>

definition row_pitch :: "nvg_bo \<Rightarrow> nvg_format \<Rightarrow> nat" where
  "row_pitch bo f = unat (bo_stride bo div nf_bpp f) * unat (nf_bpp f)"

definition row_bytes :: "nvg_bo \<Rightarrow> nvg_format \<Rightarrow> nat" where
  "row_bytes bo f = unat (bo_width bo) * unat (nf_bpp f)"

definition copy_image_to_buffer :: "nvg_bo \<Rightarrow> nvg_format \<Rightarrow> lock_world \<Rightarrow> lock_world" where
  "copy_image_to_buffer bo f w = w\<lparr>w_staging := (\<lambda>off.
     if off div row_pitch bo f < unat (bo_height bo) \<and> off mod row_pitch bo f < row_bytes bo f
     then w_image w (off div row_pitch bo f) (off mod row_pitch bo f) else w_staging w off)\<rparr>"

definition copy_buffer_to_image :: "nvg_bo \<Rightarrow> nvg_format \<Rightarrow> lock_world \<Rightarrow> lock_world" where
  "copy_buffer_to_image bo f w = w\<lparr>w_image := (\<lambda>r c.
     if r < unat (bo_height bo) \<and> c < row_bytes bo f then w_staging w (r * row_pitch bo f + c) else w_image w r c)\<rparr>"

definition tiled_copy_locked :: "copy_env \<Rightarrow> nvg_bo \<Rightarrow> nvg_format \<Rightarrow> bool \<Rightarrow> lock_world \<Rightarrow> bool \<times> lock_world" where
  "tiled_copy_locked c bo f to_staging w =
    (if c_reset c \<noteq> VK_SUCCESS \<or> c_begin c \<noteq> VK_SUCCESS then (False, w)
     else if c_end c \<noteq> VK_SUCCESS \<or> c_submit c \<noteq> VK_SUCCESS then (False, w)
     else if c_wait c \<noteq> VK_SUCCESS
     then (False, w\<lparr>w_image := fst (c_torn c), w_staging := snd (c_torn c), w_xfer := -1\<rparr>)
     else let w1 = (if to_staging then copy_image_to_buffer bo f w else copy_buffer_to_image bo f w) in
     if c_reset_fence c \<noteq> VK_SUCCESS then (False, w1\<lparr>w_xfer := -1\<rparr>)
     else (True, w1))"

section \<open>Locks of block-linear buffers\<close>

text \<open>The result is the errno or the mapping; the trace comes last.\<close>

definition nvg_map_tiled :: "lock_env \<Rightarrow> nvg_bo \<Rightarrow> u32 \<Rightarrow> lock_world \<Rightarrow> (int + nvg_map) \<times> nvg_bo \<times> lock_world \<times> lock_res ev list" where
  "nvg_map_tiled e bo flags w =
    (case find_format (bo_format bo) of
       None \<Rightarrow> (Inl EINVAL, bo, w, [])
     | Some f \<Rightarrow>
    if bo_stride bo mod nf_bpp f \<noteq> 0 \<or> bo_stride bo < bo_width bo * nf_bpp f then (Inl EINVAL, bo, w, [])
    else (case vk_get (l_icd e) (bo_rdev bo) (w_gbm w) of
       (None, g, tr) \<Rightarrow> (Inl ENODEV, bo, w\<lparr>w_gbm := g\<rparr>, map (map_ev Dev) tr)
     | (Some vk, g, dtr) \<Rightarrow>
    let w0 = w\<lparr>w_gbm := g\<rparr>; tr = map (map_ev Dev) dtr in
    if \<not> l_malloc e then (Inl ENOMEM, bo, w0, tr)
    else let pre = tr @ [Acq MapBlk, Acq XferLock]; post = [Rel XferLock, Rel MapBlk] in
    if bo_locked bo then (Inl EBUSY, bo, w0, pre @ post)
    else let (ready, w1) = xfer_ready_locked e w0 in
    if \<not> ready then (Inl EIO, bo, w1, pre @ post)
    else let (ok, bo1, str) = (if bo_img bo then (True, bo, []) else tiled_setup_locked (l_setup e) (v_memprops vk) bo) in
    if \<not> ok then (Inl EIO, bo1, w1, pre @ str @ post)
    else let (copied, w2) = tiled_copy_locked (l_copy e) bo1 f True w1 in
    if \<not> copied then (Inl EIO, bo1, w2, pre @ str @ post)
    else if \<not> bo_stg_coherent bo1 \<and> l_ranges e \<noteq> VK_SUCCESS then (Inl EIO, bo1, w2, pre @ str @ post)
    else (Inr \<lparr>m_addr = bo_stg_ptr bo1, m_size = bo_stg_size bo1, m_tiled = True, m_flags = flags\<rparr>,
          bo1\<lparr>bo_locked := True\<rparr>, w2, pre @ str @ [Rel XferLock])))"

definition nvg_unmap_tiled :: "lock_env \<Rightarrow> nvg_bo \<Rightarrow> nvg_map \<Rightarrow> u32 \<Rightarrow> lock_world \<Rightarrow> nvg_bo \<times> lock_world \<times> lock_res ev list" where
  "nvg_unmap_tiled e bo m flags w =
    (let tr = [Acq XferLock, Rel XferLock, Rel MapBlk] in
     if (m_flags m OR flags) AND GBM_MAP_FLAG_WRITE = 0 then (bo\<lparr>bo_locked := False\<rparr>, w, tr)
     else let ok = (bo_locked bo \<and> find_format (bo_format bo) \<noteq> None \<and> w_xfer w > 0);
              ok1 = (ok \<and> (bo_stg_coherent bo \<or> l_ranges e = VK_SUCCESS));
              w1 = (if ok1 then snd (tiled_copy_locked (l_copy e) bo (the (find_format (bo_format bo))) False w) else w)
     in (bo\<lparr>bo_locked := False\<rparr>, w1, tr))"

section \<open>The entry points\<close>

definition nvg_map_impl :: "lock_env \<Rightarrow> nvg_bo option \<Rightarrow> u32 \<Rightarrow> lock_world \<Rightarrow>
    ((int + nvg_map) \<times> nvg_bo option \<times> lock_world \<times> lock_res ev list) option" where
  "nvg_map_impl e obo flags w =
    (case obo of
       None \<Rightarrow> Some (Inl EINVAL, None, w, [])
     | Some bo \<Rightarrow>
         if bo_modifier bo \<noteq> DRM_FORMAT_MOD_LINEAR
         then (case nvg_map_tiled e bo flags w of (r, bo', w', tr) \<Rightarrow> Some (r, Some bo', w', tr))
         else if \<not> l_malloc e then Some (Inl ENOMEM, Some bo, w, [])
         else (case l_mmap e of
            Inl errno \<Rightarrow> Some (Inl errno, Some bo, w, [Acq MapBlk, Rel MapBlk])
          | Inr p \<Rightarrow>
              Option.bind (dma_buf_sync (l_sync e (DMA_BUF_SYNC_START OR dma_buf_dir flags)) 0) (\<lambda>sr.
              if sr \<noteq> 0 then Some (Inl (- sr), Some bo, w, [Acq MapBlk, Acq (LinMap p), Rel (LinMap p), Rel MapBlk])
              else Some (Inr \<lparr>m_addr = Some p, m_size = bo_size bo, m_tiled = False, m_flags = flags\<rparr>, Some bo, w,
                         [Acq MapBlk, Acq (LinMap p)]))))"

definition nvg_unmap_impl :: "lock_env \<Rightarrow> nvg_bo option \<Rightarrow> nvg_map option \<Rightarrow> u32 \<Rightarrow> lock_world \<Rightarrow>
    (nvg_bo option \<times> lock_world \<times> lock_res ev list) option" where
  "nvg_unmap_impl e obo om flags w =
    (case (obo, om) of
       (Some bo, Some m) \<Rightarrow>
         if m_tiled m then (case nvg_unmap_tiled e bo m flags w of (bo', w', tr) \<Rightarrow> Some (Some bo', w', tr))
         else Option.bind (dma_buf_sync (l_sync e (DMA_BUF_SYNC_END OR dma_buf_dir (m_flags m OR flags))) 0) (\<lambda>sr.
           Some (obo, w, (case m_addr m of None \<Rightarrow> [] | Some p \<Rightarrow> [Rel (LinMap p)]) @ [Rel MapBlk]))
     | _ \<Rightarrow> Some (obo, w, []))"

definition nvg_map_plain :: "lock_env \<Rightarrow> nvg_bo option \<Rightarrow> lock_world \<Rightarrow>
    ((int + nvg_map) \<times> nvg_bo option \<times> lock_world \<times> lock_res ev list) option" where
  "nvg_map_plain e obo w = nvg_map_impl e obo NVG_MAP_RW w"

definition nvg_unmap :: "lock_env \<Rightarrow> nvg_bo option \<Rightarrow> nvg_map option \<Rightarrow> lock_world \<Rightarrow>
    (nvg_bo option \<times> lock_world \<times> lock_res ev list) option" where
  "nvg_unmap e obo om w = nvg_unmap_impl e obo om NVG_MAP_RW w"

definition nvg_map_flags :: "lock_env \<Rightarrow> nvg_bo option \<Rightarrow> u32 \<Rightarrow> lock_world \<Rightarrow>
    ((int + nvg_map) \<times> nvg_bo option \<times> lock_world \<times> lock_res ev list) option" where
  "nvg_map_flags e obo flags w =
    (if flags = 0 \<or> flags AND NOT NVG_MAP_RW \<noteq> 0 then Some (Inl EINVAL, obo, w, [])
     else nvg_map_impl e obo flags w)"

definition nvg_unmap_flags :: "lock_env \<Rightarrow> nvg_bo option \<Rightarrow> nvg_map option \<Rightarrow> u32 \<Rightarrow> lock_world \<Rightarrow>
    (nvg_bo option \<times> lock_world \<times> lock_res ev list) option" where
  "nvg_unmap_flags e obo om flags w = nvg_unmap_impl e obo om (flags AND NVG_MAP_RW) w"

section \<open>What a buffer and the process hold\<close>

definition tiled_holds :: "nvg_bo \<Rightarrow> lock_res multiset" where
  "tiled_holds bo = (if bo_stg bo then {#TStg#} else {#}) + (if bo_stg_mem bo then {#TStgMem#} else {#}) +
     (if bo_img bo then {#TImg#} else {#}) + (if bo_img_mem bo then {#TImgMem#} else {#})"

definition world_holds :: "lock_world \<Rightarrow> lock_res multiset" where
  "world_holds w = image_mset Dev (dev_holds (g_vk (w_gbm w)))"

definition mapping_holds :: "nvg_map \<Rightarrow> lock_res multiset" where
  "mapping_holds m = {#MapBlk#} + (if m_tiled m then {#} else case m_addr m of None \<Rightarrow> {#} | Some p \<Rightarrow> {#LinMap p#})"

text \<open>The staging cache of a buffer is complete or empty, and only a complete one is locked.\<close>

definition bo_inv :: "nvg_bo \<Rightarrow> bool" where
  "bo_inv bo \<longleftrightarrow> bo_img_mem bo = bo_img bo \<and> bo_stg bo = bo_img bo \<and> bo_stg_mem bo = bo_img bo \<and>
     (bo_stg_ptr bo \<noteq> None) = bo_img bo \<and> (bo_locked bo \<longrightarrow> bo_img bo)"

definition same_buffer :: "nvg_bo \<Rightarrow> nvg_bo \<Rightarrow> bool" where
  "same_buffer bo bo' \<longleftrightarrow> bo_fd bo' = bo_fd bo \<and> bo_size bo' = bo_size bo \<and> bo_modifier bo' = bo_modifier bo \<and>
     bo_width bo' = bo_width bo \<and> bo_height bo' = bo_height bo \<and> bo_stride bo' = bo_stride bo \<and> bo_format bo' = bo_format bo \<and>
     bo_rdev bo' = bo_rdev bo"

lemma release_run: "run_ev (K + tiled_holds bo) (snd (tiled_release_locked bo)) = Some K"
  by (cases "bo_stg bo"; cases "bo_stg_mem bo"; cases "bo_img bo"; cases "bo_img_mem bo")
     (simp_all add: tiled_release_locked_def tiled_holds_def)

lemma released: "fst (tiled_release_locked bo) = bo' \<Longrightarrow> bo_inv bo' \<and> same_buffer bo bo' \<and> tiled_holds bo' = {#} \<and> \<not> bo_img bo' \<and> \<not> bo_locked bo'"
  by (auto simp: tiled_release_locked_def bo_inv_def same_buffer_def tiled_holds_def)

lemma setup_image_spec:
  assumes "setup_image s mts bo = (ok, bo', tr)" "\<not> bo_img bo" "bo_inv bo"
  shows "run_ev K tr = Some (K + tiled_holds bo')" "same_buffer bo bo'" "bo_locked bo' = bo_locked bo"
    "ok \<Longrightarrow> bo_img bo' \<and> bo_img_mem bo' \<and> \<not> bo_stg bo' \<and> \<not> bo_stg_mem bo'"
  using assms by (auto simp: setup_image_def Let_def tiled_holds_def same_buffer_def bo_inv_def split: if_splits)

definition staging_post :: "lock_res multiset \<Rightarrow> nvg_bo \<Rightarrow> bool \<times> nvg_bo \<times> lock_res ev list \<Rightarrow> bool" where
  "staging_post K bo = (\<lambda>(ok, bo', tr). run_ev (K + tiled_holds bo) tr = Some (K + tiled_holds bo') \<and> same_buffer bo bo' \<and>
     bo_locked bo' = bo_locked bo \<and> bo_img bo' = bo_img bo \<and> bo_img_mem bo' = bo_img_mem bo \<and>
     (ok \<longrightarrow> bo_stg bo' \<and> bo_stg_mem bo' \<and> bo_stg_ptr bo' \<noteq> None \<and>
        bo_stg_size bo' = ucast (bo_stride bo) * ucast (bo_height bo)))"

lemma setup_staging_spec:
  assumes "\<not> bo_stg bo" "\<not> bo_stg_mem bo"
  shows "staging_post K bo (setup_staging s mts bo)"
proof -
  define z where "z = ucast (bo_stride bo) * ucast (bo_height bo :: u32) + (0 :: u64)"
  have z: "ucast (bo_stride bo) * ucast (bo_height bo) = z" by (simp add: z_def)
  consider "s_create_buffer s z \<noteq> VK_SUCCESS" | "s_create_buffer s z = VK_SUCCESS" "staging_type (s_breq_bits s) mts = None"
    | t where "s_create_buffer s z = VK_SUCCESS" "staging_type (s_breq_bits s) mts = Some t" "s_balloc s \<noteq> VK_SUCCESS"
    | t where "s_create_buffer s z = VK_SUCCESS" "staging_type (s_breq_bits s) mts = Some t" "s_balloc s = VK_SUCCESS"
        "s_bbind s \<noteq> VK_SUCCESS \<or> s_map s \<noteq> VK_SUCCESS"
    | t where "s_create_buffer s z = VK_SUCCESS" "staging_type (s_breq_bits s) mts = Some t" "s_balloc s = VK_SUCCESS"
        "\<not> (s_bbind s \<noteq> VK_SUCCESS \<or> s_map s \<noteq> VK_SUCCESS)"
    by (cases "staging_type (s_breq_bits s) mts") blast+
  then show ?thesis
    by cases (simp_all add: setup_staging_def z Let_def staging_post_def tiled_holds_def same_buffer_def assms)
qed

lemma tiled_setup_spec:
  assumes "\<not> bo_img bo" "bo_inv bo" "tiled_setup_locked s mts bo = (ok, bo', tr)"
  shows "run_ev K tr = Some (K + tiled_holds bo')" "same_buffer bo bo'" "bo_inv bo'" "ok = bo_img bo'" "\<not> bo_locked bo'"
    "ok \<Longrightarrow> bo_stg_size bo' = ucast (bo_stride bo) * ucast (bo_height bo)"
proof -
  obtain ok1 bo1 tr1 where i: "setup_image s mts bo = (ok1, bo1, tr1)" by (cases "setup_image s mts bo")
  note si = setup_image_spec [OF i assms(1,2)]
  define R where "R = (if ok1 then setup_staging s mts bo1 else (False, bo1, []))"
  obtain ok2 bo2 tr2 where R: "R = (ok2, bo2, tr2)" by (cases R)
  have st: "run_ev (K + tiled_holds bo1) tr2 = Some (K + tiled_holds bo2)" "same_buffer bo1 bo2" "bo_locked bo2 = bo_locked bo1"
      "ok2 \<Longrightarrow> bo_img bo2 \<and> bo_img_mem bo2 \<and> bo_stg bo2 \<and> bo_stg_mem bo2 \<and> bo_stg_ptr bo2 \<noteq> None \<and>
        bo_stg_size bo2 = ucast (bo_stride bo1) * ucast (bo_height bo1)" for K
    using setup_staging_spec [of bo1 K s mts] si(4) R by (auto simp: R_def staging_post_def same_buffer_def split: if_splits)
  have nolock: "\<not> bo_locked bo" using assms(1,2) by (simp add: bo_inv_def)
  have eq: "tiled_setup_locked s mts bo = (if ok2 then (True, bo2, tr1 @ tr2)
      else (False, fst (tiled_release_locked bo2), tr1 @ tr2 @ snd (tiled_release_locked bo2)))"
    unfolding tiled_setup_locked_def i Let_def prod.case R_def [symmetric] R by (simp add: split_def)
  have "run_ev K tr = Some (K + tiled_holds bo') \<and> same_buffer bo bo' \<and> bo_inv bo' \<and> ok = bo_img bo' \<and> \<not> bo_locked bo' \<and>
      (ok \<longrightarrow> bo_stg_size bo' = ucast (bo_stride bo) * ucast (bo_height bo))"
  proof (cases ok2)
    case True
    then have "ok" "bo' = bo2" "tr = tr1 @ tr2" using eq assms(3) by auto
    then show ?thesis using True st(1) [of K] st(2-4) si nolock by (simp add: run_ev_append bo_inv_def same_buffer_def)
  next
    case False
    then have e: "\<not> ok" "bo' = fst (tiled_release_locked bo2)" "tr = tr1 @ tr2 @ snd (tiled_release_locked bo2)"
      using eq assms(3) by auto
    have "same_buffer bo bo2" using st(2) si(2) by (auto simp: same_buffer_def)
    then show ?thesis using e st(1) [of K] si(1) release_run [of K bo2] released [of bo2 bo']
      by (simp add: run_ev_append same_buffer_def)
  qed
  then show "run_ev K tr = Some (K + tiled_holds bo')" "same_buffer bo bo'" "bo_inv bo'" "ok = bo_img bo'" "\<not> bo_locked bo'"
    "ok \<Longrightarrow> bo_stg_size bo' = ucast (bo_stride bo) * ucast (bo_height bo)" by blast+
qed

section \<open>Locking and unlocking\<close>

definition map_post :: "nvg_bo \<Rightarrow> lock_world \<Rightarrow> (int + nvg_map) \<times> nvg_bo \<times> lock_world \<times> lock_res ev list \<Rightarrow> bool" where
  "map_post bo w = (\<lambda>(r, bo', w', tr). gbm_ok (w_gbm w') \<and> bo_inv bo' \<and> same_buffer bo bo' \<and>
     (\<forall>K. run_ev (K + world_holds w + tiled_holds bo) tr =
        Some (K + world_holds w' + tiled_holds bo' + (case r of Inl _ \<Rightarrow> {#} | Inr m \<Rightarrow> mapping_holds m))) \<and>
     (case r of Inl _ \<Rightarrow> bo_locked bo' = bo_locked bo | Inr m \<Rightarrow> bo_locked bo' = (m_tiled m \<or> bo_locked bo)))"

lemma dev_events_run:
  assumes "gbm_ok (w_gbm w)" "vk_get e rdev (w_gbm w) = (r, g, tr)"
  shows "run_ev (K + world_holds w) (map (map_ev Dev) tr) = Some (K + world_holds (w\<lparr>w_gbm := g\<rparr>))"
proof -
  have "inj Dev" by (auto simp: inj_def)
  then show ?thesis
    using run_ev_frame [OF run_ev_map [OF _ vk_get_run(2) [OF assms]], of Dev K] by (simp add: world_holds_def)
qed

lemma xfer_ready_gbm: "xfer_ready_locked e w = (ok, w') \<Longrightarrow> w_gbm w' = w_gbm w \<and> w_image w' = w_image w \<and> w_staging w' = w_staging w"
  by (auto simp: xfer_ready_locked_def split: if_splits)

lemma xfer_ready_pos: "xfer_ready_locked e w = (True, w') \<Longrightarrow> w_xfer w' > 0"
  by (auto simp: xfer_ready_locked_def split: if_splits)

lemma tiled_copy_gbm: "tiled_copy_locked c bo f b w = (ok, w') \<Longrightarrow> w_gbm w' = w_gbm w"
  by (auto simp: tiled_copy_locked_def copy_image_to_buffer_def copy_buffer_to_image_def Let_def split: if_splits)

lemma world_holds_cong: "w_gbm w' = w_gbm w \<Longrightarrow> world_holds w' = world_holds w"
  by (simp add: world_holds_def)

text \<open>
  The course of a lock once the device is there: what \<open>nvg_map_tiled\<close> does between taking and
  releasing the copy lock.
\<close>

lemma map_tiled_cases:
  assumes "nvg_map_tiled e bo flags w = (r, bo', w', tr)"
  obtains (refused) "r = Inl EINVAL" "bo' = bo" "w' = w" "tr = []"
  | (nodev) f g dtr where "find_format (bo_format bo) = Some f"
      "vk_get (l_icd e) (bo_rdev bo) (w_gbm w) = (None, g, dtr)" "r = Inl ENODEV" "bo' = bo"
      "w' = w\<lparr>w_gbm := g\<rparr>" "tr = map (map_ev Dev) dtr"
  | (early) f vk g dtr x mid where "find_format (bo_format bo) = Some f"
      "vk_get (l_icd e) (bo_rdev bo) (w_gbm w) = (Some vk, g, dtr)" "r = Inl x" "bo' = bo" "w_gbm w' = g"
      "tr = map (map_ev Dev) dtr @ mid" "mid = [] \<or> mid = [Acq MapBlk, Acq XferLock, Rel XferLock, Rel MapBlk]"
  | (late) f vk g dtr w1 ok bo1 str where "find_format (bo_format bo) = Some f" "bo_stride bo mod nf_bpp f = 0"
      "\<not> bo_stride bo < bo_width bo * nf_bpp f"
      "vk_get (l_icd e) (bo_rdev bo) (w_gbm w) = (Some vk, g, dtr)" "\<not> bo_locked bo"
      "xfer_ready_locked e (w\<lparr>w_gbm := g\<rparr>) = (True, w1)"
      "(ok, bo1, str) = (if bo_img bo then (True, bo, []) else tiled_setup_locked (l_setup e) (v_memprops vk) bo)"
      "(\<not> ok \<and> r = Inl EIO \<and> bo' = bo1 \<and> w' = w1 \<and> tr = map (map_ev Dev) dtr @ [Acq MapBlk, Acq XferLock] @ str @ [Rel XferLock, Rel MapBlk]) \<or>
       (ok \<and> r = Inl EIO \<and> bo' = bo1 \<and> w' = snd (tiled_copy_locked (l_copy e) bo1 f True w1) \<and>
          tr = map (map_ev Dev) dtr @ [Acq MapBlk, Acq XferLock] @ str @ [Rel XferLock, Rel MapBlk]) \<or>
       (ok \<and> tiled_copy_locked (l_copy e) bo1 f True w1 = (True, w') \<and> bo' = bo1\<lparr>bo_locked := True\<rparr> \<and>
          r = Inr \<lparr>m_addr = bo_stg_ptr bo1, m_size = bo_stg_size bo1, m_tiled = True, m_flags = flags\<rparr> \<and>
          tr = map (map_ev Dev) dtr @ [Acq MapBlk, Acq XferLock] @ str @ [Rel XferLock])"
proof (cases "find_format (bo_format bo)")
  case None
  then show thesis using assms refused by (simp add: nvg_map_tiled_def)
next
  case (Some f)
  show thesis
  proof (cases "bo_stride bo mod nf_bpp f \<noteq> 0 \<or> bo_stride bo < bo_width bo * nf_bpp f")
    case True
    then show thesis using assms refused Some by (simp add: nvg_map_tiled_def)
  next
    case False
    obtain ovk g dtr where v: "vk_get (l_icd e) (bo_rdev bo) (w_gbm w) = (ovk, g, dtr)"
      by (cases "vk_get (l_icd e) (bo_rdev bo) (w_gbm w)")
    show thesis
    proof (cases ovk)
      case None
      then show thesis using assms nodev Some False v by (simp add: nvg_map_tiled_def)
    next
      case vk: (Some vk)
      obtain ready w1 where x: "xfer_ready_locked e (w\<lparr>w_gbm := g\<rparr>) = (ready, w1)" by (cases "xfer_ready_locked e (w\<lparr>w_gbm := g\<rparr>)")
      have wg: "w_gbm w1 = g" using xfer_ready_gbm [OF x] by simp
      note unf = assms [unfolded nvg_map_tiled_def]
      show thesis
      proof (cases "l_malloc e \<and> \<not> bo_locked bo \<and> ready")
        case bad: False
        then have "\<exists>x mid. r = Inl x \<and> bo' = bo \<and> w_gbm w' = g \<and> tr = map (map_ev Dev) dtr @ mid \<and>
            (mid = [] \<or> mid = [Acq MapBlk, Acq XferLock, Rel XferLock, Rel MapBlk])"
          using unf Some False v vk x wg by (auto simp: Let_def split: if_splits)
        then show thesis using early Some v vk by blast
      next
        case good: True
        define R where "R = (if bo_img bo then (True, bo, []) else tiled_setup_locked (l_setup e) (v_memprops vk) bo)"
        obtain ok bo1 str where R: "R = (ok, bo1, str)" by (cases R)
        obtain copied w2 where c: "tiled_copy_locked (l_copy e) bo1 f True w1 = (copied, w2)"
          by (cases "tiled_copy_locked (l_copy e) bo1 f True w1")
        have eq: "nvg_map_tiled e bo flags w =
          (let pre = map (map_ev Dev) dtr @ [Acq MapBlk, Acq XferLock]; post = [Rel XferLock, Rel MapBlk] in
           if \<not> ok then (Inl EIO, bo1, w1, pre @ str @ post)
           else if \<not> copied then (Inl EIO, bo1, w2, pre @ str @ post)
           else if \<not> bo_stg_coherent bo1 \<and> l_ranges e \<noteq> VK_SUCCESS then (Inl EIO, bo1, w2, pre @ str @ post)
           else (Inr \<lparr>m_addr = bo_stg_ptr bo1, m_size = bo_stg_size bo1, m_tiled = True, m_flags = flags\<rparr>,
              bo1\<lparr>bo_locked := True\<rparr>, w2, pre @ str @ [Rel XferLock]))"
          using Some False v vk x good c
          unfolding nvg_map_tiled_def R_def [symmetric] R by (simp add: Let_def R_def [symmetric] R)
        show thesis
          by (rule late [OF Some _ _ v [unfolded vk] _ _ R [unfolded R_def, symmetric]])
             (use False good x c eq assms in \<open>auto simp: Let_def split: if_splits\<close>)
      qed
    qed
  qed
qed

lemma map_postI:
  assumes "gbm_ok (w_gbm w')" "bo_inv bo'" "same_buffer bo bo'"
    "\<And>K. run_ev (K + world_holds w + tiled_holds bo) tr =
        Some (K + world_holds w' + tiled_holds bo' + (case r of Inl _ \<Rightarrow> {#} | Inr m \<Rightarrow> mapping_holds m))"
    "case r of Inl _ \<Rightarrow> bo_locked bo' = bo_locked bo | Inr m \<Rightarrow> bo_locked bo' = (m_tiled m \<or> bo_locked bo)"
  shows "map_post bo w (r, bo', w', tr)"
  using assms by (simp add: map_post_def)

lemma same_buffer_refl [simp]: "same_buffer bo bo"
  by (simp add: same_buffer_def)

lemma tiled_holds_lock [simp]: "tiled_holds (bo\<lparr>bo_locked := b\<rparr>) = tiled_holds bo"
  by (simp add: tiled_holds_def)

lemma same_buffer_lock [simp]: "same_buffer bo (bo'\<lparr>bo_locked := b\<rparr>) = same_buffer bo bo'"
  by (simp add: same_buffer_def)

lemma locked_inv: "bo_inv bo \<Longrightarrow> b \<longrightarrow> bo_img bo \<Longrightarrow> bo_inv (bo\<lparr>bo_locked := b\<rparr>)"
  by (simp add: bo_inv_def)

lemma map_tiled_post:
  assumes "gbm_ok (w_gbm w)" "bo_inv bo"
  shows "map_post bo w (nvg_map_tiled e bo flags w)"
proof -
  obtain r bo' w' tr where m: "nvg_map_tiled e bo flags w = (r, bo', w', tr)" by (cases "nvg_map_tiled e bo flags w")
  have dev: "gbm_ok g \<and> run_ev (K + world_holds w + tiled_holds bo) (map (map_ev Dev) dtr) =
      Some (K + world_holds (w\<lparr>w_gbm := g\<rparr>) + tiled_holds bo)"
    if "vk_get (l_icd e) (bo_rdev bo) (w_gbm w) = (ovk, g, dtr)" for ovk g dtr K
    using vk_get_run(1) [OF assms(1) that] dev_events_run [OF assms(1) that, of "K + tiled_holds bo"] by (simp add: ac_simps)
  show ?thesis unfolding m using m
  proof (cases rule: map_tiled_cases)
    case refused
    then show "map_post bo w (r, bo', w', tr)" using assms by (auto intro: map_postI)
  next
    case (nodev f g dtr)
    then show "map_post bo w (r, bo', w', tr)" using dev [OF nodev(2)] assms(2) by (auto intro!: map_postI)
  next
    case (early f vk g dtr x mid)
    have "world_holds w' = world_holds (w\<lparr>w_gbm := g\<rparr>)" by (rule world_holds_cong) (simp add: early)
    then show "map_post bo w (r, bo', w', tr)" using early dev [OF early(2)] assms(2)
      by (auto intro!: map_postI simp: run_ev_append)
  next
    case (late f vk g dtr w1 ok bo1 str)
    have wg: "w_gbm w1 = g" using xfer_ready_gbm [OF late(6)] by simp
    then have wg': "w_gbm w' = g" using late(8) tiled_copy_gbm [of "l_copy e" bo1 f True w1]
      by (metis prod.collapse snd_conv)
    then have wh: "world_holds w' = world_holds (w\<lparr>w_gbm := g\<rparr>)" by (intro world_holds_cong) simp
    have su: "run_ev (K + tiled_holds bo) str = Some (K + tiled_holds bo1) \<and> same_buffer bo bo1 \<and> bo_inv bo1 \<and>
        ok = bo_img bo1 \<and> \<not> bo_locked bo1" for K
    proof (cases "bo_img bo")
      case True
      then show ?thesis using late(5,7) assms(2) by simp
    next
      case False
      then have "tiled_setup_locked (l_setup e) (v_memprops vk) bo = (ok, bo1, str)" using late(7) by simp
      moreover have "tiled_holds bo = {#}" using False assms(2) by (simp add: bo_inv_def tiled_holds_def)
      ultimately show ?thesis using tiled_setup_spec [OF False assms(2), of "l_setup e" "v_memprops vk" ok bo1 str] by simp
    qed
    have run: "run_ev (K + world_holds w + tiled_holds bo) (map (map_ev Dev) dtr @ [Acq MapBlk, Acq XferLock] @ str) =
        Some (add_mset XferLock (add_mset MapBlk (K + world_holds w' + tiled_holds bo1)))" for K
      using conjunct2 [OF dev [OF late(4), of K]]
        conjunct1 [OF su [of "add_mset XferLock (add_mset MapBlk (K + world_holds w'))"]]
      by (simp add: run_ev_append wh)
    have after: "run_ev (K + world_holds w + tiled_holds bo) (map (map_ev Dev) dtr @ Acq MapBlk # Acq XferLock # str @ tail) =
        run_ev (add_mset XferLock (add_mset MapBlk (K + world_holds w' + tiled_holds bo1))) tail" for K tail
      using run [of K] run_ev_append [of "K + world_holds w + tiled_holds bo" "map (map_ev Dev) dtr @ [Acq MapBlk, Acq XferLock] @ str" tail]
      by (simp only: append_assoc append_Cons append_Nil option.case)
    have ok': "gbm_ok (w_gbm w')" using dev [OF late(4), of "{#}"] wg' by simp
    consider (fail) "r = Inl EIO" "bo' = bo1" "tr = map (map_ev Dev) dtr @ [Acq MapBlk, Acq XferLock] @ str @ [Rel XferLock, Rel MapBlk]"
      | (fin) "ok" "bo' = bo1\<lparr>bo_locked := True\<rparr>" "tr = map (map_ev Dev) dtr @ [Acq MapBlk, Acq XferLock] @ str @ [Rel XferLock]"
          "r = Inr \<lparr>m_addr = bo_stg_ptr bo1, m_size = bo_stg_size bo1, m_tiled = True, m_flags = flags\<rparr>"
      using late(8) by blast
    then show "map_post bo w (r, bo', w', tr)"
    proof cases
      case fail
      show ?thesis using su [of "{#}"] ok' late(5) by (intro map_postI) (auto simp: fail after)
    next
      case fin
      show ?thesis using su [of "{#}"] ok' fin(1)
        by (intro map_postI) (auto simp: fin(2-4) after mapping_holds_def locked_inv)
    qed
  qed
qed

lemma unmap_tiled_post:
  assumes "bo_inv bo" "m_tiled m" "nvg_unmap_tiled e bo m flags w = (bo', w', tr)"
  shows "bo_inv bo'" "same_buffer bo bo'" "\<not> bo_locked bo'" "w_gbm w' = w_gbm w" "tiled_holds bo' = tiled_holds bo"
    "run_ev (K + mapping_holds m) tr = Some K"
proof -
  have g: "w_gbm (snd (tiled_copy_locked c b f x w)) = w_gbm w" for c b f x
    using tiled_copy_gbm [of c b f x w] by (cases "tiled_copy_locked c b f x w") simp
  show "bo_inv bo'" "same_buffer bo bo'" "\<not> bo_locked bo'" "w_gbm w' = w_gbm w" "tiled_holds bo' = tiled_holds bo"
    "run_ev (K + mapping_holds m) tr = Some K"
    using assms g by (auto simp: nvg_unmap_tiled_def Let_def locked_inv mapping_holds_def split: if_splits)
qed

section \<open>Synchronisation returns\<close>

definition retry :: "int \<Rightarrow> bool" where
  "retry x \<longleftrightarrow> x = EINTR \<or> x = EAGAIN"

text \<open>An ioctl is not interrupted forever.\<close>

definition lively_sync :: "(nat \<Rightarrow> int) \<Rightarrow> bool" where
  "lively_sync k \<longleftrightarrow> (\<forall>i. \<exists>n\<ge>i. \<not> retry (k n))"

lemma sync_returns_after: "\<not> retry (k (i + d)) \<Longrightarrow> \<exists>n\<ge>i. dma_buf_sync k i = Some (- k n) \<and> \<not> retry (k n)"
proof (induction d arbitrary: i)
  case 0
  then show ?case by (auto simp: dma_buf_sync.simps [of k i] retry_def)
next
  case (Suc d)
  show ?case
  proof (cases "retry (k i)")
    case True
    then have "dma_buf_sync k i = dma_buf_sync k (Suc i)" by (simp add: dma_buf_sync.simps [of k i] retry_def)
    moreover obtain n where "n \<ge> Suc i" "dma_buf_sync k (Suc i) = Some (- k n)" "\<not> retry (k n)"
      using Suc.IH [of "Suc i"] Suc.prems by auto
    ultimately show ?thesis by (auto intro!: exI [of _ n])
  next
    case False
    then show ?thesis by (auto simp: dma_buf_sync.simps [of k i] retry_def)
  qed
qed

lemma sync_returns:
  assumes "lively_sync k"
  shows "\<exists>n\<ge>i. dma_buf_sync k i = Some (- k n) \<and> \<not> retry (k n)"
proof -
  obtain n where "n \<ge> i" "\<not> retry (k n)" using assms by (auto simp: lively_sync_def)
  then show ?thesis using sync_returns_after [of k i "n - i"] by simp
qed

section \<open>The life of a buffer\<close>

record lock_state =
  ls_bo :: nvg_bo
  ls_world :: lock_world
  ls_maps :: "nvg_map list"

text \<open>
  A client's calls: lock, write through a staging pointer it holds, unlock one of its locks.
\<close>

datatype lock_op = LMap lock_env u32 | LCpu "(nat \<Rightarrow> u8) \<Rightarrow> nat \<Rightarrow> u8" | LUnmap lock_env nat u32

definition drop_nth :: "nat \<Rightarrow> 'a list \<Rightarrow> 'a list" where
  "drop_nth i xs = take i xs @ drop (Suc i) xs"

fun lock_step :: "lock_op \<Rightarrow> lock_state \<Rightarrow> (lock_state \<times> lock_res ev list) option" where
  "lock_step (LMap e flags) st =
    (case nvg_map_flags e (Some (ls_bo st)) flags (ls_world st) of
       Some (r, Some bo, w, tr) \<Rightarrow>
         Some (\<lparr>ls_bo = bo, ls_world = w, ls_maps = (case r of Inl _ \<Rightarrow> ls_maps st | Inr m \<Rightarrow> ls_maps st @ [m])\<rparr>, tr)
     | _ \<Rightarrow> None)"
| "lock_step (LCpu f) st =
    Some (if list_ex m_tiled (ls_maps st)
          then st\<lparr>ls_world := (ls_world st)\<lparr>w_staging := f (w_staging (ls_world st))\<rparr>\<rparr> else st, [])"
| "lock_step (LUnmap e i flags) st =
    (if i < length (ls_maps st)
     then (case nvg_unmap_flags e (Some (ls_bo st)) (Some (ls_maps st ! i)) flags (ls_world st) of
             Some (Some bo, w, tr) \<Rightarrow> Some (\<lparr>ls_bo = bo, ls_world = w, ls_maps = drop_nth i (ls_maps st)\<rparr>, tr)
           | _ \<Rightarrow> None)
     else Some (st, []))"

fun lock_run :: "lock_op list \<Rightarrow> lock_state \<Rightarrow> (lock_state \<times> lock_res ev list) option" where
  "lock_run [] st = Some (st, [])"
| "lock_run (x # xs) st =
    (case lock_step x st of
       None \<Rightarrow> None
     | Some (st1, tr) \<Rightarrow> (case lock_run xs st1 of None \<Rightarrow> None | Some (st2, tr') \<Rightarrow> Some (st2, tr @ tr')))"

definition maps_hold :: "nvg_map list \<Rightarrow> lock_res multiset" where
  "maps_hold ms = sum_list (map mapping_holds ms)"

definition state_holds :: "lock_state \<Rightarrow> lock_res multiset" where
  "state_holds st = world_holds (ls_world st) + tiled_holds (ls_bo st) + maps_hold (ls_maps st)"

definition state_ok :: "lock_state \<Rightarrow> bool" where
  "state_ok st \<longleftrightarrow> gbm_ok (w_gbm (ls_world st)) \<and> bo_inv (ls_bo st) \<and>
     length (filter m_tiled (ls_maps st)) = (if bo_locked (ls_bo st) then 1 else 0) \<and>
     list_all (\<lambda>m. m_tiled m = (bo_modifier (ls_bo st) \<noteq> DRM_FORMAT_MOD_LINEAR)) (ls_maps st)"

definition step_fine :: "lock_state \<Rightarrow> lock_state \<times> lock_res ev list \<Rightarrow> bool" where
  "step_fine st = (\<lambda>(st', tr). state_ok st' \<and> same_buffer (ls_bo st) (ls_bo st') \<and>
     (\<forall>K. run_ev (K + state_holds st) tr = Some (K + state_holds st')))"

definition env_lively :: "lock_op \<Rightarrow> bool" where
  "env_lively x = (case x of LMap e _ \<Rightarrow> \<forall>fl. lively_sync (l_sync e fl) | LCpu _ \<Rightarrow> True
     | LUnmap e _ _ \<Rightarrow> \<forall>fl. lively_sync (l_sync e fl))"

lemma drop_nth_maps:
  assumes "i < length ms"
  shows "maps_hold ms = maps_hold (drop_nth i ms) + mapping_holds (ms ! i)"
    "length (filter P ms) = length (filter P (drop_nth i ms)) + (if P (ms ! i) then 1 else 0)"
    "list_all Q ms \<Longrightarrow> list_all Q (drop_nth i ms) \<and> Q (ms ! i)"
proof -
  have split: "ms = take i ms @ ms ! i # drop (Suc i) ms" using assms by (rule id_take_nth_drop)
  have "maps_hold (take i ms @ ms ! i # drop (Suc i) ms) = maps_hold (drop_nth i ms) + mapping_holds (ms ! i)"
    by (simp add: maps_hold_def drop_nth_def)
  then show "maps_hold ms = maps_hold (drop_nth i ms) + mapping_holds (ms ! i)" by (simp only: split [symmetric])
  have "length (filter P (take i ms @ ms ! i # drop (Suc i) ms)) = length (filter P (drop_nth i ms)) + (if P (ms ! i) then 1 else 0)"
    by (simp add: drop_nth_def)
  then show "length (filter P ms) = length (filter P (drop_nth i ms)) + (if P (ms ! i) then 1 else 0)" by (simp only: split [symmetric])
  assume "list_all Q ms"
  then have "list_all Q (take i ms @ ms ! i # drop (Suc i) ms)" by (simp only: split [symmetric])
  then show "list_all Q (drop_nth i ms) \<and> Q (ms ! i)" by (simp add: drop_nth_def)
qed

lemma map_tiled_inr:
  assumes "nvg_map_tiled e bo flags w = (Inr m, bo', w', tr)"
  shows "m_tiled m \<and> \<not> bo_locked bo"
  using assms by (cases rule: map_tiled_cases) auto

lemma map_flags_post:
  assumes "gbm_ok (w_gbm w)" "bo_inv bo" "\<And>fl. lively_sync (l_sync e fl)"
  shows "\<exists>r bo' w' tr. nvg_map_flags e (Some bo) flags w = Some (r, Some bo', w', tr) \<and> map_post bo w (r, bo', w', tr) \<and>
    (\<forall>m. r = Inr m \<longrightarrow> m_tiled m = (bo_modifier bo \<noteq> DRM_FORMAT_MOD_LINEAR) \<and> (m_tiled m \<longrightarrow> \<not> bo_locked bo))"
proof -
  have stay: "map_post bo w (Inl x, bo, w, tr)" if "\<And>K. run_ev K tr = Some K" for x tr
    using assms(1,2) that by (intro map_postI) auto
  consider (bad) "flags = 0 \<or> flags AND NOT NVG_MAP_RW \<noteq> 0"
    | (tiled) "\<not> (flags = 0 \<or> flags AND NOT NVG_MAP_RW \<noteq> 0)" "bo_modifier bo \<noteq> DRM_FORMAT_MOD_LINEAR"
    | (lin) "\<not> (flags = 0 \<or> flags AND NOT NVG_MAP_RW \<noteq> 0)" "bo_modifier bo = DRM_FORMAT_MOD_LINEAR" by blast
  then show ?thesis
  proof cases
    case bad
    then show ?thesis using stay [of "[]" EINVAL] by (auto simp: nvg_map_flags_def)
  next
    case tiled
    obtain r bo' w' tr where m: "nvg_map_tiled e bo flags w = (r, bo', w', tr)" by (cases "nvg_map_tiled e bo flags w")
    have "nvg_map_flags e (Some bo) flags w = Some (r, Some bo', w', tr)"
      using tiled m by (simp add: nvg_map_flags_def nvg_map_impl_def)
    moreover have "map_post bo w (r, bo', w', tr)" using map_tiled_post [OF assms(1,2), of e flags] m by simp
    moreover have "\<forall>m'. r = Inr m' \<longrightarrow> m_tiled m' \<and> \<not> bo_locked bo" using map_tiled_inr m by blast
    ultimately show ?thesis using tiled(2) by auto
  next
    case lin
    obtain n where n: "dma_buf_sync (l_sync e (DMA_BUF_SYNC_START OR dma_buf_dir flags)) 0
        = Some (- l_sync e (DMA_BUF_SYNC_START OR dma_buf_dir flags) n)" using sync_returns [OF assms(3)] by blast
    consider "\<not> l_malloc e" | x where "l_malloc e" "l_mmap e = Inl x" | p where "l_malloc e" "l_mmap e = Inr p"
      by (cases "l_mmap e") auto
    then show ?thesis
    proof cases
      case 1
      then show ?thesis using stay [of "[]" ENOMEM] lin by (auto simp: nvg_map_flags_def nvg_map_impl_def)
    next
      case (2 x)
      then show ?thesis using stay [of "[Acq MapBlk, Rel MapBlk]" x] lin by (auto simp: nvg_map_flags_def nvg_map_impl_def)
    next
      case (3 p)
      define sr where "sr = - l_sync e (DMA_BUF_SYNC_START OR dma_buf_dir flags) n"
      have eq: "nvg_map_flags e (Some bo) flags w = (if sr \<noteq> 0
          then Some (Inl (- sr), Some bo, w, [Acq MapBlk, Acq (LinMap p), Rel (LinMap p), Rel MapBlk])
          else Some (Inr \<lparr>m_addr = Some p, m_size = bo_size bo, m_tiled = False, m_flags = flags\<rparr>, Some bo, w, [Acq MapBlk, Acq (LinMap p)]))"
        using lin 3 n by (simp add: nvg_map_flags_def nvg_map_impl_def sr_def)
      have "map_post bo w (Inr \<lparr>m_addr = Some p, m_size = bo_size bo, m_tiled = False, m_flags = flags\<rparr>, bo, w, [Acq MapBlk, Acq (LinMap p)])"
        using assms(1,2) by (intro map_postI) (auto simp: mapping_holds_def)
      then show ?thesis unfolding eq using stay [of "[Acq MapBlk, Acq (LinMap p), Rel (LinMap p), Rel MapBlk]" "- sr"] lin(2)
        by (cases "sr = 0") auto
    qed
  qed
qed

lemma lock_step_fine:
  assumes "state_ok st" "env_lively x"
  shows "\<exists>y. lock_step x st = Some y \<and> step_fine st y"
proof (cases x)
  case (LMap e flags)
  have ok: "gbm_ok (w_gbm (ls_world st))" "bo_inv (ls_bo st)" "\<And>fl. lively_sync (l_sync e fl)"
    using assms LMap by (auto simp: state_ok_def env_lively_def)
  obtain r bo' w' tr where m: "nvg_map_flags e (Some (ls_bo st)) flags (ls_world st) = Some (r, Some bo', w', tr)"
      "map_post (ls_bo st) (ls_world st) (r, bo', w', tr)"
      "\<And>m. r = Inr m \<Longrightarrow> m_tiled m = (bo_modifier (ls_bo st) \<noteq> DRM_FORMAT_MOD_LINEAR) \<and> (m_tiled m \<longrightarrow> \<not> bo_locked (ls_bo st))"
    using map_flags_post [OF ok, of flags] by blast
  have run: "run_ev (K + state_holds st) tr = Some (K + world_holds w' + tiled_holds bo' + maps_hold (ls_maps st) +
      (case r of Inl _ \<Rightarrow> {#} | Inr m \<Rightarrow> mapping_holds m))" for K
  proof -
    let ?K = "K + maps_hold (ls_maps st)"
    have "run_ev (?K + world_holds (ls_world st) + tiled_holds (ls_bo st)) tr =
        Some (?K + world_holds w' + tiled_holds bo' + (case r of Inl _ \<Rightarrow> {#} | Inr m \<Rightarrow> mapping_holds m))"
      using m(2) unfolding map_post_def prod.case by blast
    then show ?thesis by (simp add: state_holds_def ac_simps)
  qed
  show ?thesis
  proof (cases r)
    case (Inl e')
    then show ?thesis using LMap m(1,2) run assms(1)
      by (auto simp: step_fine_def map_post_def state_ok_def state_holds_def same_buffer_def ac_simps)
  next
    case (Inr mm)
    then show ?thesis using LMap m(1,2) m(3) [OF Inr] run assms(1)
      by (auto simp: step_fine_def map_post_def state_ok_def state_holds_def same_buffer_def maps_hold_def ac_simps)
  qed
next
  case (LCpu f)
  then show ?thesis using assms(1)
    by (auto simp: step_fine_def state_ok_def state_holds_def world_holds_def)
next
  case (LUnmap e i flags)
  show ?thesis
  proof (cases "i < length (ls_maps st)")
    case False
    then show ?thesis using LUnmap assms(1) by (auto simp: step_fine_def)
  next
    case True
    let ?m = "ls_maps st ! i" and ?fl = "flags AND NVG_MAP_RW"
    note d = drop_nth_maps [OF True]
    show ?thesis
    proof (cases "m_tiled ?m")
      case tiled: True
      obtain bo' w' tr where u: "nvg_unmap_tiled e (ls_bo st) ?m ?fl (ls_world st) = (bo', w', tr)"
        by (cases "nvg_unmap_tiled e (ls_bo st) ?m ?fl (ls_world st)")
      have inv: "bo_inv (ls_bo st)" using assms(1) by (simp add: state_ok_def)
      note post = unmap_tiled_post [OF inv tiled u]
      have "lock_step x st = Some (\<lparr>ls_bo = bo', ls_world = w', ls_maps = drop_nth i (ls_maps st)\<rparr>, tr)"
        using LUnmap True tiled u by (simp add: nvg_unmap_flags_def nvg_unmap_impl_def)
      moreover have "run_ev (K + state_holds st) tr = Some (K + (world_holds w' + tiled_holds bo' + maps_hold (drop_nth i (ls_maps st))))" for K
        using post(6) [of "K + world_holds w' + tiled_holds bo' + maps_hold (drop_nth i (ls_maps st))"] d(1)
          world_holds_cong [OF post(4)] post(5) by (simp add: state_holds_def ac_simps)
      moreover have "length (filter m_tiled (drop_nth i (ls_maps st))) = 0"
        using d(2) [of m_tiled] tiled assms(1) by (auto simp: state_ok_def split: if_splits)
      ultimately show ?thesis using post assms(1) d(3)
        by (auto simp: step_fine_def state_ok_def state_holds_def same_buffer_def)
    next
      case lin: False
      obtain n where n: "dma_buf_sync (l_sync e (DMA_BUF_SYNC_END OR dma_buf_dir (m_flags ?m OR ?fl))) 0
          = Some (- l_sync e (DMA_BUF_SYNC_END OR dma_buf_dir (m_flags ?m OR ?fl)) n)"
        using sync_returns assms(2) LUnmap by (fastforce simp: env_lively_def)
      let ?tr = "(case m_addr ?m of None \<Rightarrow> [] | Some p \<Rightarrow> [Rel (LinMap p)]) @ [Rel MapBlk]"
      have "lock_step x st = Some (\<lparr>ls_bo = ls_bo st, ls_world = ls_world st, ls_maps = drop_nth i (ls_maps st)\<rparr>, ?tr)"
        using LUnmap True lin n by (simp add: nvg_unmap_flags_def nvg_unmap_impl_def)
      moreover have "run_ev (K + mapping_holds ?m) ?tr = Some K" for K
        using lin by (auto simp: mapping_holds_def split: option.splits)
      then have "run_ev (K + state_holds st) ?tr = Some (K + (world_holds (ls_world st) + tiled_holds (ls_bo st) + maps_hold (drop_nth i (ls_maps st))))" for K
        using d(1) by (simp add: state_holds_def add.assoc [symmetric])
      ultimately show ?thesis using assms(1) d(2) [of m_tiled] d(3) lin
        by (auto simp: step_fine_def state_ok_def state_holds_def)
    qed
  qed
qed

lemma lock_run_fine:
  "state_ok st \<Longrightarrow> list_all env_lively xs \<Longrightarrow> \<exists>y. lock_run xs st = Some y \<and> step_fine st y"
proof (induction xs arbitrary: st)
  case Nil
  then show ?case by (simp add: step_fine_def)
next
  case (Cons x xs)
  obtain st1 tr1 where one: "lock_step x st = Some (st1, tr1)" "step_fine st (st1, tr1)"
    using lock_step_fine [of st x] Cons.prems by auto
  then have "state_ok st1" by (simp add: step_fine_def)
  then obtain st2 tr2 where rest: "lock_run xs st1 = Some (st2, tr2)" "step_fine st1 (st2, tr2)"
    using Cons.IH Cons.prems(2) by (metis list.pred_inject(2) surj_pair)
  have "step_fine st (st2, tr1 @ tr2)"
    using one(2) rest(2) by (simp add: step_fine_def run_ev_append same_buffer_def)
  then show ?case using one(1) rest(1) by simp
qed

definition bo_base :: "nvg_bo \<Rightarrow> lock_res multiset" where
  "bo_base bo = {#BoBlk, BoFdR (bo_fd bo)#}"

interpretation nimport: owned_op "\<lambda>(k, rdev, wd, ht, sd, md, fm). nvg_import k rdev wd ht sd md fm" "\<lambda>_. True" bo_base
  by unfold_locales (auto simp: nvg_import_def bo_base_def split: if_splits)

lemma free_run:
  assumes "bo_inv bo"
  shows "run_ev (K + bo_base bo + tiled_holds bo) (nvg_free (Some bo)) = Some K"
proof (cases "bo_img bo")
  case True
  then show ?thesis using release_run [of "add_mset XferLock (K + bo_base bo)" bo]
    by (simp add: nvg_free_def run_ev_append bo_base_def)
next
  case False
  then have "tiled_holds bo = {#}" "\<not> bo_stg bo" using assms by (simp_all add: bo_inv_def tiled_holds_def)
  then show ?thesis using False by (simp add: nvg_free_def bo_base_def)
qed

section \<open>What a lock shows and what an unlock writes\<close>

definition pixel_area :: "nvg_bo \<Rightarrow> nvg_format \<Rightarrow> nat \<Rightarrow> nat \<Rightarrow> bool" where
  "pixel_area bo f r c \<longleftrightarrow> r < unat (bo_height bo) \<and> c < row_bytes bo f"

lemma pitch_eq:
  assumes "bo_stride bo mod nf_bpp f = 0" "nf_bpp f \<noteq> 0"
  shows "row_pitch bo f = unat (bo_stride bo)"
proof -
  have "unat (bo_stride bo) mod unat (nf_bpp f) = 0" using assms(1) by (metis unat_mod unat_0)
  then have "unat (bo_stride bo) div unat (nf_bpp f) * unat (nf_bpp f) = unat (bo_stride bo)"
    using minus_mod_eq_div_mult [of "unat (bo_stride bo)" "unat (nf_bpp f)"] by simp
  then show ?thesis by (simp add: row_pitch_def unat_div)
qed

lemma format_bpp: "find_format x = Some f \<Longrightarrow> nf_bpp f \<noteq> 0"
  by (auto simp: find_format_def nvg_formats_def split: if_splits)

text \<open>A row fits the stride unless the 32-bit product of the check wraps.\<close>

lemma row_fits:
  assumes "\<not> bo_stride bo < bo_width bo * nf_bpp f" "unat (bo_width bo) * unat (nf_bpp f) < 2 ^ 32"
  shows "row_bytes bo f \<le> unat (bo_stride bo)"
proof -
  have "unat (bo_width bo * nf_bpp f) = row_bytes bo f" using assms(2) by (simp add: row_bytes_def unat_word_ariths)
  then show ?thesis using assms(1) by (simp add: word_less_nat_alt not_less)
qed

lemma copy_out_view:
  assumes "row_bytes bo f \<le> row_pitch bo f" "pixel_area bo f r c"
  shows "w_staging (copy_image_to_buffer bo f w) (r * row_pitch bo f + c) = w_image w r c"
proof -
  have c: "c < row_pitch bo f" using assms by (simp add: pixel_area_def)
  then have "(r * row_pitch bo f + c) div row_pitch bo f = r" "(r * row_pitch bo f + c) mod row_pitch bo f = c" by simp_all
  then show ?thesis using assms(2) by (simp add: copy_image_to_buffer_def pixel_area_def)
qed

lemma same_buffer_rows: "same_buffer bo bo' \<Longrightarrow> row_pitch bo' f = row_pitch bo f \<and> row_bytes bo' f = row_bytes bo f \<and>
    pixel_area bo' f = pixel_area bo f"
  by (auto simp: same_buffer_def row_pitch_def row_bytes_def pixel_area_def fun_eq_iff)

lemma copy_true: "tiled_copy_locked c bo f b w = (True, w') \<Longrightarrow>
    w' = (if b then copy_image_to_buffer bo f w else copy_buffer_to_image bo f w)"
  by (auto simp: tiled_copy_locked_def Let_def split: if_splits)

lemma map_tiled_view:
  assumes "gbm_ok (w_gbm w)" "bo_inv bo" "nvg_map_tiled e bo flags w = (Inr m, bo', w', tr)"
    "find_format (bo_format bo) = Some f" "unat (bo_width bo) * unat (nf_bpp f) < 2 ^ 32"
  shows "w_image w' = w_image w" "m_flags m = flags" "m_tiled m" "w_xfer w' > 0"
    "\<And>r c. pixel_area bo f r c \<Longrightarrow> w_staging w' (r * unat (bo_stride bo) + c) = w_image w r c"
    "same_buffer bo bo'" "row_pitch bo f = unat (bo_stride bo)" "bo_locked bo'"
proof -
  obtain f' g w1 bo1 where late: "find_format (bo_format bo) = Some f'" "bo_stride bo mod nf_bpp f' = 0"
      "\<not> bo_stride bo < bo_width bo * nf_bpp f'" "xfer_ready_locked e (w\<lparr>w_gbm := g\<rparr>) = (True, w1)"
      "tiled_copy_locked (l_copy e) bo1 f' True w1 = (True, w')" "bo' = bo1\<lparr>bo_locked := True\<rparr>"
      "m = \<lparr>m_addr = bo_stg_ptr bo1, m_size = bo_stg_size bo1, m_tiled = True, m_flags = flags\<rparr>"
    using assms(3)
  proof (cases rule: map_tiled_cases)
    case (late f vk g dtr w1 ok bo1 str)
    then show thesis using that [of f g w1 bo1] by auto
  qed auto
  have f: "f' = f" using late(1) assms(4) by simp
  have sb: "same_buffer bo bo'" using map_tiled_post [OF assms(1,2), of e flags] assms(3) by (simp add: map_post_def)
  have w': "w' = copy_image_to_buffer bo1 f w1" using copy_true [OF late(5)] f by simp
  have x: "w_image w1 = w_image w" "w_xfer w1 > 0"
    using xfer_ready_gbm [OF late(4)] xfer_ready_pos [OF late(4)] by simp_all
  have rows: "row_pitch bo1 f = row_pitch bo f" "row_bytes bo1 f = row_bytes bo f" "pixel_area bo1 f = pixel_area bo f"
    using same_buffer_rows [of bo bo1 f] sb late(6) by (auto simp: same_buffer_def)
  show pitch: "row_pitch bo f = unat (bo_stride bo)" by (rule pitch_eq) (use late(2) f format_bpp [OF assms(4)] in simp_all)
  have fits: "row_bytes bo f \<le> row_pitch bo f" using row_fits [OF late(3)] assms(5) pitch f by simp
  show "w_image w' = w_image w" using w' x by (simp add: copy_image_to_buffer_def)
  show "m_flags m = flags" "m_tiled m" using late(7) by simp_all
  show "w_xfer w' > 0" using w' x by (simp add: copy_image_to_buffer_def)
  show "w_staging w' (r * unat (bo_stride bo) + c) = w_image w r c" if "pixel_area bo f r c" for r c
    using copy_out_view [of bo1 f r c w1] that fits w' x rows pitch by simp
  show "same_buffer bo bo'" by (rule sb)
  show "bo_locked bo'" using late(6) by simp
qed

definition write_flag :: "u32 \<Rightarrow> bool" where
  "write_flag flags \<longleftrightarrow> flags AND GBM_MAP_FLAG_WRITE \<noteq> 0"

text \<open>Whether the copy-back of an unlock goes through.\<close>

definition written_back :: "lock_env \<Rightarrow> nvg_bo \<Rightarrow> bool" where
  "written_back e bo \<longleftrightarrow> (bo_stg_coherent bo \<or> l_ranges e = VK_SUCCESS) \<and> c_reset (l_copy e) = VK_SUCCESS \<and>
     c_begin (l_copy e) = VK_SUCCESS \<and> c_end (l_copy e) = VK_SUCCESS \<and> c_submit (l_copy e) = VK_SUCCESS \<and> c_wait (l_copy e) = VK_SUCCESS"

lemma copy_back_image:
  "w_image (snd (tiled_copy_locked c bo f False w)) =
    (if c_reset c = VK_SUCCESS \<and> c_begin c = VK_SUCCESS \<and> c_end c = VK_SUCCESS \<and> c_submit c = VK_SUCCESS
     then if c_wait c = VK_SUCCESS then w_image (copy_buffer_to_image bo f w) else fst (c_torn c)
     else w_image w)"
  "c_reset c = VK_SUCCESS \<and> c_begin c = VK_SUCCESS \<and> c_end c = VK_SUCCESS \<and> c_submit c = VK_SUCCESS \<and> c_wait c \<noteq> VK_SUCCESS \<Longrightarrow>
     w_xfer (snd (tiled_copy_locked c bo f False w)) = -1"
  by (simp_all add: tiled_copy_locked_def Let_def)

lemma unmap_tiled_image:
  assumes "nvg_unmap_tiled e bo m flags w = (bo', w', tr)" "bo_locked bo" "find_format (bo_format bo) = Some f" "w_xfer w > 0"
  shows "\<not> write_flag (m_flags m OR flags) \<Longrightarrow> w_image w' = w_image w"
    "write_flag (m_flags m OR flags) \<Longrightarrow> written_back e bo \<Longrightarrow> w_image w' = w_image (copy_buffer_to_image bo f w)"
    "write_flag (m_flags m OR flags) \<Longrightarrow> \<not> written_back e bo \<Longrightarrow> w_image w' = w_image w \<or> w_xfer w' = -1"
proof -
  let ?c = "tiled_copy_locked (l_copy e) bo f False w"
  have w': "w' = (if \<not> write_flag (m_flags m OR flags) then w
      else if bo_stg_coherent bo \<or> l_ranges e = VK_SUCCESS then snd ?c else w)"
    using assms by (auto simp: nvg_unmap_tiled_def Let_def write_flag_def split: if_splits)
  show "\<not> write_flag (m_flags m OR flags) \<Longrightarrow> w_image w' = w_image w" using w' by simp
  show "write_flag (m_flags m OR flags) \<Longrightarrow> written_back e bo \<Longrightarrow> w_image w' = w_image (copy_buffer_to_image bo f w)"
    using w' copy_back_image(1) [of "l_copy e" bo f w] by (auto simp: written_back_def)
  show "write_flag (m_flags m OR flags) \<Longrightarrow> \<not> written_back e bo \<Longrightarrow> w_image w' = w_image w \<or> w_xfer w' = -1"
    using w' copy_back_image [of "l_copy e" bo f w] by (auto simp: written_back_def)
qed

section \<open>A concrete lock\<close>

definition demo_setup :: setup_env where
  "demo_setup = \<lparr>s_create_image = 0, s_req_size = 64, s_req_bits = 3, s_fdp = 0, s_fdp_bits = 1, s_dup = 8, s_alloc = 0, s_bind = 0,
     s_create_buffer = (\<lambda>_. 0), s_breq_bits = 3, s_balloc = 0, s_bbind = 0, s_map = 0, s_ptr = 0x1000\<rparr>"

definition demo_copy :: copy_env where
  "demo_copy = \<lparr>c_reset = 0, c_begin = 0, c_end = 0, c_submit = 0, c_wait = 0, c_reset_fence = 0, c_torn = (\<lambda>_ _. 0, \<lambda>_. 0)\<rparr>"

definition demo_lock :: lock_env where
  "demo_lock = \<lparr>l_icd = demo_icd, l_malloc = True, l_pool = 0, l_cmdbuf = 0, l_fence = 0, l_setup = demo_setup, l_copy = demo_copy,
     l_ranges = 0, l_mmap = Inr 0x2000, l_sync = (\<lambda>_ _. 0)\<rparr>"

definition demo_import :: nvg_import_env where
  "demo_import = \<lparr>n_lseek = 65536, n_size_max = 4294967295, n_calloc = True, n_dup = 7\<rparr>"

definition demo_bo :: "u32 \<Rightarrow> u32 \<Rightarrow> nvg_bo" where
  "demo_bo width stride = \<lparr>bo_fd = 7, bo_size = 65536, bo_modifier = 0x0300000000606010, bo_width = width, bo_height = 2,
     bo_stride = stride, bo_format = DRM_FORMAT_ABGR8888, bo_rdev = None, bo_img = False, bo_img_mem = False, bo_stg = False,
     bo_stg_mem = False, bo_stg_ptr = None, bo_stg_size = 0, bo_stg_coherent = False, bo_locked = False\<rparr>"

definition demo_world :: lock_world where
  "demo_world = \<lparr>w_gbm = gbm_global_zero, w_xfer = 0, w_image = (\<lambda>r c. of_nat (r + c)), w_staging = (\<lambda>_. 0)\<rparr>"

lemma demo_lock_lively: "lively_sync (l_sync demo_lock fl)"
  by (auto simp: lively_sync_def retry_def demo_lock_def EINTR_def EAGAIN_def)

lemma demo_bo_inv: "bo_inv (demo_bo width stride)" "gbm_ok (w_gbm demo_world)"
  by (simp_all add: bo_inv_def demo_bo_def gbm_ok_def demo_world_def gbm_global_zero_def nvg_vk_zero_def)

section \<open>Properties\<close>

text \<open>
  C3. A lock of a block-linear buffer shows its pixels: row r, byte c of the image is at offset
  r * stride + c of the returned memory, and the image is unchanged. Whatever the CPU then leaves in
  that memory, an unlock of a lock that never had write access leaves the image as it was; an unlock
  with write access whose copy goes through stores exactly the pixel bytes of the memory into the
  image and nothing else; one whose copy does not leaves the image as it was, or the copy context is
  marked failed. Rows are assumed to be shorter than 2^32 bytes.
\<close>

theorem tiled_lock_cycle:
  assumes "gbm_ok (w_gbm w)" "bo_inv bo" "nvg_map_tiled e bo flags w = (Inr m, bo1, w1, tr1)"
    "find_format (bo_format bo) = Some f" "unat (bo_width bo) * unat (nf_bpp f) < 2 ^ 32"
    "nvg_unmap_tiled e2 bo1 m flags2 (w1\<lparr>w_staging := mem\<rparr>) = (bo2, w2, tr2)"
  shows "(\<forall>r c. pixel_area bo f r c \<longrightarrow> w_staging w1 (r * unat (bo_stride bo) + c) = w_image w r c) \<and>
    w_image w1 = w_image w \<and> \<not> bo_locked bo2 \<and>
    (if \<not> write_flag (flags OR flags2) then w_image w2 = w_image w
     else if written_back e2 bo1
     then w_image w2 = (\<lambda>r c. if pixel_area bo f r c then mem (r * unat (bo_stride bo) + c) else w_image w r c)
     else w_image w2 = w_image w \<or> w_xfer w2 = -1)"
proof -
  note v = map_tiled_view [OF assms(1-5)]
  have rows: "row_pitch bo1 f = unat (bo_stride bo)" "pixel_area bo1 f = pixel_area bo f"
    using same_buffer_rows [OF v(6), of f] v(7) by simp_all
  have fmt: "find_format (bo_format bo1) = Some f" using v(6) assms(4) by (simp add: same_buffer_def)
  note u = unmap_tiled_image [OF assms(6) v(8) fmt]
  have bk: "w_image (copy_buffer_to_image bo1 f (w1\<lparr>w_staging := mem\<rparr>)) =
      (\<lambda>r c. if pixel_area bo f r c then mem (r * unat (bo_stride bo) + c) else w_image w r c)"
    using rows v(1) by (simp add: copy_buffer_to_image_def fun_eq_iff pixel_area_def)
  have "bo_inv bo1" using map_tiled_post [OF assms(1,2), of e flags] assms(3) by (simp add: map_post_def)
  then have "\<not> bo_locked bo2" using unmap_tiled_post(3) [OF _ v(3) assms(6)] by blast
  then show ?thesis using v u bk by auto
qed

theorem tiled_lock_cycle_witness:
  "\<exists>m bo1 w1 tr1 bo2 w2 tr2. nvg_map_tiled demo_lock (demo_bo 2 16) 3 demo_world = (Inr m, bo1, w1, tr1) \<and>
     nvg_unmap_tiled demo_lock bo1 m 0 (w1\<lparr>w_staging := (\<lambda>off. of_nat off + 1)\<rparr>) = (bo2, w2, tr2) \<and>
     w_image w2 1 3 = 20 \<and> w_image w2 1 9 = 10"
proof -
  have "case nvg_map_tiled demo_lock (demo_bo 2 16) 3 demo_world of (Inr m, bo1, w1, tr1) \<Rightarrow> bo_stg_coherent bo1 | _ \<Rightarrow> False"
    by code_simp
  then obtain m bo1 w1 tr1 where run: "nvg_map_tiled demo_lock (demo_bo 2 16) 3 demo_world = (Inr m, bo1, w1, tr1)" "bo_stg_coherent bo1"
    by (auto split: prod.splits sum.splits)
  obtain bo2 w2 tr2 where un: "nvg_unmap_tiled demo_lock bo1 m 0 (w1\<lparr>w_staging := (\<lambda>off. of_nat off + 1)\<rparr>) = (bo2, w2, tr2)"
    by (cases "nvg_unmap_tiled demo_lock bo1 m 0 (w1\<lparr>w_staging := (\<lambda>off. of_nat off + 1)\<rparr>)")
  define f where "f = \<lparr>nf_drm = DRM_FORMAT_ABGR8888, nf_vk = 37, nf_srgb = 43, nf_bpp = 4\<rparr>"
  have f: "find_format (bo_format (demo_bo 2 16)) = Some f" unfolding f_def by code_simp
  have "written_back demo_lock bo1" using run(2) by (simp add: written_back_def demo_lock_def demo_copy_def VK_SUCCESS_def)
  moreover have "write_flag (3 OR 0)" by (simp add: write_flag_def GBM_MAP_FLAG_WRITE_def)
  moreover have "unat (bo_width (demo_bo 2 16)) * unat (nf_bpp f) < 2 ^ 32" by (simp add: demo_bo_def f_def)
  ultimately have "w_image w2 = (\<lambda>r c. if pixel_area (demo_bo 2 16) f r c then of_nat (r * unat (bo_stride (demo_bo 2 16)) + c) + 1
      else w_image demo_world r c)"
    using tiled_lock_cycle [OF demo_bo_inv(2,1) run(1) f _ un] by simp
  then have "w_image w2 1 3 = 20 \<and> w_image w2 1 9 = 10"
    by (simp add: pixel_area_def row_bytes_def demo_bo_def f_def demo_world_def)
  then show ?thesis using run(1) un by blast
qed

text \<open>
  C8. The life of an imported buffer: any sequence of locks, writes and unlocks returns as long as
  the kernel does not interrupt a synchronisation forever, a block-linear buffer has at most one lock
  at a time, and its staging cache is complete or absent. When it is freed, everything made for it is
  released exactly once; what remains is the process-wide device and the mappings never unlocked.
\<close>

theorem buffer_life_balanced:
  assumes "nvg_import k rdev wd ht sd md fm = (tr0, Inr bo)" "gbm_ok (w_gbm w)" "list_all env_lively xs"
  shows "\<exists>st tr. lock_run xs \<lparr>ls_bo = bo, ls_world = w, ls_maps = []\<rparr> = Some (st, tr) \<and>
    length (filter m_tiled (ls_maps st)) \<le> 1 \<and> bo_inv (ls_bo st) \<and>
    run_ev (world_holds w) (tr0 @ tr @ nvg_free (Some (ls_bo st))) = Some (world_holds (ls_world st) + maps_hold (ls_maps st))"
proof -
  let ?st = "\<lparr>ls_bo = bo, ls_world = w, ls_maps = []\<rparr>"
  have fresh: "bo_inv bo" "tiled_holds bo = {#}" "\<not> bo_locked bo"
    using assms(1) by (auto simp: nvg_import_def bo_inv_def tiled_holds_def split: if_splits)
  then have "state_ok ?st" using assms(2) by (simp add: state_ok_def)
  then obtain st tr where run: "lock_run xs ?st = Some (st, tr)" "step_fine ?st (st, tr)"
    using lock_run_fine [OF _ assms(3)] by (metis surj_pair)
  have ok: "state_ok st" "same_buffer bo (ls_bo st)" using run(2) by (simp_all add: step_fine_def)
  have imp: "run_ev (world_holds w) tr0 = Some (world_holds w + bo_base bo)"
    using nimport.op_frame [where e = "(k, rdev, wd, ht, sd, md, fm)" and K = "world_holds w"] assms(1) by (simp add: nimport.held_by_def)
  have "run_ev (bo_base bo + state_holds ?st) tr = Some (bo_base bo + state_holds st)" using run(2) by (simp add: step_fine_def)
  then have mid: "run_ev (world_holds w + bo_base bo) tr = Some (bo_base bo + state_holds st)"
    using fresh(2) by (simp add: state_holds_def maps_hold_def ac_simps)
  have "bo_base bo = bo_base (ls_bo st)" using ok(2) by (simp add: same_buffer_def bo_base_def)
  then have "run_ev (bo_base bo + state_holds st) (nvg_free (Some (ls_bo st))) = Some (world_holds (ls_world st) + maps_hold (ls_maps st))"
    using free_run [of "ls_bo st" "world_holds (ls_world st) + maps_hold (ls_maps st)"] ok(1)
    by (simp add: state_holds_def state_ok_def ac_simps)
  then have "run_ev (world_holds w) (tr0 @ tr @ nvg_free (Some (ls_bo st))) = Some (world_holds (ls_world st) + maps_hold (ls_maps st))"
    using imp mid by (simp add: run_ev_append)
  then show ?thesis using run(1) ok(1) by (auto simp: state_ok_def split: if_splits)
qed

theorem buffer_life_balanced_witness:
  "\<exists>tr0 bo st tr. nvg_import demo_import None 2 2 16 0x0300000000606010 DRM_FORMAT_ABGR8888 = (tr0, Inr bo) \<and>
     lock_run [LMap demo_lock 3, LMap demo_lock 1, LUnmap demo_lock 0 0] \<lparr>ls_bo = bo, ls_world = demo_world, ls_maps = []\<rparr> = Some (st, tr) \<and>
     length (filter m_tiled (ls_maps st)) \<le> 1"
proof -
  have imp: "\<exists>tr0 bo. nvg_import demo_import None 2 2 16 0x0300000000606010 DRM_FORMAT_ABGR8888 = (tr0, Inr bo)"
    by (simp add: nvg_import_def demo_import_def)
  then obtain tr0 bo where i: "nvg_import demo_import None 2 2 16 0x0300000000606010 DRM_FORMAT_ABGR8888 = (tr0, Inr bo)" by blast
  have "list_all env_lively [LMap demo_lock 3, LMap demo_lock 1, LUnmap demo_lock 0 0]"
    by (simp add: env_lively_def demo_lock_lively)
  from buffer_life_balanced [OF i demo_bo_inv(2) this] i show ?thesis by blast
qed


end
