(* ===== verification/Hal_Types.thy ===== *)
theory Hal_Types
  imports Gbm_Device Handle_Map
begin

text \<open>
  Data the image paths of the HAL share (nvidia-prolapse/hal/src/nvhal.h and
  nvidia-prolapse/hal/include/minigbm/cros_gralloc_handle.h): Vulkan create infos with their pNext
  chains as lists of structures, minigbm's buffer handle, the part of the per-device state that
  anb.c and ahb.c use, and the objects their traces acquire and release. A chain has at most one
  structure of each type, as Vulkan requires. Vulkan formats are numbers of vulkan_core.h.
\<close>

type_synonym vk_fmt = nat

definition VKF_UNDEFINED :: vk_fmt where [codes]: "VKF_UNDEFINED = 0"
definition VKF_R5G6B5_UNORM_PACK16 :: vk_fmt where [codes]: "VKF_R5G6B5_UNORM_PACK16 = 4"
definition VKF_R8_UNORM :: vk_fmt where [codes]: "VKF_R8_UNORM = 9"
definition VKF_R8G8B8_UNORM :: vk_fmt where [codes]: "VKF_R8G8B8_UNORM = 23"
definition VKF_R8G8B8A8_UNORM :: vk_fmt where [codes]: "VKF_R8G8B8A8_UNORM = 37"
definition VKF_R8G8B8A8_SRGB :: vk_fmt where [codes]: "VKF_R8G8B8A8_SRGB = 43"
definition VKF_B8G8R8A8_UNORM :: vk_fmt where [codes]: "VKF_B8G8R8A8_UNORM = 44"
definition VKF_B8G8R8A8_SRGB :: vk_fmt where [codes]: "VKF_B8G8R8A8_SRGB = 50"
definition VKF_A2B10G10R10_UNORM_PACK32 :: vk_fmt where [codes]: "VKF_A2B10G10R10_UNORM_PACK32 = 64"
definition VKF_R16G16B16A16_SFLOAT :: vk_fmt where [codes]: "VKF_R16G16B16A16_SFLOAT = 97"

definition DRM_FORMAT_XBGR16161616F :: u32 where
  "DRM_FORMAT_XBGR16161616F = fourcc_code CHR ''X'' CHR ''B'' CHR ''4'' CHR ''H''"

definition DRM_FORMAT_XBGR2101010 :: u32 where
  "DRM_FORMAT_XBGR2101010 = fourcc_code CHR ''X'' CHR ''B'' CHR ''3'' CHR ''0''"

section \<open>minigbm's buffer handle\<close>

definition DRV_MAX_FDS :: int where "DRV_MAX_FDS = 5"
definition CROS_GRALLOC_MAGIC :: u32 where "CROS_GRALLOC_MAGIC = 0xABCDDCBA"
definition CROS_GRALLOC_HANDLE_NUM_INTS_TOTAL :: int where "CROS_GRALLOC_HANDLE_NUM_INTS_TOTAL = 35"

record cros_gralloc_handle =
  g_version :: int
  g_numFds :: int
  g_numInts :: int
  g_fds :: "int list"
  g_strides :: "u32 list"
  g_offsets :: "u32 list"
  g_width :: u32
  g_height :: u32
  g_format :: u32
  g_modifier :: u64
  g_magic :: u32
  g_num_planes :: u32
  g_reserved_size :: u64

text \<open>
  The check of every consumer of a buffer handle, as a predicate (\<open>None\<close> is NULL). The EGL platform
  has its own copy in the header file.
\<close>

definition cros_gralloc_handle_ok :: "cros_gralloc_handle option \<Rightarrow> bool" where
  "cros_gralloc_handle_ok h = (case h of None \<Rightarrow> False | Some g \<Rightarrow>
     \<not> (g_version g \<noteq> 12 \<or> g_numFds g < 1 \<or> g_numFds g > DRV_MAX_FDS \<or> g_numInts g < 0 \<or>
        g_numFds g + g_numInts g \<noteq> CROS_GRALLOC_HANDLE_NUM_INTS_TOTAL) \<and> g_magic g = CROS_GRALLOC_MAGIC)"

section \<open>Create infos\<close>

datatype vk_struct =
    NativeBufferANDROID "cros_gralloc_handle option"
  | SwapchainImageCreateANDROID
  | ImageSwapchainCreateKHR handle
  | BindMemorySwapchainKHR u32
  | BindDeviceGroup "u32 list" nat
  | BindMemoryStatus
  | ImageFormatList "vk_fmt list"
  | ImageStencilUsage u32
  | ExternalMemoryImage u32
  | ExternalFormatANDROID u64
  | DedicatedAllocationNV
  | DrmModifierExplicit u64 "(u32 \<times> u32) list"
  | DrmModifierList "u64 list"
  | OtherStruct int

datatype vk_tiling = TILING_OPTIMAL | TILING_LINEAR | TILING_DRM_MODIFIER | TILING_OTHER int

text \<open>A list of queue families is given exactly when the sharing mode is concurrent.\<close>

record image_ci =
  ci_flags :: u32
  ci_type2d :: bool
  ci_format :: vk_fmt
  ci_width :: u32
  ci_height :: u32
  ci_depth :: u32
  ci_mips :: u32
  ci_layers :: u32
  ci_samples1 :: bool
  ci_tiling :: vk_tiling
  ci_usage :: u32
  ci_concurrent :: bool
  ci_families :: "u32 list"
  ci_next :: "vk_struct list"

definition USE_TRANSFER_SRC :: u32 where [codes]: "USE_TRANSFER_SRC = 1"
definition USE_TRANSFER_DST :: u32 where [codes]: "USE_TRANSFER_DST = 2"
definition USE_SAMPLED :: u32 where [codes]: "USE_SAMPLED = 4"
definition USE_STORAGE :: u32 where [codes]: "USE_STORAGE = 8"
definition USE_COLOR_ATTACHMENT :: u32 where [codes]: "USE_COLOR_ATTACHMENT = 0x10"
definition USE_DEPTH_STENCIL_ATTACHMENT :: u32 where [codes]: "USE_DEPTH_STENCIL_ATTACHMENT = 0x20"
definition USE_INPUT_ATTACHMENT :: u32 where [codes]: "USE_INPUT_ATTACHMENT = 0x80"

definition HANDLE_TYPE_DMA_BUF :: u32 where [codes]: "HANDLE_TYPE_DMA_BUF = 0x200"
definition HANDLE_TYPE_AHB :: u32 where [codes]: "HANDLE_TYPE_AHB = 0x400"
definition FEATURE_IMPORTABLE :: u32 where [codes]: "FEATURE_IMPORTABLE = 4"
definition MEM_DEVICE_LOCAL :: u32 where [codes]: "MEM_DEVICE_LOCAL = 1"

section \<open>Devices and resources\<close>

text \<open>What a device holds: driver images, memory objects and fences, descriptors, references to
  hardware buffers, and the HAL's own heap objects.\<close>

datatype hal_res = HImage handle | HMemory handle | HFence handle | HFd int | HAhb handle | HHeap handle

text \<open>
  The arrays of struct nvhal_device are lists (their count is the length) beside the capacity in
  elements, a 32-bit integer.
\<close>

record nvhal_device =
  d_anb_enabled :: bool
  d_ahb_enabled :: bool
  d_wait_fence :: bool
  d_wait_semaphore :: bool
  d_mem_types :: "u32 list"
  d_anb_images :: "(handle \<times> handle) list"
  d_anb_cap :: u32
  d_fence_pool :: "handle list"
  d_fence_cap :: u32

end
