(* ===== verification/Anb.thy ===== *)
theory Anb
  imports Hal_Types
begin

text \<open>
  VK_ANDROID_native_buffer, nvidia-prolapse/hal/src/anb.c, first half: the surface formats and their
  gralloc usage, the check of minigbm's handle, and the import of a gralloc buffer as a driver image
  with dedicated memory. The driver and the kernel answer through the record \<open>import_icd\<close>. A
  descriptor that a successful import hands to the driver counts as released by the HAL.
\<close>

section \<open>Formats and gralloc usage\<close>

definition anb_formats :: "(vk_fmt \<times> u32 \<times> u32) list" where
  "anb_formats =
   [(VKF_R8G8B8A8_UNORM, DRM_FORMAT_ABGR8888, DRM_FORMAT_XBGR8888),
    (VKF_R8G8B8A8_SRGB, DRM_FORMAT_ABGR8888, DRM_FORMAT_XBGR8888),
    (VKF_B8G8R8A8_UNORM, DRM_FORMAT_ARGB8888, DRM_FORMAT_XRGB8888),
    (VKF_B8G8R8A8_SRGB, DRM_FORMAT_ARGB8888, DRM_FORMAT_XRGB8888),
    (VKF_R5G6B5_UNORM_PACK16, DRM_FORMAT_RGB565, DRM_FORMAT_RGB565),
    (VKF_R16G16B16A16_SFLOAT, DRM_FORMAT_ABGR16161616F, DRM_FORMAT_XBGR16161616F),
    (VKF_A2B10G10R10_UNORM_PACK32, DRM_FORMAT_ABGR2101010, DRM_FORMAT_XBGR2101010),
    (VKF_R8_UNORM, DRM_FORMAT_R8, DRM_FORMAT_R8)]"

definition anb_format_index :: "vk_fmt \<Rightarrow> int" where
  "anb_format_index f =
    (case find (\<lambda>i. fst (anb_formats ! i) = f) [0..<length anb_formats] of Some i \<Rightarrow> int i | None \<Rightarrow> -1)"

definition nvhal_anb_format_known :: "vk_fmt \<Rightarrow> bool" where
  "nvhal_anb_format_known f \<longleftrightarrow> anb_format_index f \<ge> 0"

definition render_usage :: u32 where "render_usage = USE_TRANSFER_DST OR USE_COLOR_ATTACHMENT"
definition texture_usage :: u32 where
  "texture_usage = USE_TRANSFER_SRC OR USE_SAMPLED OR USE_STORAGE OR USE_INPUT_ATTACHMENT"

definition usage_check :: "vk_fmt \<Rightarrow> u32 \<Rightarrow> vk_result" where
  "usage_check format usage =
    (if anb_format_index format < 0 then VK_ERROR_FORMAT_NOT_SUPPORTED
     else if usage AND NOT (render_usage OR texture_usage) \<noteq> 0 \<or> usage AND (render_usage OR texture_usage) = 0
     then VK_ERROR_FORMAT_NOT_SUPPORTED else VK_SUCCESS)"

text \<open>The device of a call: known to the HAL, with the extension enabled.\<close>

definition anb_device :: "nvhal_device option \<Rightarrow> nvhal_device option" where
  "anb_device d = (case d of None \<Rightarrow> None | Some d \<Rightarrow> if d_anb_enabled d then Some d else None)"

definition GRALLOC_USAGE_HW_TEXTURE :: u32 where [codes]: "GRALLOC_USAGE_HW_TEXTURE = 0x100"
definition GRALLOC_USAGE_HW_RENDER :: u32 where [codes]: "GRALLOC_USAGE_HW_RENDER = 0x200"
definition GRALLOC_USAGE_HW_COMPOSER :: u32 where [codes]: "GRALLOC_USAGE_HW_COMPOSER = 0x800"

definition nvhal_GetSwapchainGrallocUsageANDROID :: "nvhal_device option \<Rightarrow> vk_fmt \<Rightarrow> u32 \<Rightarrow> vk_result + u32" where
  "nvhal_GetSwapchainGrallocUsageANDROID d format usage =
    (if anb_device d = None then Inl VK_ERROR_INITIALIZATION_FAILED
     else if usage_check format usage \<noteq> VK_SUCCESS then Inl (usage_check format usage)
     else Inr (GRALLOC_USAGE_HW_COMPOSER OR
               (if usage AND render_usage \<noteq> 0 then GRALLOC_USAGE_HW_RENDER else 0) OR
               (if usage AND texture_usage \<noteq> 0 then GRALLOC_USAGE_HW_TEXTURE else 0)))"

definition SWAPCHAIN_IMAGE_USAGE_SHARED :: u32 where [codes]: "SWAPCHAIN_IMAGE_USAGE_SHARED = 1"
definition GRALLOC1_CONSUMER_HWCOMPOSER :: u64 where [codes]: "GRALLOC1_CONSUMER_HWCOMPOSER = 0x800"
definition GRALLOC1_CONSUMER_GPU_TEXTURE :: u64 where [codes]: "GRALLOC1_CONSUMER_GPU_TEXTURE = 0x100"
definition GRALLOC1_PRODUCER_GPU_RENDER_TARGET :: u64 where [codes]: "GRALLOC1_PRODUCER_GPU_RENDER_TARGET = 0x200"

text \<open>The result is the consumer and the producer usage.\<close>

definition nvhal_GetSwapchainGrallocUsage2ANDROID ::
    "nvhal_device option \<Rightarrow> vk_fmt \<Rightarrow> u32 \<Rightarrow> u32 \<Rightarrow> vk_result + u64 \<times> u64" where
  "nvhal_GetSwapchainGrallocUsage2ANDROID d format usage swapchain_usage =
    (if anb_device d = None then Inl VK_ERROR_INITIALIZATION_FAILED
     else if swapchain_usage AND SWAPCHAIN_IMAGE_USAGE_SHARED \<noteq> 0 then Inl VK_ERROR_FORMAT_NOT_SUPPORTED
     else if usage_check format usage \<noteq> VK_SUCCESS then Inl (usage_check format usage)
     else Inr (GRALLOC1_CONSUMER_HWCOMPOSER OR
                 (if usage AND texture_usage \<noteq> 0 then GRALLOC1_CONSUMER_GPU_TEXTURE else 0),
               if usage AND render_usage \<noteq> 0 then GRALLOC1_PRODUCER_GPU_RENDER_TARGET else 0))"

section \<open>Import of a buffer\<close>

text \<open>The query vkGetPhysicalDeviceImageFormatProperties2 gets, and its answer: the result and the
  external memory features.\<close>

record format_query =
  q_format :: vk_fmt
  q_type2d :: bool
  q_usage :: u32
  q_flags :: u32
  q_modifier :: u64
  q_families :: "u32 list option"
  q_views :: "vk_fmt list option"

type_synonym query_fn = "format_query \<Rightarrow> vk_result \<times> u32"

fun view_list :: "vk_struct list \<Rightarrow> vk_fmt list option" where
  "view_list [] = None"
| "view_list (ImageFormatList l # xs) = Some l"
| "view_list (x # xs) = view_list xs"

definition nvhal_modifier_usage_ok :: "query_fn \<Rightarrow> image_ci \<Rightarrow> u64 \<Rightarrow> u32 \<Rightarrow> vk_result" where
  "nvhal_modifier_usage_ok query ci modifier usage =
    (let (r, features) = query \<lparr>q_format = ci_format ci, q_type2d = ci_type2d ci, q_usage = usage, q_flags = ci_flags ci,
           q_modifier = modifier, q_families = (if ci_concurrent ci then Some (ci_families ci) else None),
           q_views = view_list (ci_next ci)\<rparr>
     in if r = VK_SUCCESS \<and> features AND FEATURE_IMPORTABLE = 0 then VK_ERROR_FORMAT_NOT_SUPPORTED else r)"

definition nvhal_cros_handle :: "cros_gralloc_handle option \<Rightarrow> vk_result + cros_gralloc_handle" where
  "nvhal_cros_handle h =
    (case h of None \<Rightarrow> Inl VK_ERROR_INVALID_EXTERNAL_HANDLE
     | Some g \<Rightarrow>
       if g_version g \<noteq> 12 \<or> g_numFds g < 1 \<or> g_numFds g > DRV_MAX_FDS \<or> g_numInts g < 0 \<or>
          g_numFds g + g_numInts g \<noteq> CROS_GRALLOC_HANDLE_NUM_INTS_TOTAL
       then Inl VK_ERROR_INVALID_EXTERNAL_HANDLE
       else if g_magic g \<noteq> CROS_GRALLOC_MAGIC then Inl VK_ERROR_INVALID_EXTERNAL_HANDLE
       else Inr g)"

text \<open>The structures that stay in the chain of the driver's image; \<open>None\<close> is an unsupported one.\<close>

fun keep_chain :: "vk_struct list \<Rightarrow> vk_struct list \<Rightarrow> vk_struct list option" where
  "keep_chain kept [] = Some kept"
| "keep_chain kept (x # xs) =
    (case x of
       NativeBufferANDROID _ \<Rightarrow> keep_chain kept xs
     | SwapchainImageCreateANDROID \<Rightarrow> keep_chain kept xs
     | ImageFormatList _ \<Rightarrow> keep_chain (x # kept) xs
     | ImageStencilUsage _ \<Rightarrow> keep_chain (x # kept) xs
     | _ \<Rightarrow> None)"

text \<open>
  Everything before the driver is asked for an image: the result is the buffer and the create info
  for the driver, with a usage the driver accepted.
\<close>

definition anb_check :: "query_fn \<Rightarrow> image_ci \<Rightarrow> cros_gralloc_handle option \<Rightarrow> vk_result + cros_gralloc_handle \<times> image_ci" where
  "anb_check query ci handle =
    (case nvhal_cros_handle handle of Inl e \<Rightarrow> Inl e | Inr g \<Rightarrow>
     if g_num_planes g \<noteq> 1 \<or> g_fds g ! 0 < 0 then Inl VK_ERROR_FORMAT_NOT_SUPPORTED
     else if g_modifier g = DRM_FORMAT_MOD_INVALID then Inl VK_ERROR_INVALID_EXTERNAL_HANDLE
     else let fi = anb_format_index (ci_format ci) in
     if fi < 0 \<or> (fst (snd (anb_formats ! nat fi)) \<noteq> g_format g \<and> snd (snd (anb_formats ! nat fi)) \<noteq> g_format g)
     then Inl VK_ERROR_FORMAT_NOT_SUPPORTED
     else if \<not> ci_type2d ci \<or> ci_mips ci \<noteq> 1 \<or> ci_layers ci \<noteq> 1 \<or> ci_depth ci \<noteq> 1 \<or>
             ci_width ci > g_width g \<or> ci_height ci > g_height g
     then Inl VK_ERROR_INVALID_EXTERNAL_HANDLE
     else (case keep_chain [] (ci_next ci) of None \<Rightarrow> Inl VK_ERROR_FEATURE_NOT_PRESENT | Some kept \<Rightarrow>
       let ici = ci\<lparr>ci_next := ExternalMemoryImage HANDLE_TYPE_DMA_BUF #
                      DrmModifierExplicit (g_modifier g) [(g_offsets g ! 0, g_strides g ! 0)] # kept,
                    ci_tiling := TILING_DRM_MODIFIER\<rparr>;
           r = nvhal_modifier_usage_ok query ici (g_modifier g) (ci_usage ici)
       in if r \<noteq> VK_SUCCESS \<and> g_modifier g = DRM_FORMAT_MOD_LINEAR \<and> ci_usage ici AND USE_INPUT_ATTACHMENT \<noteq> 0 \<and>
             nvhal_modifier_usage_ok query ici (g_modifier g) (ci_usage ici AND NOT USE_INPUT_ATTACHMENT) = VK_SUCCESS
          then Inr (g, ici\<lparr>ci_usage := ci_usage ici AND NOT USE_INPUT_ATTACHMENT\<rparr>)
          else if r \<noteq> VK_SUCCESS then Inl r else Inr (g, ici)))"

text \<open>Answers of the kernel (dup with its errno, the two lseeks) and of the driver.\<close>

record import_icd =
  i_query :: query_fn
  i_image :: "vk_result \<times> handle"
  i_dup :: "int \<times> int"
  i_seek_end :: int
  i_seek_set :: int
  i_fdprops :: "vk_result \<times> u32"
  i_reqs :: "u64 \<times> u32"
  i_memory :: "vk_result \<times> handle"
  i_bind :: vk_result

definition anb_mem_type :: "u32 \<Rightarrow> u32 list \<Rightarrow> nat option" where
  "anb_mem_type bits types =
    (case find_mem_type bits MEM_DEVICE_LOCAL types 0 of Some i \<Rightarrow> Some i | None \<Rightarrow> find_mem_type bits 0 types 0)"

text \<open>What an import hands out: the image and its memory; beside them what the driver was given.\<close>

record anb_imported =
  a_image :: handle
  a_memory :: handle
  a_ici :: image_ci
  a_type :: nat
  a_size :: u64

definition dup_error :: "int \<Rightarrow> vk_result" where
  "dup_error e = (if e = EMFILE then VK_ERROR_TOO_MANY_OBJECTS else VK_ERROR_OUT_OF_HOST_MEMORY)"

definition import_fail :: "handle \<Rightarrow> handle \<Rightarrow> int \<Rightarrow> hal_res ev list" where
  "import_fail img mem fd =
    Rel (HImage img) # (if mem \<noteq> 0 then [Rel (HMemory mem)] else []) @ (if fd \<ge> 0 then [Rel (HFd fd)] else [])"

definition nvhal_anb_import ::
    "u32 list \<Rightarrow> image_ci \<times> cros_gralloc_handle option \<times> import_icd \<Rightarrow> hal_res ev list \<times> (vk_result + anb_imported)" where
  "nvhal_anb_import types = (\<lambda>(ci, handle, k).
    case anb_check (i_query k) ci handle of Inl e \<Rightarrow> ([], Inl e) | Inr (g, ici) \<Rightarrow>
    let (r, img) = i_image k in
    if r \<noteq> VK_SUCCESS then ([], Inl r)
    else let (fd, e) = i_dup k; t0 = [Acq (HImage img)] in
    if fd < 0 then (t0 @ import_fail img 0 fd, Inl (dup_error e))
    else let t1 = t0 @ [Acq (HFd fd)] in
    if i_seek_end k < 0 \<or> i_seek_set k < 0 then (t1 @ import_fail img 0 fd, Inl VK_ERROR_INVALID_EXTERNAL_HANDLE)
    else let (rp, fd_bits) = i_fdprops k in
    if rp \<noteq> VK_SUCCESS then (t1 @ import_fail img 0 fd, Inl rp)
    else let (need, img_bits) = i_reqs k in
    if (of_int (i_seek_end k) :: u64) < need then (t1 @ import_fail img 0 fd, Inl VK_ERROR_INVALID_EXTERNAL_HANDLE)
    else (case anb_mem_type (fd_bits AND img_bits) types of
      None \<Rightarrow> (t1 @ import_fail img 0 fd, Inl VK_ERROR_INVALID_EXTERNAL_HANDLE)
    | Some type \<Rightarrow>
      let (ra, mem) = i_memory k in
      if ra \<noteq> VK_SUCCESS then (t1 @ import_fail img 0 fd, Inl ra)
      else let t2 = t1 @ [Acq (HMemory mem), Rel (HFd fd)] in
      if i_bind k \<noteq> VK_SUCCESS then (t2 @ import_fail img mem (-1), Inl (i_bind k))
      else (t2, Inr \<lparr>a_image = img, a_memory = mem, a_ici = ici, a_type = type, a_size = need\<rparr>)))"

text \<open>A driver that reports success of vkAllocateMemory returns a handle.\<close>

definition import_lawful :: "import_icd \<Rightarrow> bool" where
  "import_lawful k \<longleftrightarrow> (fst (i_memory k) = VK_SUCCESS \<longrightarrow> snd (i_memory k) \<noteq> 0)"

definition imported_holds :: "anb_imported \<Rightarrow> hal_res multiset" where
  "imported_holds a = {#HImage (a_image a), HMemory (a_memory a)#}"

interpretation anbimport: owned_op "nvhal_anb_import types" "\<lambda>(ci, handle, k). import_lawful k" imported_holds
  for types
  by unfold_locales
    (auto simp: nvhal_anb_import_def import_fail_def import_lawful_def imported_holds_def Let_def
      split: prod.splits sum.splits option.splits if_splits)

section \<open>What an import guarantees\<close>

lemma cros_handle_agrees: "cros_gralloc_handle_ok h \<longleftrightarrow> (\<exists>g. nvhal_cros_handle h = Inr g)"
  by (auto simp: cros_gralloc_handle_ok_def nvhal_cros_handle_def split: option.splits if_splits)

lemma cros_handle_Inr: "nvhal_cros_handle h = Inr g \<Longrightarrow> h = Some g \<and> cros_gralloc_handle_ok h"
  by (auto simp: cros_gralloc_handle_ok_def nvhal_cros_handle_def split: option.splits if_splits)

lemma usage_ok_importable: "nvhal_modifier_usage_ok query ci m u = VK_SUCCESS \<Longrightarrow>
   \<exists>q features. query q = (VK_SUCCESS, features) \<and> q_modifier q = m \<and> q_usage q = u \<and> q_format q = ci_format ci \<and>
     features AND FEATURE_IMPORTABLE \<noteq> 0"
  by (rule exI [where x = "\<lparr>q_format = ci_format ci, q_type2d = ci_type2d ci, q_usage = u, q_flags = ci_flags ci,
      q_modifier = m, q_families = (if ci_concurrent ci then Some (ci_families ci) else None),
      q_views = view_list (ci_next ci)\<rparr>"])
    (auto simp: nvhal_modifier_usage_ok_def Let_def VK_SUCCESS_def VK_ERROR_FORMAT_NOT_SUPPORTED_def split: prod.splits if_splits)

lemma keep_chain_known: "keep_chain kept xs = Some ys \<Longrightarrow>
   set ys \<subseteq> set kept \<union> set xs \<and> (\<forall>y \<in> set ys. y \<in> set kept \<or> (\<exists>l. y = ImageFormatList l) \<or> (\<exists>u. y = ImageStencilUsage u))"
proof (induction xs arbitrary: kept)
  case (Cons x xs)
  then show ?case by (cases x) fastforce+
qed simp

text \<open>The usage of the driver's image: the app's, unless exactly the input attachment bit of a LINEAR
  buffer was refused.\<close>

definition usage_kept :: "query_fn \<Rightarrow> image_ci \<Rightarrow> u64 \<Rightarrow> u32 \<Rightarrow> bool" where
  "usage_kept query ici m u \<longleftrightarrow>
    ci_usage ici = u \<or>
    m = DRM_FORMAT_MOD_LINEAR \<and> u AND USE_INPUT_ATTACHMENT \<noteq> 0 \<and> ci_usage ici = u AND NOT USE_INPUT_ATTACHMENT \<and>
    nvhal_modifier_usage_ok query (ici\<lparr>ci_usage := u\<rparr>) m u \<noteq> VK_SUCCESS"

lemma usage_query_frame: "nvhal_modifier_usage_ok query (ci\<lparr>ci_usage := v\<rparr>) m u = nvhal_modifier_usage_ok query ci m u"
  by (simp add: nvhal_modifier_usage_ok_def)

lemma anb_check_Inr:
  assumes "anb_check query ci h = Inr (g, ici)"
  shows "h = Some g" "cros_gralloc_handle_ok h" "g_num_planes g = 1" "g_fds g ! 0 \<ge> 0" "g_modifier g \<noteq> DRM_FORMAT_MOD_INVALID"
    "\<exists>(f, a, b) \<in> set anb_formats. f = ci_format ci \<and> g_format g \<in> {a, b}"
    "ci_width ici \<le> g_width g" "ci_height ici \<le> g_height g" "ci_tiling ici = TILING_DRM_MODIFIER"
    "DrmModifierExplicit (g_modifier g) [(g_offsets g ! 0, g_strides g ! 0)] \<in> set (ci_next ici)"
    "nvhal_modifier_usage_ok query ici (g_modifier g) (ci_usage ici) = VK_SUCCESS"
    "usage_kept query ici (g_modifier g) (ci_usage ci)" "ci_format ici = ci_format ci"
proof -
  define fi where "fi = anb_format_index (ci_format ci)"
  note def = assms [unfolded anb_check_def Let_def fi_def [symmetric]]
  from def show "h = Some g" "cros_gralloc_handle_ok h"
    by (auto split: sum.splits if_splits option.splits dest: cros_handle_Inr)
  from def show "g_num_planes g = 1" "g_fds g ! 0 \<ge> 0" "g_modifier g \<noteq> DRM_FORMAT_MOD_INVALID"
    "ci_width ici \<le> g_width g" "ci_height ici \<le> g_height g" "ci_tiling ici = TILING_DRM_MODIFIER"
    "DrmModifierExplicit (g_modifier g) [(g_offsets g ! 0, g_strides g ! 0)] \<in> set (ci_next ici)"
    "nvhal_modifier_usage_ok query ici (g_modifier g) (ci_usage ici) = VK_SUCCESS"
    "usage_kept query ici (g_modifier g) (ci_usage ci)" "ci_format ici = ci_format ci"
    by (auto simp: usage_kept_def usage_query_frame split: sum.splits if_splits option.splits)
  from def have fi: "fi \<ge> 0" "g_format g \<in> {fst (snd (anb_formats ! nat fi)), snd (snd (anb_formats ! nat fi))}"
    by (auto split: sum.splits if_splits option.splits)
  obtain i where "find (\<lambda>i. fst (anb_formats ! i) = ci_format ci) [0..<length anb_formats] = Some i" "fi = int i"
    using fi(1) by (auto simp: fi_def anb_format_index_def split: option.splits)
  then have i: "i < length anb_formats" "fst (anb_formats ! i) = ci_format ci" "nat fi = i"
    by (auto dest: find_SomeD)
  from i(1) have "anb_formats ! i \<in> set anb_formats" by (rule nth_mem)
  then show "\<exists>(f, a, b) \<in> set anb_formats. f = ci_format ci \<and> g_format g \<in> {a, b}"
    using fi(2) i(2,3) by (auto intro!: bexI [of _ "anb_formats ! i"] split: prod.splits)
qed

lemma device_local_bit: "(x AND MEM_DEVICE_LOCAL = MEM_DEVICE_LOCAL) = (x AND MEM_DEVICE_LOCAL \<noteq> 0)"
  by (simp add: MEM_DEVICE_LOCAL_def and_one_eq odd_iff_mod_2_eq_one)

lemma anb_mem_type_Some:
  assumes "anb_mem_type bits types = Some i"
  shows "i < length types" "bits AND push_bit i 1 \<noteq> 0"
    "(\<exists>j < length types. bits AND push_bit j 1 \<noteq> 0 \<and> types ! j AND MEM_DEVICE_LOCAL \<noteq> 0) \<longrightarrow>
       types ! i AND MEM_DEVICE_LOCAL \<noteq> 0"
  using assms find_mem_type_spec [where bits = bits and want = MEM_DEVICE_LOCAL and fs = types and i = 0]
    find_mem_type_spec [where bits = bits and want = 0 and fs = types and i = 0]
  by (auto simp: anb_mem_type_def device_local_bit split: option.splits if_splits)

lemma anb_import_Inr:
  assumes "nvhal_anb_import types (ci, h, k) = (tr, Inr a)"
  shows "\<exists>g. anb_check (i_query k) ci h = Inr (g, a_ici a)"
    "anb_mem_type (snd (i_fdprops k) AND snd (i_reqs k)) types = Some (a_type a)"
    "a_size a = fst (i_reqs k)" "fst (i_reqs k) \<le> of_int (i_seek_end k)" "0 \<le> i_seek_end k"
    "tr = [Acq (HImage (a_image a)), Acq (HFd (fst (i_dup k))), Acq (HMemory (a_memory a)), Rel (HFd (fst (i_dup k)))]"
  using assms by (auto simp: nvhal_anb_import_def Let_def split: prod.splits sum.splits option.splits if_splits)

section \<open>Properties\<close>


definition demo_handle :: cros_gralloc_handle where
  "demo_handle = \<lparr>g_version = 12, g_numFds = 1, g_numInts = 34, g_fds = [7, -1, -1, -1, -1], g_strides = [256, 0, 0, 0],
     g_offsets = [0, 0, 0, 0], g_width = 64, g_height = 64, g_format = DRM_FORMAT_ABGR8888, g_modifier = DRM_FORMAT_MOD_LINEAR,
     g_magic = CROS_GRALLOC_MAGIC, g_num_planes = 1, g_reserved_size = 0\<rparr>"

definition demo_ci :: image_ci where
  "demo_ci = \<lparr>ci_flags = 0, ci_type2d = True, ci_format = VKF_R8G8B8A8_UNORM, ci_width = 64, ci_height = 60, ci_depth = 1,
     ci_mips = 1, ci_layers = 1, ci_samples1 = True, ci_tiling = TILING_OPTIMAL, ci_usage = 0x94, ci_concurrent = False,
     ci_families = [], ci_next = [NativeBufferANDROID (Some demo_handle), ImageFormatList [37, 43]]\<rparr>"

text \<open>A driver that takes LINEAR buffers except as input attachments.\<close>

definition demo_icd :: import_icd where
  "demo_icd = \<lparr>i_query = (\<lambda>q. if q_usage q AND USE_INPUT_ATTACHMENT \<noteq> 0 then (VK_ERROR_FORMAT_NOT_SUPPORTED, 0) else (VK_SUCCESS, 4)),
     i_image = (VK_SUCCESS, 0x100), i_dup = (9, 0), i_seek_end = 16384, i_seek_set = 0, i_fdprops = (VK_SUCCESS, 3),
     i_reqs = (15360, 6), i_memory = (VK_SUCCESS, 0x200), i_bind = VK_SUCCESS\<rparr>"

lemma demo_import: "nvhal_anb_import [0, 1, 1] (demo_ci, Some demo_handle, demo_icd) =
   ([Acq (HImage 0x100), Acq (HFd 9), Acq (HMemory 0x200), Rel (HFd 9)],
    Inr \<lparr>a_image = 0x100, a_memory = 0x200,
         a_ici = demo_ci\<lparr>ci_next := [ExternalMemoryImage HANDLE_TYPE_DMA_BUF,
           DrmModifierExplicit 0 [(0, 256)], ImageFormatList [37, 43]], ci_tiling := TILING_DRM_MODIFIER, ci_usage := 0x14\<rparr>,
         a_type = 1, a_size = 15360\<rparr>)"
  by code_simp


end
