(* ===== verification/Anb_Sync.thy ===== *)
theory Anb_Sync
  imports Anb
begin

text \<open>
  VK_ANDROID_native_buffer, nvidia-prolapse/hal/src/anb.c, second half: the images a device tracks,
  vkAcquireImageANDROID with its ownership of the native fence, the pool of export fences behind
  vkQueueSignalReleaseImageANDROID, and the teardown of a device. The fences a device uses are
  followed through the driver's calls by \<open>fence_run\<close>, which has no result when a call breaks the rules
  of Vulkan.
\<close>

section \<open>Tracked images\<close>

definition grown_cap :: "u32 \<Rightarrow> u32 \<Rightarrow> u32" where
  "grown_cap start cap = (if cap \<noteq> 0 then cap * 2 else start)"

text \<open>\<open>None\<close> is a store behind the end of the array.\<close>

definition anb_track :: "bool \<Rightarrow> nvhal_device \<Rightarrow> handle \<Rightarrow> handle \<Rightarrow> (bool \<times> nvhal_device) option" where
  "anb_track realloc_ok d img mem =
    (let full = length (d_anb_images d) = unat (d_anb_cap d);
         d1 = (if full \<and> realloc_ok then d\<lparr>d_anb_cap := grown_cap 8 (d_anb_cap d)\<rparr> else d)
     in if full \<and> \<not> realloc_ok then Some (False, d1)
        else if length (d_anb_images d1) < unat (d_anb_cap d1)
        then Some (True, d1\<lparr>d_anb_images := d_anb_images d1 @ [(img, mem)]\<rparr>) else None)"

definition anb_untrack :: "nvhal_device \<Rightarrow> handle \<Rightarrow> handle \<times> nvhal_device" where
  "anb_untrack d img =
    (case key_index (d_anb_images d) img of
       None \<Rightarrow> (0, d)
     | Some i \<Rightarrow> (snd (d_anb_images d ! i), d\<lparr>d_anb_images := swap_del (d_anb_images d) i\<rparr>))"

definition anb_create_image :: "bool \<Rightarrow> nvhal_device \<Rightarrow> image_ci \<times> cros_gralloc_handle option \<times> import_icd \<Rightarrow>
    (hal_res ev list \<times> (vk_result + handle) \<times> nvhal_device) option" where
  "anb_create_image realloc_ok d e =
    (case nvhal_anb_import (d_mem_types d) e of
       (tr, Inl r) \<Rightarrow> Some (tr, Inl r, d)
     | (tr, Inr a) \<Rightarrow>
        (case anb_track realloc_ok d (a_image a) (a_memory a) of
           None \<Rightarrow> None
         | Some (False, d') \<Rightarrow> Some (tr @ [Rel (HImage (a_image a)), Rel (HMemory (a_memory a))], Inl VK_ERROR_OUT_OF_HOST_MEMORY, d')
         | Some (True, d') \<Rightarrow> Some (tr, Inr (a_image a), d')))"

text \<open>The part of vkDestroyImage for images that are no wrapper.\<close>

definition anb_destroy_image :: "nvhal_device \<Rightarrow> handle \<Rightarrow> hal_res ev list \<times> nvhal_device" where
  "anb_destroy_image d img =
    (let (mem, d') = (if img \<noteq> 0 \<and> d_anb_images d \<noteq> [] then anb_untrack d img else (0, d))
     in ((if img \<noteq> 0 then [Rel (HImage img)] else []) @ (if mem \<noteq> 0 then [Rel (HMemory mem)] else []), d'))"

section \<open>Acquire\<close>

record poll_ans =
  po_n :: int
  po_errno :: int
  po_revents :: u32

definition POLLERR :: u32 where [codes]: "POLLERR = 8"
definition POLLNVAL :: u32 where [codes]: "POLLNVAL = 0x20"

partial_function (option) poll_fence :: "(nat \<Rightarrow> poll_ans) \<Rightarrow> nat \<Rightarrow> poll_ans option" where
  "poll_fence p t =
    (if po_n (p t) < 0 \<and> (po_errno (p t) = EINTR \<or> po_errno (p t) = EAGAIN) then poll_fence p (Suc t) else Some (p t))"

declare poll_fence.simps [code]

record acquire_env =
  ac_poll :: "nat \<Rightarrow> poll_ans"
  ac_dup :: "int \<times> int"
  ac_import_sem :: vk_result
  ac_import_fence :: vk_result

text \<open>A payload the driver took: the descriptor of a sync file, or -1 for "already signalled".\<close>

datatype sync_import = ImportSemaphore handle int | ImportFence handle int

definition close_fd :: "int \<Rightarrow> hal_res ev list" where
  "close_fd fd = (if fd \<ge> 0 then [Rel (HFd fd)] else [])"

definition split_fd :: "acquire_env \<Rightarrow> int \<Rightarrow> handle \<Rightarrow> handle \<Rightarrow> hal_res ev list \<times> (vk_result + int \<times> int)" where
  "split_fd k fd sem fence =
    (if fd < 0 then ([], Inr (-1, -1))
     else if sem \<noteq> 0 \<and> fence \<noteq> 0
     then (let (fence_fd, e) = ac_dup k in
           if fence_fd < 0 then (close_fd fd, Inl (dup_error e)) else ([Acq (HFd fence_fd)], Inr (fd, fence_fd)))
     else if sem \<noteq> 0 then ([], Inr (fd, -1))
     else if fence \<noteq> 0 then ([], Inr (-1, fd))
     else (close_fd fd, Inr (-1, -1)))"

definition import_payloads ::
    "acquire_env \<Rightarrow> handle \<Rightarrow> handle \<Rightarrow> int \<times> int \<Rightarrow> hal_res ev list \<times> sync_import list \<times> vk_result" where
  "import_payloads k sem fence = (\<lambda>(sem_fd, fence_fd).
    let (t1, i1, r1, s1) = (if sem = 0 then ([], [], VK_SUCCESS, sem_fd)
          else if ac_import_sem k = VK_SUCCESS then (close_fd sem_fd, [ImportSemaphore sem sem_fd], VK_SUCCESS, -1)
          else ([], [], ac_import_sem k, sem_fd));
        (t2, i2, r2, f2) = (if r1 \<noteq> VK_SUCCESS \<or> fence = 0 then ([], [], r1, fence_fd)
          else if ac_import_fence k = VK_SUCCESS then (close_fd fence_fd, [ImportFence fence fence_fd], VK_SUCCESS, -1)
          else ([], [], ac_import_fence k, fence_fd))
    in (t1 @ t2 @ close_fd s1 @ close_fd f2, i1 @ i2, r2))"

definition acquire_import :: "acquire_env \<Rightarrow> int \<Rightarrow> handle \<Rightarrow> handle \<Rightarrow> hal_res ev list \<times> sync_import list \<times> vk_result" where
  "acquire_import k fd sem fence =
    (case split_fd k fd sem fence of
       (tr, Inl e) \<Rightarrow> (tr, [], e)
     | (tr, Inr fds) \<Rightarrow> (case import_payloads k sem fence fds of (tr', ims, r) \<Rightarrow> (tr @ tr', ims, r)))"

definition nvhal_AcquireImageANDROID :: "nvhal_device option \<Rightarrow> acquire_env \<Rightarrow> int \<Rightarrow> handle \<Rightarrow> handle \<Rightarrow>
    (hal_res ev list \<times> sync_import list \<times> vk_result) option" where
  "nvhal_AcquireImageANDROID dev k fd sem fence =
    (case anb_device dev of
       None \<Rightarrow> Some (close_fd fd, [], VK_ERROR_INITIALIZATION_FAILED)
     | Some d \<Rightarrow>
       if fd \<ge> 0 \<and> ((fence \<noteq> 0 \<and> d_wait_fence d) \<or> (sem \<noteq> 0 \<and> d_wait_semaphore d))
       then Option.bind (poll_fence (ac_poll k) 0) (\<lambda>p.
         if po_n p \<noteq> 1 \<or> po_revents p AND (POLLERR OR POLLNVAL) \<noteq> 0
         then Some (close_fd fd, [], VK_ERROR_DEVICE_LOST)
         else (case acquire_import k (-1) sem fence of (tr, ims, r) \<Rightarrow> Some (close_fd fd @ tr, ims, r)))
       else Some (acquire_import k fd sem fence))"

section \<open>Release\<close>

text \<open>The calls on export fences, with the driver's results.\<close>

datatype fence_call =
    FCreate handle | FDestroy handle | FStatus handle vk_result | FReset handle vk_result
  | FSubmit handle vk_result | FExport handle vk_result | FWait handle vk_result

text \<open>Answers of the allocator and the driver during one vkQueueSignalReleaseImageANDROID.\<close>

record release_env =
  re_malloc :: bool
  re_new :: "vk_result \<times> handle"
  re_status :: vk_result
  re_reset :: vk_result
  re_submit :: vk_result
  re_export :: "vk_result \<times> int"
  re_wait :: vk_result
  re_reset_after :: vk_result
  re_realloc :: bool

definition pool_get :: "release_env \<Rightarrow> nvhal_device \<Rightarrow> fence_call list \<times> (vk_result + handle) \<times> nvhal_device" where
  "pool_get k d =
    (let (f, d1) = (if d_fence_pool d \<noteq> [] then (last (d_fence_pool d), d\<lparr>d_fence_pool := butlast (d_fence_pool d)\<rparr>) else (0, d))
     in if f = 0
        then (let (r, f) = re_new k in if r \<noteq> VK_SUCCESS then ([], Inl r, d1) else ([FCreate f], Inr f, d1))
        else let s = re_status k; t = [FStatus f s] in
          if s = VK_SUCCESS
          then (if re_reset k \<noteq> VK_SUCCESS then (t @ [FReset f (re_reset k), FDestroy f], Inl (re_reset k), d1)
                else (t @ [FReset f (re_reset k)], Inr f, d1))
          else if s \<noteq> VK_NOT_READY then (t, Inl s, d1)
          else (t, Inr f, d1))"

definition pool_put :: "bool \<Rightarrow> nvhal_device \<Rightarrow> handle \<Rightarrow> (fence_call list \<times> nvhal_device) option" where
  "pool_put realloc_ok d f =
    (let full = length (d_fence_pool d) = unat (d_fence_cap d);
         d1 = (if full \<and> realloc_ok then d\<lparr>d_fence_cap := grown_cap 4 (d_fence_cap d)\<rparr> else d)
     in if full \<and> \<not> realloc_ok then Some ([FDestroy f], d1)
        else if length (d_fence_pool d1) < unat (d_fence_cap d1)
        then Some ([], d1\<lparr>d_fence_pool := d_fence_pool d1 @ [f]\<rparr>) else None)"

text \<open>The result is the value of the call and of \<open>*pNativeFenceFd\<close>.\<close>

definition nvhal_QueueSignalReleaseImageANDROID :: "nat \<Rightarrow> release_env \<Rightarrow> nvhal_device \<Rightarrow>
    (fence_call list \<times> (vk_result \<times> int) \<times> nvhal_device) option" where
  "nvhal_QueueSignalReleaseImageANDROID waits k d =
    (if \<not> d_anb_enabled d then Some ([], (VK_ERROR_INITIALIZATION_FAILED, -1), d)
     else if waits > 16 \<and> \<not> re_malloc k then Some ([], (VK_ERROR_OUT_OF_HOST_MEMORY, -1), d)
     else (case pool_get k d of
       (t, Inl r, d1) \<Rightarrow> Some (t, (r, -1), d1)
     | (t, Inr f, d1) \<Rightarrow>
       let t1 = t @ [FSubmit f (re_submit k)] in
       if re_submit k \<noteq> VK_SUCCESS
       then map_option (\<lambda>(t2, d2). (t1 @ t2, (re_submit k, -1), d2)) (pool_put (re_realloc k) d1 f)
       else let (r, fd) = re_export k; t2 = t1 @ [FExport f r] in
       if r \<noteq> VK_SUCCESS
       then (let t3 = t2 @ [FWait f (re_wait k)] @ (if re_wait k = VK_SUCCESS then [FReset f (re_reset_after k)] else [])
             in if re_wait k = VK_SUCCESS \<and> re_reset_after k = VK_SUCCESS
                then map_option (\<lambda>(t4, d2). (t3 @ t4, (r, -1), d2)) (pool_put (re_realloc k) d1 f)
                else Some (t3, (r, -1), d1))
       else map_option (\<lambda>(t3, d2). (t2 @ t3, (VK_SUCCESS, fd), d2)) (pool_put (re_realloc k) d1 f)))"

definition nvhal_anb_device_teardown :: "nvhal_device \<Rightarrow> hal_res ev list \<times> fence_call list \<times> nvhal_device" where
  "nvhal_anb_device_teardown d =
    (map (\<lambda>(_, mem). Rel (HMemory mem)) (d_anb_images d), map FDestroy (d_fence_pool d),
     d\<lparr>d_anb_images := [], d_anb_cap := 0, d_fence_pool := [], d_fence_cap := 0\<rparr>)"

section \<open>Fences through the driver's calls\<close>

datatype fence_state = Idle | Pending | Signalled

text \<open>
  The rules of Vulkan for the calls: a fence is submitted only when it is unsignalled with nothing
  pending, reset and destroyed only when no signal is pending, exported as a sync file and waited
  for only when a signal is pending or has happened. An export has copy transference and resets the
  fence; a status of VK_SUCCESS tells that the fence is signalled, whatever it was before.
\<close>

fun fence_step :: "(handle \<rightharpoonup> fence_state) \<Rightarrow> fence_call \<Rightarrow> (handle \<rightharpoonup> fence_state) option" where
  "fence_step M (FCreate f) = Some (M(f \<mapsto> Idle))"
| "fence_step M (FDestroy f) = (if M f \<in> {None, Some Pending} then None else Some (M(f := None)))"
| "fence_step M (FStatus f r) = (if M f = None then None else Some (if r = VK_SUCCESS then M(f \<mapsto> Signalled) else M))"
| "fence_step M (FReset f r) = (if M f \<in> {None, Some Pending} then None else Some (if r = VK_SUCCESS then M(f \<mapsto> Idle) else M))"
| "fence_step M (FSubmit f r) = (if M f \<noteq> Some Idle then None else Some (if r = VK_SUCCESS then M(f \<mapsto> Pending) else M))"
| "fence_step M (FExport f r) = (if M f \<in> {None, Some Idle} then None else Some (if r = VK_SUCCESS then M(f \<mapsto> Idle) else M))"
| "fence_step M (FWait f r) = (if M f \<in> {None, Some Idle} then None else Some (if r = VK_SUCCESS then M(f \<mapsto> Signalled) else M))"

fun fence_run :: "(handle \<rightharpoonup> fence_state) \<Rightarrow> fence_call list \<Rightarrow> (handle \<rightharpoonup> fence_state) option" where
  "fence_run M [] = Some M"
| "fence_run M (c # cs) = (case fence_step M c of None \<Rightarrow> None | Some M' \<Rightarrow> fence_run M' cs)"

text \<open>The driver returns handles of new fences that are not in use.\<close>

fun fresh_fences :: "(handle \<rightharpoonup> fence_state) \<Rightarrow> fence_call list \<Rightarrow> bool" where
  "fresh_fences M [] = True"
| "fresh_fences M (c # cs) = ((case c of FCreate f \<Rightarrow> f \<noteq> 0 \<and> M f = None | _ \<Rightarrow> True) \<and>
     (case fence_step M c of None \<Rightarrow> True | Some M' \<Rightarrow> fresh_fences M' cs))"

lemma fence_run_append:
  "fence_run M (xs @ ys) = (case fence_run M xs of None \<Rightarrow> None | Some M' \<Rightarrow> fence_run M' ys)"
  by (induction xs arbitrary: M) (auto split: option.splits)

lemma fresh_fences_append:
  "fresh_fences M (xs @ ys) \<longleftrightarrow> fresh_fences M xs \<and> (case fence_run M xs of None \<Rightarrow> True | Some M' \<Rightarrow> fresh_fences M' ys)"
  by (induction xs arbitrary: M) (auto split: option.splits)

definition pool_ok :: "nvhal_device \<Rightarrow> (handle \<rightharpoonup> fence_state) \<Rightarrow> bool" where
  "pool_ok d M \<longleftrightarrow> distinct (d_fence_pool d) \<and> (\<forall>f \<in> set (d_fence_pool d). M f = Some Idle) \<and> M 0 = None \<and>
     length (d_fence_pool d) \<le> unat (d_fence_cap d)"

text \<open>Changes of the fence fields only.\<close>

definition fences_only :: "nvhal_device \<Rightarrow> nvhal_device \<Rightarrow> bool" where
  "fences_only d d' \<longleftrightarrow> d' = d\<lparr>d_fence_pool := d_fence_pool d', d_fence_cap := d_fence_cap d'\<rparr>"

lemma fences_only_refl [simp]: "fences_only d d"
  by (simp add: fences_only_def)

lemma fences_only_trans: "fences_only d d1 \<Longrightarrow> fences_only d1 d2 \<Longrightarrow> fences_only d d2"
  by (cases d, cases d1, cases d2) (simp add: fences_only_def)

lemma fences_only_images: "fences_only d d' \<Longrightarrow> d_anb_images d' = d_anb_images d \<and> d_anb_cap d' = d_anb_cap d"
  by (cases d, cases d') (simp add: fences_only_def)

lemma grown_cap_grows: "unat cap < 2 ^ 31 \<Longrightarrow> 0 < unat start \<Longrightarrow> unat cap < unat (grown_cap start cap)"
  by (auto simp: grown_cap_def unat_word_ariths unat_eq_zero [symmetric] simp del: unat_eq_zero)

text \<open>A fence the pool hands out is idle and its caller's alone.\<close>

lemma pool_get_sound:
  assumes "pool_ok d M" "pool_get k d = (t, res, d1)" "fresh_fences M t"
  shows "\<exists>M1. fence_run M t = Some M1 \<and> pool_ok d1 M1 \<and> fences_only d d1 \<and>
    length (d_fence_pool d1) \<le> length (d_fence_pool d) \<and>
    (case res of
       Inr f \<Rightarrow> M1 f = Some Idle \<and> f \<notin> set (d_fence_pool d1) \<and> (dom M = set (d_fence_pool d) \<longrightarrow> dom M1 = insert f (set (d_fence_pool d1)))
     | Inl r \<Rightarrow> r \<noteq> VK_SUCCESS \<and> (re_status k \<in> {VK_SUCCESS, VK_NOT_READY} \<and> dom M = set (d_fence_pool d) \<longrightarrow> dom M1 = set (d_fence_pool d1)))"
proof (cases "d_fence_pool d" rule: rev_cases)
  case Nil
  obtain r f where new: "re_new k = (r, f)" by force
  from assms(2) Nil new have "(t, res, d1) = (if r \<noteq> VK_SUCCESS then ([], Inl r, d) else ([FCreate f], Inr f, d))"
    by (simp add: pool_get_def split: if_splits)
  then consider "r \<noteq> VK_SUCCESS" "t = []" "res = Inl r" "d1 = d" | "t = [FCreate f]" "res = Inr f" "d1 = d"
    by (auto split: if_splits)
  then show ?thesis
    by cases (use assms Nil in \<open>auto simp: pool_ok_def\<close>)
next
  case (snoc fs f)
  have f: "f \<noteq> 0" "M f = Some Idle" "f \<notin> set fs" "distinct fs" "M 0 = None" "\<forall>g \<in> set fs. M g = Some Idle"
    "Suc (length fs) \<le> unat (d_fence_cap d)"
    using assms(1) snoc by (auto simp: pool_ok_def)
  define d' where "d' = d\<lparr>d_fence_pool := fs\<rparr>"
  have d': "d_fence_pool d' = fs" "fences_only d d'" "d_fence_cap d' = d_fence_cap d"
    by (simp_all add: d'_def fences_only_def)
  have keep: "pool_ok d' (M(f \<mapsto> x))" "pool_ok d' (M(f := None))" "pool_ok d' M" for x
    using f d' by (auto simp: pool_ok_def)
  have "(t, res, d1) = (if re_status k = VK_SUCCESS
          then (if re_reset k \<noteq> VK_SUCCESS then ([FStatus f VK_SUCCESS, FReset f (re_reset k), FDestroy f], Inl (re_reset k), d')
                else ([FStatus f VK_SUCCESS, FReset f VK_SUCCESS], Inr f, d'))
          else if re_status k \<noteq> VK_NOT_READY then ([FStatus f (re_status k)], Inl (re_status k), d')
          else ([FStatus f VK_NOT_READY], Inr f, d'))"
    using assms(2) snoc f(1) by (auto simp: pool_get_def d'_def Let_def)
  then consider "re_status k = VK_SUCCESS" "re_reset k \<noteq> VK_SUCCESS" "t = [FStatus f VK_SUCCESS, FReset f (re_reset k), FDestroy f]" "res = Inl (re_reset k)" "d1 = d'"
    | "t = [FStatus f VK_SUCCESS, FReset f VK_SUCCESS]" "res = Inr f" "d1 = d'"
    | "re_status k \<noteq> VK_SUCCESS" "re_status k \<noteq> VK_NOT_READY" "t = [FStatus f (re_status k)]" "res = Inl (re_status k)" "d1 = d'"
    | "t = [FStatus f VK_NOT_READY]" "res = Inr f" "d1 = d'"
    by (auto split: if_splits)
  then show ?thesis
  proof cases
    case 1
    then show ?thesis using f d' keep snoc by (auto simp: fun_upd_idem_iff)
  next
    case 2
    then show ?thesis using f d' keep snoc by auto
  next
    case 3
    then show ?thesis using f d' keep snoc by auto
  next
    case 4
    then show ?thesis using f d' keep snoc by (auto simp: VK_SUCCESS_def VK_NOT_READY_def)
  qed
qed

lemma pool_put_sound:
  assumes "pool_ok d M" "M f = Some Idle" "f \<notin> set (d_fence_pool d)" "length (d_fence_pool d) < 2 ^ 31"
  shows "\<exists>t d' M'. pool_put ok d f = Some (t, d') \<and> fence_run M t = Some M' \<and> fresh_fences M t \<and> pool_ok d' M' \<and> fences_only d d' \<and>
    length (d_fence_pool d') \<le> Suc (length (d_fence_pool d)) \<and>
    (dom M = insert f (set (d_fence_pool d)) \<longrightarrow> dom M' = set (d_fence_pool d'))"
proof -
  let ?full = "length (d_fence_pool d) = unat (d_fence_cap d)"
  have len: "length (d_fence_pool d) \<le> unat (d_fence_cap d)" using assms(1) by (simp add: pool_ok_def)
  show ?thesis
  proof (cases "?full \<and> \<not> ok")
    case True
    then show ?thesis using assms by (auto simp: pool_put_def pool_ok_def)
  next
    case False
    define c where "c = (if ?full then grown_cap 4 (d_fence_cap d) else d_fence_cap d)"
    have c: "length (d_fence_pool d) < unat c"
      using len assms(4) grown_cap_grows [of "d_fence_cap d" 4] by (auto simp: c_def)
    define d' where "d' = d\<lparr>d_fence_cap := c, d_fence_pool := d_fence_pool d @ [f]\<rparr>"
    have "pool_put ok d f = Some ([], d')" using False c by (auto simp: pool_put_def c_def d'_def Let_def)
    moreover have "fences_only d d'" by (auto simp: fences_only_def d'_def)
    moreover have "pool_ok d' M" using assms c by (auto simp: pool_ok_def d'_def)
    ultimately show ?thesis using assms by (auto simp: d'_def)
  qed
qed

text \<open>The driver neither loses the device nor fails to wait for a fence it could not export.\<close>

definition keeps_fences :: "release_env \<Rightarrow> bool" where
  "keeps_fences k \<longleftrightarrow> re_status k \<in> {VK_SUCCESS, VK_NOT_READY} \<and>
     (fst (re_export k) \<noteq> VK_SUCCESS \<longrightarrow> re_wait k = VK_SUCCESS \<and> re_reset_after k = VK_SUCCESS)"

text \<open>After the pool gave a fence: the calls up to the point where it is put back or lost.\<close>

lemma submit_sound:
  assumes "pool_ok d M" "M f = Some Idle" "f \<notin> set (d_fence_pool d)"
    and "t \<in> {[FSubmit f r], [FSubmit f VK_SUCCESS, FExport f VK_SUCCESS],
      [FSubmit f VK_SUCCESS, FExport f x, FWait f VK_SUCCESS, FReset f VK_SUCCESS]}"
    and "r \<noteq> VK_SUCCESS" "x \<noteq> VK_SUCCESS"
  shows "\<exists>M1. fence_run M t = Some M1 \<and> fresh_fences M t \<and> pool_ok d M1 \<and> M1 f = Some Idle \<and> dom M1 = dom M"
  using assms by (auto simp: pool_ok_def insert_absorb)

lemma lost_sound:
  assumes "pool_ok d M" "M f = Some Idle" "f \<notin> set (d_fence_pool d)" "x \<noteq> VK_SUCCESS"
    and "t = [FSubmit f VK_SUCCESS, FExport f x, FWait f w] @ (if w = VK_SUCCESS then [FReset f z] else [])"
    and "w \<noteq> VK_SUCCESS \<or> z \<noteq> VK_SUCCESS"
  shows "\<exists>M1. fence_run M t = Some M1 \<and> pool_ok d M1"
  using assms by (auto simp: pool_ok_def)

lemma put_back:
  assumes "fence_run M t = Some M1" "fresh_fences M t" "pool_ok d M1" "M1 f = Some Idle" "f \<notin> set (d_fence_pool d)"
    "length (d_fence_pool d) < 2 ^ 31"
  shows "\<exists>t' d' M'. pool_put ok d f = Some (t', d') \<and> fence_run M (t @ t') = Some M' \<and> pool_ok d' M' \<and> fences_only d d' \<and>
    length (d_fence_pool d') \<le> Suc (length (d_fence_pool d)) \<and>
    (dom M1 = insert f (set (d_fence_pool d)) \<longrightarrow> dom M' = set (d_fence_pool d'))"
  using pool_put_sound [OF assms(3,4,5,6), of ok] assms(1) by (fastforce simp: fence_run_append)

definition release_post :: "nvhal_device \<Rightarrow> (handle \<rightharpoonup> fence_state) \<Rightarrow> release_env \<Rightarrow> fence_call list \<Rightarrow> nvhal_device \<Rightarrow> bool" where
  "release_post d M k t d' \<longleftrightarrow> fences_only d d' \<and> (\<exists>M'. fence_run M t = Some M' \<and> pool_ok d' M' \<and>
     (keeps_fences k \<and> dom M = set (d_fence_pool d) \<longrightarrow> dom M' = set (d_fence_pool d')))"

lemma release_sound:
  assumes "pool_ok d M" "length (d_fence_pool d) < 2 ^ 31"
    and run: "nvhal_QueueSignalReleaseImageANDROID waits k d = Some (t, rfd, d')" and "fresh_fences M t"
  shows "release_post d M k t d'"
proof -
  obtain t0 res d1 where get: "pool_get k d = (t0, res, d1)" by (rule prod_cases3)
  consider (early) "t = []" "d' = d"
    | (main) "d_anb_enabled d" "\<not> (waits > 16 \<and> \<not> re_malloc k)"
    using run by (auto simp: nvhal_QueueSignalReleaseImageANDROID_def split: if_splits)
  then show ?thesis
  proof cases
    case early
    then show ?thesis using assms(1) by (simp add: release_post_def)
  next
    case main
    note run = run [unfolded nvhal_QueueSignalReleaseImageANDROID_def get, simplified main, simplified]
    have "\<exists>t'. t = t0 @ t'"
      using run by (auto simp: Let_def split: sum.splits if_splits prod.splits)
    then have "fresh_fences M t0" using assms(4) by (auto simp: fresh_fences_append)
    from pool_get_sound [OF assms(1) get this] obtain M0 where M0: "fence_run M t0 = Some M0" "pool_ok d1 M0" "fences_only d d1"
      "length (d_fence_pool d1) \<le> length (d_fence_pool d)"
      and res: "case res of
       Inr f \<Rightarrow> M0 f = Some Idle \<and> f \<notin> set (d_fence_pool d1) \<and> (dom M = set (d_fence_pool d) \<longrightarrow> dom M0 = insert f (set (d_fence_pool d1)))
     | Inl r \<Rightarrow> r \<noteq> VK_SUCCESS \<and> (re_status k \<in> {VK_SUCCESS, VK_NOT_READY} \<and> dom M = set (d_fence_pool d) \<longrightarrow> dom M0 = set (d_fence_pool d1))"
      by blast
    show ?thesis
    proof (cases res)
      case (Inl r)
      then have "t = t0" "d' = d1" using run by auto
      then show ?thesis using M0 res Inl by (auto simp: release_post_def keeps_fences_def)
    next
      case (Inr f)
      note f = res [unfolded Inr sum.case]
      obtain x fd where x: "re_export k = (x, fd)" by force
      have short: "length (d_fence_pool d1) < 2 ^ 31" using M0(4) assms(2) by simp
      have again: "release_post d M k t d'"
        if put: "pool_put (re_realloc k) d1 f = Some (t2, d')" "t = t0 @ t1 @ t2"
          and t1: "t1 \<in> {[FSubmit f r], [FSubmit f VK_SUCCESS, FExport f VK_SUCCESS],
            [FSubmit f VK_SUCCESS, FExport f y, FWait f VK_SUCCESS, FReset f VK_SUCCESS]}" "r \<noteq> VK_SUCCESS" "y \<noteq> VK_SUCCESS" for t1 t2 r y
      proof -
        from submit_sound [OF M0(2) f [THEN conjunct1] f [THEN conjunct2, THEN conjunct1] t1] obtain M1
          where M1: "fence_run M0 t1 = Some M1" "fresh_fences M0 t1" "pool_ok d1 M1" "M1 f = Some Idle" "dom M1 = dom M0" by blast
        from put_back [OF M1(1-4) f [THEN conjunct2, THEN conjunct1] short, of "re_realloc k"] put(1) obtain M'
          where "fence_run M0 (t1 @ t2) = Some M'" "pool_ok d' M'" "fences_only d1 d'"
            "dom M1 = insert f (set (d_fence_pool d1)) \<longrightarrow> dom M' = set (d_fence_pool d')" by auto
        then show ?thesis using put(2) M0 M1(5) f unfolding release_post_def
          by (auto simp: fence_run_append intro: fences_only_trans)
      qed
      consider (refused) t2 where "re_submit k \<noteq> VK_SUCCESS" "pool_put (re_realloc k) d1 f = Some (t2, d')" "t = t0 @ [FSubmit f (re_submit k)] @ t2"
        | (waited) t2 where "x \<noteq> VK_SUCCESS" "pool_put (re_realloc k) d1 f = Some (t2, d')"
            "t = t0 @ [FSubmit f VK_SUCCESS, FExport f x, FWait f VK_SUCCESS, FReset f VK_SUCCESS] @ t2"
        | (lost) "x \<noteq> VK_SUCCESS" "d' = d1" "\<not> keeps_fences k" "re_wait k \<noteq> VK_SUCCESS \<or> re_reset_after k \<noteq> VK_SUCCESS"
            "t = t0 @ [FSubmit f VK_SUCCESS, FExport f x, FWait f (re_wait k)] @ (if re_wait k = VK_SUCCESS then [FReset f (re_reset_after k)] else [])"
        | (exported) t2 where "pool_put (re_realloc k) d1 f = Some (t2, d')" "t = t0 @ [FSubmit f VK_SUCCESS, FExport f VK_SUCCESS] @ t2"
        using run [unfolded Inr x, simplified] x by (auto simp: Let_def keeps_fences_def split: if_splits)
      then show ?thesis
      proof cases
        case refused
        then show ?thesis using again [of t2 _ "re_submit k" 1] by (simp add: VK_SUCCESS_def)
      next
        case waited
        then show ?thesis using again [of t2 _ 1 x] by (simp add: VK_SUCCESS_def)
      next
        case lost
        then show ?thesis using lost_sound [OF M0(2), of f x _ "re_wait k" "re_reset_after k"] f M0
          by (auto simp: release_post_def fence_run_append)
      next
        case exported
        then show ?thesis using again [of t2 _ 1 1] by (simp add: VK_SUCCESS_def)
      qed
    qed
  qed
qed

section \<open>The native fence of an acquire\<close>

definition lent_fd :: "int \<Rightarrow> hal_res multiset" where
  "lent_fd fd = (if fd \<ge> 0 then {#HFd fd#} else {#})"

lemma run_close_fd: "run_ev (lent_fd fd) (close_fd fd) = Some {#}"
  by (simp add: lent_fd_def close_fd_def)

lemma run_close_two: "run_ev (lent_fd a + lent_fd b) (close_fd a @ close_fd b) = Some {#}"
  by (simp add: lent_fd_def close_fd_def)

lemma close_neg [simp]: "close_fd (-1) = []" "lent_fd (-1) = {#}"
  by (simp_all add: close_fd_def lent_fd_def)

lemma split_fd_sound:
  assumes "split_fd k fd sem fence = (tr, res)"
  shows "run_ev (lent_fd fd) tr = Some (case res of Inl _ \<Rightarrow> {#} | Inr (a, b) \<Rightarrow> lent_fd a + lent_fd b)"
    and "case res of Inl e \<Rightarrow> e \<noteq> VK_SUCCESS
      | Inr (a, b) \<Rightarrow> (sem \<noteq> 0 \<and> fd \<ge> 0 \<longrightarrow> a = fd) \<and> (fence \<noteq> 0 \<and> fd \<ge> 0 \<longrightarrow> b = (if sem \<noteq> 0 then fst (ac_dup k) else fd) \<and> b \<ge> 0) \<and>
          (fd < 0 \<longrightarrow> a = -1 \<and> b = -1)"
  using assms
  by (auto simp: split_fd_def close_fd_def lent_fd_def dup_error_def codes Let_def split: if_splits prod.splits)

lemma import_payloads_sound:
  "case import_payloads k sem fence (a, b) of (tr, ims, r) \<Rightarrow>
     run_ev (lent_fd a + lent_fd b) tr = Some {#} \<and>
     (r = VK_SUCCESS \<longrightarrow> (sem \<noteq> 0 \<longrightarrow> ImportSemaphore sem a \<in> set ims) \<and> (fence \<noteq> 0 \<longrightarrow> ImportFence fence b \<in> set ims)) \<and>
     set ims \<subseteq> {ImportSemaphore sem a, ImportFence fence b}"
  by (auto simp: import_payloads_def close_fd_def lent_fd_def)

lemma acquire_import_sound:
  assumes "acquire_import k fd sem fence = (tr, ims, r)"
  shows "run_ev (lent_fd fd) tr = Some {#}"
    and "r = VK_SUCCESS \<Longrightarrow> sem \<noteq> 0 \<Longrightarrow> ImportSemaphore sem (if fd \<ge> 0 then fd else -1) \<in> set ims"
    and "r = VK_SUCCESS \<Longrightarrow> fence \<noteq> 0 \<Longrightarrow>
      ImportFence fence (if fd \<ge> 0 then (if sem \<noteq> 0 then fst (ac_dup k) else fd) else -1) \<in> set ims"
proof -
  obtain tr1 res where split: "split_fd k fd sem fence = (tr1, res)" by force
  note ss = split_fd_sound [OF split]
  have "run_ev (lent_fd fd) tr = Some {#} \<and>
    (r = VK_SUCCESS \<longrightarrow> (sem \<noteq> 0 \<longrightarrow> ImportSemaphore sem (if fd \<ge> 0 then fd else -1) \<in> set ims) \<and>
      (fence \<noteq> 0 \<longrightarrow> ImportFence fence (if fd \<ge> 0 then (if sem \<noteq> 0 then fst (ac_dup k) else fd) else -1) \<in> set ims))"
  proof (cases res)
    case (Inl e)
    then show ?thesis using assms split ss by (auto simp: acquire_import_def)
  next
    case (Inr ab)
    obtain a b where ab: "ab = (a, b)" by force
    obtain tr2 is2 r2 where imp: "import_payloads k sem fence (a, b) = (tr2, is2, r2)" by (rule prod_cases3)
    have eqs: "tr = tr1 @ tr2" "ims = is2" "r = r2"
      using assms split Inr ab imp by (auto simp: acquire_import_def)
    have s: "run_ev (lent_fd fd) tr1 = Some (lent_fd a + lent_fd b)" using ss(1) Inr ab by simp
    have i: "run_ev (lent_fd a + lent_fd b) tr2 = Some {#}"
      "r = VK_SUCCESS \<Longrightarrow> sem \<noteq> 0 \<Longrightarrow> ImportSemaphore sem a \<in> set ims" "r = VK_SUCCESS \<Longrightarrow> fence \<noteq> 0 \<Longrightarrow> ImportFence fence b \<in> set ims"
      using import_payloads_sound [where k = k and sem = sem and fence = fence and a = a and b = b] unfolding imp prod.case eqs by auto
    show ?thesis using s i ss(2) eqs(1) Inr ab by (auto simp: run_ev_append)
  qed
  then show "run_ev (lent_fd fd) tr = Some {#}"
    and "r = VK_SUCCESS \<Longrightarrow> sem \<noteq> 0 \<Longrightarrow> ImportSemaphore sem (if fd \<ge> 0 then fd else -1) \<in> set ims"
    and "r = VK_SUCCESS \<Longrightarrow> fence \<noteq> 0 \<Longrightarrow>
      ImportFence fence (if fd \<ge> 0 then (if sem \<noteq> 0 then fst (ac_dup k) else fd) else -1) \<in> set ims" by auto
qed

text \<open>Interrupted and refused polls end: the kernel answers for good after finitely many.\<close>

definition poll_ends :: "(nat \<Rightarrow> poll_ans) \<Rightarrow> bool" where
  "poll_ends p \<longleftrightarrow> (\<exists>t. \<not> (po_n (p t) < 0 \<and> (po_errno (p t) = EINTR \<or> po_errno (p t) = EAGAIN)))"

lemma poll_fence_returns:
  assumes "poll_ends p"
  shows "\<exists>t. poll_fence p 0 = Some (p t)"
proof -
  let ?again = "\<lambda>t. po_n (p t) < 0 \<and> (po_errno (p t) = EINTR \<or> po_errno (p t) = EAGAIN)"
  obtain n where n: "\<not> ?again n" "\<forall>m < n. ?again m"
    using assms exists_least_iff [of "\<lambda>t. \<not> ?again t"] unfolding poll_ends_def by auto
  have "poll_fence p (n - k) = Some (p n)" if "k \<le> n" for k
    using that
  proof (induction k)
    case 0
    then show ?case using n(1) by (subst poll_fence.simps) auto
  next
    case (Suc k)
    then have "Suc (n - Suc k) = n - k" "?again (n - Suc k)" using n(2) by auto
    then show ?case using Suc by (subst poll_fence.simps) simp
  qed
  from this [of n] show ?thesis by auto
qed

text \<open>
  The payload a semaphore or fence gets: the native fence itself (or a duplicate of its
  descriptor), or "already signalled", the latter only without a native fence or after the wait for
  it ended with the fence signalled.
\<close>

definition payload_ok :: "acquire_env \<Rightarrow> int \<Rightarrow> int \<Rightarrow> bool" where
  "payload_ok k fd x \<longleftrightarrow> (if fd < 0 then x = -1 else x = fd \<or> x = fst (ac_dup k) \<or>
     x = -1 \<and> (\<exists>t. po_n (ac_poll k t) = 1 \<and> po_revents (ac_poll k t) AND (POLLERR OR POLLNVAL) = 0))"

lemma acquire_sound:
  assumes "poll_ends (ac_poll k)"
  shows "\<exists>tr ims r. nvhal_AcquireImageANDROID dev k fd sem fence = Some (tr, ims, r) \<and>
    run_ev (lent_fd fd) tr = Some {#} \<and>
    (r = VK_SUCCESS \<longrightarrow> (sem \<noteq> 0 \<longrightarrow> (\<exists>x. ImportSemaphore sem x \<in> set ims \<and> payload_ok k fd x)) \<and>
       (fence \<noteq> 0 \<longrightarrow> (\<exists>x. ImportFence fence x \<in> set ims \<and> payload_ok k fd x)))"
proof (cases "anb_device dev")
  case None
  then show ?thesis by (simp add: nvhal_AcquireImageANDROID_def run_close_fd codes)
next
  case (Some d)
  obtain tr ims r where imp: "acquire_import k fd sem fence = (tr, ims, r)" by (rule prod_cases3)
  obtain tr1 is1 r1 where imp1: "acquire_import k (-1) sem fence = (tr1, is1, r1)" by (rule prod_cases3)
  note s = acquire_import_sound [OF imp] and s1 = acquire_import_sound [OF imp1, simplified]
  obtain t where t: "poll_fence (ac_poll k) 0 = Some (ac_poll k t)" using poll_fence_returns [OF assms] by blast
  show ?thesis
  proof (cases "fd \<ge> 0 \<and> ((fence \<noteq> 0 \<and> d_wait_fence d) \<or> (sem \<noteq> 0 \<and> d_wait_semaphore d))")
    case False
    then have "nvhal_AcquireImageANDROID dev k fd sem fence = Some (tr, ims, r)"
      using Some imp by (auto simp: nvhal_AcquireImageANDROID_def)
    then show ?thesis using s by (auto simp: payload_ok_def split: if_splits)
  next
    case True
    show ?thesis
    proof (cases "po_n (ac_poll k t) \<noteq> 1 \<or> po_revents (ac_poll k t) AND (POLLERR OR POLLNVAL) \<noteq> 0")
      case bad: True
      then have "nvhal_AcquireImageANDROID dev k fd sem fence = Some (close_fd fd, [], VK_ERROR_DEVICE_LOST)"
        using Some True t by (simp add: nvhal_AcquireImageANDROID_def)
      then show ?thesis by (simp add: run_close_fd codes)
    next
      case signalled: False
      then have "nvhal_AcquireImageANDROID dev k fd sem fence = Some (close_fd fd @ tr1, is1, r1)"
        using Some True t imp1 by (simp add: nvhal_AcquireImageANDROID_def)
      moreover have "payload_ok k fd (-1)" using True signalled by (auto simp: payload_ok_def)
      ultimately show ?thesis using s1 by (auto simp: run_ev_append run_close_fd)
    qed
  qed
qed

text \<open>
  C15. vkAcquireImageANDROID owns the native fence descriptor on every path: whenever the polls of the
  fence do not get interrupted forever the call returns, and whatever the device, the kernel and the
  driver answer the descriptor (and its duplicate) is closed or handed to the driver exactly once.
  When the call succeeds, every semaphore and fence it was given has got the native fence as its
  payload, or "already signalled" when there was no native fence or the wait for it on the CPU ended
  without an error.
\<close>

theorem acquire_owns_fence:
  assumes "poll_ends (ac_poll k)"
  shows "\<exists>tr ims r. nvhal_AcquireImageANDROID dev k fd sem fence = Some (tr, ims, r) \<and>
    run_ev (lent_fd fd) tr = Some {#} \<and>
    (r = VK_SUCCESS \<longrightarrow> (sem \<noteq> 0 \<longrightarrow> (\<exists>x. ImportSemaphore sem x \<in> set ims \<and> payload_ok k fd x)) \<and>
       (fence \<noteq> 0 \<longrightarrow> (\<exists>x. ImportFence fence x \<in> set ims \<and> payload_ok k fd x)))"
  by (rule acquire_sound [OF assms])

definition demo_device :: nvhal_device where
  "demo_device = \<lparr>d_anb_enabled = True, d_ahb_enabled = False, d_wait_fence = False, d_wait_semaphore = True,
     d_mem_types = [0, 1, 1], d_anb_images = [], d_anb_cap = 0, d_fence_pool = [], d_fence_cap = 0\<rparr>"

definition demo_acquire :: acquire_env where
  "demo_acquire = \<lparr>ac_poll = (\<lambda>t. if t = 0 then \<lparr>po_n = -1, po_errno = EINTR, po_revents = 0\<rparr>
     else \<lparr>po_n = 1, po_errno = 0, po_revents = 1\<rparr>), ac_dup = (9, 0), ac_import_sem = VK_SUCCESS, ac_import_fence = VK_SUCCESS\<rparr>"

theorem acquire_owns_fence_witness:
  "\<exists>tr ims r. nvhal_AcquireImageANDROID (Some demo_device) demo_acquire 5 0x10 0x20 = Some (tr, ims, r) \<and>
     run_ev {#HFd 5#} tr = Some {#} \<and> r = VK_SUCCESS \<and> (\<exists>x. ImportFence 0x20 x \<in> set ims \<and> payload_ok demo_acquire 5 x)"
proof -
  have "poll_ends (ac_poll demo_acquire)" unfolding poll_ends_def by (rule exI [of _ 1]) (simp add: demo_acquire_def)
  from acquire_owns_fence [OF this, of "Some demo_device" 5 "0x10" "0x20"]
  obtain tr ims r where A: "nvhal_AcquireImageANDROID (Some demo_device) demo_acquire 5 0x10 0x20 = Some (tr, ims, r)"
    "run_ev (lent_fd 5) tr = Some {#}" "r = VK_SUCCESS \<longrightarrow> (\<exists>x. ImportFence 0x20 x \<in> set ims \<and> payload_ok demo_acquire 5 x)"
    by auto
  moreover have "nvhal_AcquireImageANDROID (Some demo_device) demo_acquire 5 0x10 0x20 =
     Some ([Rel (HFd 5)], [ImportSemaphore 0x10 (-1), ImportFence 0x20 (-1)], VK_SUCCESS)" by code_simp
  ultimately show ?thesis by (simp add: lent_fd_def)
qed

section \<open>Sessions of a device\<close>

text \<open>Calls of the app and the loader on one device; an acquire hands a descriptor over.\<close>

datatype anb_op =
    ACreate bool "image_ci \<times> cros_gralloc_handle option \<times> import_icd"
  | ADestroy handle
  | AAcquire acquire_env int handle handle
  | ARelease nat release_env

fun anb_step :: "nvhal_device \<Rightarrow> anb_op \<Rightarrow> (hal_res ev list \<times> fence_call list \<times> nvhal_device) option" where
  "anb_step d (ACreate ok e) = map_option (\<lambda>(tr, _, d'). (tr, [], d')) (anb_create_image ok d e)"
| "anb_step d (ADestroy img) = (let (tr, d') = anb_destroy_image d img in Some (tr, [], d'))"
| "anb_step d (AAcquire k fd sem fence) =
    map_option (\<lambda>(tr, _, _). ((if fd \<ge> 0 then [Acq (HFd fd)] else []) @ tr, [], d)) (nvhal_AcquireImageANDROID (Some d) k fd sem fence)"
| "anb_step d (ARelease waits k) = map_option (\<lambda>(cs, _, d'). ([], cs, d')) (nvhal_QueueSignalReleaseImageANDROID waits k d)"

fun anb_run :: "nvhal_device \<Rightarrow> anb_op list \<Rightarrow> (hal_res ev list \<times> fence_call list \<times> nvhal_device) option" where
  "anb_run d [] = Some ([], [], d)"
| "anb_run d (x # xs) = (case anb_step d x of None \<Rightarrow> None | Some (tr, cs, d1) \<Rightarrow>
     map_option (\<lambda>(tr', cs', d2). (tr @ tr', cs @ cs', d2)) (anb_run d1 xs))"

text \<open>The driver's and the kernel's answers are lawful and the app destroys only images it still has.\<close>

fun op_ok :: "nvhal_device \<Rightarrow> anb_op \<Rightarrow> bool" where
  "op_ok d (ACreate ok (ci, h, k)) \<longleftrightarrow> import_lawful k"
| "op_ok d (ADestroy img) \<longleftrightarrow> img = 0 \<or> img \<in> fst ` set (d_anb_images d)"
| "op_ok d (AAcquire k fd sem fence) \<longleftrightarrow> poll_ends (ac_poll k)"
| "op_ok d (ARelease waits k) \<longleftrightarrow> True"

fun uses_ok :: "nvhal_device \<Rightarrow> anb_op list \<Rightarrow> bool" where
  "uses_ok d [] \<longleftrightarrow> True"
| "uses_ok d (x # xs) \<longleftrightarrow> op_ok d x \<and> (case anb_step d x of None \<Rightarrow> True | Some (_, _, d') \<Rightarrow> uses_ok d' xs)"

definition image_holds :: "(handle \<times> handle) list \<Rightarrow> hal_res multiset" where
  "image_holds xs = image_mset (HImage \<circ> fst) (mset xs) + image_mset (HMemory \<circ> snd) (mset xs)"

text \<open>Well-formed device state: counts within the capacities, every tracked memory object real.\<close>

definition device_ok :: "nat \<Rightarrow> nvhal_device \<Rightarrow> bool" where
  "device_ok n d \<longleftrightarrow> length (d_anb_images d) \<le> unat (d_anb_cap d) \<and> length (d_anb_images d) \<le> n \<and>
     length (d_fence_pool d) \<le> unat (d_fence_cap d) \<and> length (d_fence_pool d) \<le> n \<and> 0 \<notin> snd ` set (d_anb_images d)"

lemma image_holds_snoc: "image_holds (xs @ [(i, m)]) = image_holds xs + {#HImage i, HMemory m#}"
  by (simp add: image_holds_def)

lemma image_holds_take:
  assumes "j < length xs"
  shows "image_holds xs = image_holds (swap_del xs j) + {#HImage (fst (xs ! j)), HMemory (snd (xs ! j))#}"
proof -
  have "mset xs = add_mset (xs ! j) (mset (swap_del xs j))"
    using assms by (simp add: mset_swap_del insert_DiffM)
  then show ?thesis by (simp add: image_holds_def)
qed

lemma track_sound:
  assumes "device_ok n d" "n < 2 ^ 31" "m \<noteq> 0"
  shows "\<exists>b d'. anb_track ok d i m = Some (b, d') \<and> device_ok (Suc n) d' \<and> d_mem_types d' = d_mem_types d \<and>
     d_fence_pool d' = d_fence_pool d \<and> d_fence_cap d' = d_fence_cap d \<and>
     d_anb_images d' = d_anb_images d @ (if b then [(i, m)] else [])"
proof -
  let ?full = "length (d_anb_images d) = unat (d_anb_cap d)"
  have len: "length (d_anb_images d) \<le> unat (d_anb_cap d)" "length (d_anb_images d) < 2 ^ 31"
    using assms(1,2) by (auto simp: device_ok_def)
  show ?thesis
  proof (cases "?full \<and> \<not> ok")
    case True
    then show ?thesis using assms by (auto simp: anb_track_def device_ok_def)
  next
    case False
    define c where "c = (if ?full then grown_cap 8 (d_anb_cap d) else d_anb_cap d)"
    have c: "length (d_anb_images d) < unat c"
      using len grown_cap_grows [of "d_anb_cap d" 8] by (auto simp: c_def)
    define d' where "d' = d\<lparr>d_anb_cap := c, d_anb_images := d_anb_images d @ [(i, m)]\<rparr>"
    have "anb_track ok d i m = Some (True, d')" using False c by (auto simp: anb_track_def c_def d'_def Let_def)
    then show ?thesis using assms c by (auto simp: d'_def device_ok_def)
  qed
qed

lemma untrack_sound:
  assumes "i \<in> fst ` set (d_anb_images d)" "0 \<notin> snd ` set (d_anb_images d)"
  shows "\<exists>m d'. anb_untrack d i = (m, d') \<and> m \<noteq> 0 \<and> d' = d\<lparr>d_anb_images := d_anb_images d'\<rparr> \<and>
     image_holds (d_anb_images d) = image_holds (d_anb_images d') + {#HImage i, HMemory m#} \<and>
     length (d_anb_images d') \<le> length (d_anb_images d) \<and> set (d_anb_images d') \<subseteq> set (d_anb_images d)"
proof -
  have "map_of (d_anb_images d) i \<noteq> None" using assms(1) by (simp add: map_of_eq_None_iff)
  then obtain j where j: "key_index (d_anb_images d) i = Some j" using key_index_None by fastforce
  then have "j < length (d_anb_images d)" "fst (d_anb_images d ! j) = i" by (auto dest: key_index_SomeD)
  moreover have "snd (d_anb_images d ! j) \<noteq> 0" using assms(2) calculation(1) nth_mem by force
  moreover have "set (swap_del (d_anb_images d) j) \<subseteq> set (d_anb_images d)"
    using mset_swap_del [OF calculation(1)] by (metis diff_subset_eq_self set_mset_mono set_mset_mset)
  ultimately show ?thesis using image_holds_take [of j "d_anb_images d"] j
    by (simp add: anb_untrack_def swap_del_def)
qed

lemma create_sound:
  assumes "device_ok n d" "n < 2 ^ 31" "import_lawful k"
  shows "\<exists>tr r d'. anb_create_image ok d (ci, h, k) = Some (tr, r, d') \<and> device_ok (Suc n) d' \<and>
     run_ev (image_holds (d_anb_images d)) tr = Some (image_holds (d_anb_images d')) \<and>
     d_fence_pool d' = d_fence_pool d \<and> d_fence_cap d' = d_fence_cap d"
proof -
  let ?H = "image_holds (d_anb_images d)"
  obtain tr res where imp: "nvhal_anb_import (d_mem_types d) (ci, h, k) = (tr, res)" by force
  have run: "run_ev ?H tr = Some (?H + (case res of Inl _ \<Rightarrow> {#} | Inr a \<Rightarrow> imported_holds a))"
    using anbimport.op_frame [of "(ci, h, k)" ?H "d_mem_types d"] assms(3) imp by (simp add: anbimport.held_by_def)
  show ?thesis
  proof (cases res)
    case (Inl e)
    then show ?thesis using imp run assms(1) by (auto simp: anb_create_image_def device_ok_def)
  next
    case (Inr a)
    have m: "a_memory a \<noteq> 0"
      using imp [unfolded Inr] assms(3)
      by (auto simp: nvhal_anb_import_def import_lawful_def Let_def split: prod.splits sum.splits option.splits if_splits)
    obtain b d' where t: "anb_track ok d (a_image a) (a_memory a) = Some (b, d')" "device_ok (Suc n) d'"
      "d_fence_pool d' = d_fence_pool d" "d_fence_cap d' = d_fence_cap d"
      "d_anb_images d' = d_anb_images d @ (if b then [(a_image a, a_memory a)] else [])"
      using track_sound [OF assms(1,2) m, of ok "a_image a"] by blast
    show ?thesis using imp Inr t run
      by (cases b) (simp_all add: anb_create_image_def image_holds_snoc imported_holds_def run_ev_append)
  qed
qed

lemma destroy_sound:
  assumes "device_ok n d" "img = 0 \<or> img \<in> fst ` set (d_anb_images d)"
  shows "\<exists>tr d'. anb_destroy_image d img = (tr, d') \<and> device_ok (Suc n) d' \<and>
     run_ev (image_holds (d_anb_images d)) tr = Some (image_holds (d_anb_images d')) \<and>
     d_fence_pool d' = d_fence_pool d \<and> d_fence_cap d' = d_fence_cap d"
proof (cases "img = 0")
  case True
  then show ?thesis using assms(1) by (auto simp: anb_destroy_image_def device_ok_def)
next
  case False
  then have img: "img \<in> fst ` set (d_anb_images d)" using assms(2) by simp
  obtain m d' where u: "anb_untrack d img = (m, d')" "m \<noteq> 0" "d' = d\<lparr>d_anb_images := d_anb_images d'\<rparr>"
     "image_holds (d_anb_images d) = image_holds (d_anb_images d') + {#HImage img, HMemory m#}"
     "length (d_anb_images d') \<le> length (d_anb_images d)" "set (d_anb_images d') \<subseteq> set (d_anb_images d)"
    using untrack_sound [OF img] assms(1) by (auto simp: device_ok_def)
  have "d_fence_pool d' = d_fence_pool d" "d_fence_cap d' = d_fence_cap d" "d_anb_cap d' = d_anb_cap d"
    by (subst u(3), simp)+
  moreover have "device_ok (Suc n) d'" using assms(1) u(5,6) calculation by (auto simp: device_ok_def)
  moreover have "anb_destroy_image d img = ([Rel (HImage img), Rel (HMemory m)], d')"
    using False img u(1,2) by (auto simp: anb_destroy_image_def)
  ultimately show ?thesis using u(4) by simp
qed

lemma pool_put_returns:
  assumes "length (d_fence_pool d) \<le> unat (d_fence_cap d)" "length (d_fence_pool d) < 2 ^ 31"
  shows "\<exists>t d'. pool_put ok d f = Some (t, d') \<and> fences_only d d' \<and> length (d_fence_pool d') \<le> unat (d_fence_cap d') \<and>
     length (d_fence_pool d') \<le> Suc (length (d_fence_pool d))"
  using assms grown_cap_grows [of "d_fence_cap d" 4]
  by (auto simp: pool_put_def fences_only_def Let_def)

lemma release_returns:
  assumes "length (d_fence_pool d) \<le> unat (d_fence_cap d)" "length (d_fence_pool d) < 2 ^ 31"
  shows "\<exists>t r d'. nvhal_QueueSignalReleaseImageANDROID waits k d = Some (t, r, d') \<and> fences_only d d' \<and>
     length (d_fence_pool d') \<le> unat (d_fence_cap d') \<and> length (d_fence_pool d') \<le> Suc (length (d_fence_pool d)) \<and>
     (fst r \<noteq> VK_SUCCESS \<longrightarrow> snd r = -1)"
proof -
  obtain t0 res d1 where get: "pool_get k d = (t0, res, d1)" by (rule prod_cases3)
  have d1: "fences_only d d1" "length (d_fence_pool d1) \<le> length (d_fence_pool d)" "d_fence_cap d1 = d_fence_cap d"
    using get by (auto simp: pool_get_def fences_only_def Let_def split: if_splits prod.splits)
  have c1: "length (d_fence_pool d1) \<le> unat (d_fence_cap d1)" "length (d_fence_pool d1) < 2 ^ 31"
    using d1 assms by simp_all
  show ?thesis
  proof (cases res)
    case (Inl r)
    then have "r \<noteq> VK_SUCCESS" using get by (auto simp: pool_get_def Let_def split: if_splits prod.splits)
    then show ?thesis using get d1 c1 assms Inl by (simp add: nvhal_QueueSignalReleaseImageANDROID_def codes)
  next
    case (Inr f)
    obtain p d2 where put: "pool_put (re_realloc k) d1 f = Some (p, d2)" "fences_only d1 d2"
      "length (d_fence_pool d2) \<le> unat (d_fence_cap d2)" "length (d_fence_pool d2) \<le> Suc (length (d_fence_pool d1))"
      using pool_put_returns [OF c1, of "re_realloc k" f] by blast
    have d2: "fences_only d d2" "length (d_fence_pool d2) \<le> Suc (length (d_fence_pool d))"
      using fences_only_trans [OF d1(1) put(2)] put(4) d1(2) by simp_all
    obtain x fd where x: "re_export k = (x, fd)" by force
    show ?thesis unfolding nvhal_QueueSignalReleaseImageANDROID_def get Inr Let_def x
      using d1 c1 d2 put(1,3) assms by (simp add: codes)
  qed
qed

lemma step_sound:
  assumes "device_ok n d" "n < 2 ^ 31" "op_ok d x"
  shows "\<exists>tr cs d'. anb_step d x = Some (tr, cs, d') \<and> device_ok (Suc n) d' \<and>
    run_ev (image_holds (d_anb_images d)) tr = Some (image_holds (d_anb_images d'))"
proof (cases x)
  case (ACreate ok e)
  obtain ci h k where e: "e = (ci, h, k)" by (rule prod_cases3)
  then show ?thesis using ACreate assms create_sound [OF assms(1,2), of k ok ci h] by fastforce
next
  case (ADestroy img)
  then show ?thesis using assms destroy_sound [OF assms(1), of img] by fastforce
next
  case (AAcquire k fd sem fence)
  let ?H = "image_holds (d_anb_images d)"
  obtain tr ims r where a: "nvhal_AcquireImageANDROID (Some d) k fd sem fence = Some (tr, ims, r)" "run_ev (lent_fd fd) tr = Some {#}"
    using acquire_sound [of k "Some d" fd sem fence] assms(3) AAcquire by auto
  have "run_ev (?H + lent_fd fd) tr = Some ?H" using run_ev_frame [OF a(2), of ?H] by simp
  then have "run_ev ?H ((if fd \<ge> 0 then [Acq (HFd fd)] else []) @ tr) = Some ?H"
    by (auto simp: lent_fd_def split: if_splits)
  then show ?thesis using AAcquire a(1) assms(1) by (auto simp: device_ok_def)
next
  case (ARelease waits k)
  obtain t r d' where "nvhal_QueueSignalReleaseImageANDROID waits k d = Some (t, r, d')" "fences_only d d'"
     "length (d_fence_pool d') \<le> unat (d_fence_cap d')" "length (d_fence_pool d') \<le> Suc (length (d_fence_pool d))"
    using release_returns [of d waits k] assms(1,2) by (fastforce simp: device_ok_def)
  moreover have "d_anb_images d' = d_anb_images d" "d_anb_cap d' = d_anb_cap d"
    using fences_only_images [OF calculation(2)] by simp_all
  ultimately show ?thesis using ARelease assms(1) by (auto simp: device_ok_def)
qed

fun op_keeps :: "anb_op \<Rightarrow> bool" where
  "op_keeps (ARelease waits k) = keeps_fences k"
| "op_keeps _ = True"

lemma step_fences:
  assumes "device_ok n d" "n < 2 ^ 31" "op_ok d x" "anb_step d x = Some (tr, cs, d')" "pool_ok d M" "fresh_fences M cs"
  shows "\<exists>M'. fence_run M cs = Some M' \<and> pool_ok d' M' \<and>
    (op_keeps x \<and> dom M = set (d_fence_pool d) \<longrightarrow> dom M' = set (d_fence_pool d'))"
proof -
  have same: ?thesis if "cs = []" "d_fence_pool d' = d_fence_pool d" "d_fence_cap d' = d_fence_cap d"
    using that assms(5) by (simp add: pool_ok_def)
  show ?thesis
  proof (cases x)
    case (ACreate ok e)
    obtain ci h k where e: "e = (ci, h, k)" by (rule prod_cases3)
    show ?thesis using ACreate e assms(3,4) create_sound [OF assms(1,2), of k ok ci h] by (intro same) auto
  next
    case (ADestroy img)
    then show ?thesis using assms(3,4) destroy_sound [OF assms(1), of img] by (intro same) auto
  next
    case (AAcquire k fd sem fence)
    then show ?thesis using assms(4) by (intro same) auto
  next
    case (ARelease waits k)
    obtain r where "nvhal_QueueSignalReleaseImageANDROID waits k d = Some (cs, r, d')"
      using assms(4) ARelease by auto
    then have "release_post d M k cs d'" using release_sound [OF assms(5)] assms(1,2,6) by (simp add: device_ok_def)
    then show ?thesis using ARelease by (auto simp: release_post_def)
  qed
qed

lemma run_sound:
  "device_ok n d \<Longrightarrow> n + length ops < 2 ^ 31 \<Longrightarrow> uses_ok d ops \<Longrightarrow>
   \<exists>tr cs d'. anb_run d ops = Some (tr, cs, d') \<and> device_ok (n + length ops) d' \<and>
     run_ev (image_holds (d_anb_images d)) tr = Some (image_holds (d_anb_images d'))"
proof (induction ops arbitrary: d n)
  case (Cons x ops)
  obtain tr cs d1 where s: "anb_step d x = Some (tr, cs, d1)" "device_ok (Suc n) d1"
      "run_ev (image_holds (d_anb_images d)) tr = Some (image_holds (d_anb_images d1))"
    using step_sound [OF Cons.prems(1), of x] Cons.prems by auto
  obtain tr' cs' d' where "anb_run d1 ops = Some (tr', cs', d')" "device_ok (Suc n + length ops) d'"
      "run_ev (image_holds (d_anb_images d1)) tr' = Some (image_holds (d_anb_images d'))"
    using Cons.IH [OF s(2)] Cons.prems s(1) by auto
  then show ?case using s by (simp add: run_ev_append)
qed simp

lemma run_fences:
  "device_ok n d \<Longrightarrow> n + length ops < 2 ^ 31 \<Longrightarrow> uses_ok d ops \<Longrightarrow> anb_run d ops = Some (tr, cs, d') \<Longrightarrow>
   pool_ok d M \<Longrightarrow> fresh_fences M cs \<Longrightarrow>
   \<exists>M'. fence_run M cs = Some M' \<and> pool_ok d' M' \<and>
     (list_all op_keeps ops \<and> dom M = set (d_fence_pool d) \<longrightarrow> dom M' = set (d_fence_pool d'))"
proof (induction ops arbitrary: d n M tr cs)
  case (Cons x ops)
  obtain tr1 cs1 d1 where s: "anb_step d x = Some (tr1, cs1, d1)" "device_ok (Suc n) d1"
    using step_sound [OF Cons.prems(1), of x] Cons.prems by auto
  obtain tr2 cs2 where r: "anb_run d1 ops = Some (tr2, cs2, d')" "cs = cs1 @ cs2"
    using Cons.prems(4) s(1) by auto
  obtain M1 where M1: "fence_run M cs1 = Some M1" "pool_ok d1 M1"
    "op_keeps x \<and> dom M = set (d_fence_pool d) \<longrightarrow> dom M1 = set (d_fence_pool d1)"
    using step_fences [OF Cons.prems(1) _ _ s(1) Cons.prems(5)] Cons.prems r(2) by (auto simp: fresh_fences_append)
  have "fresh_fences M1 cs2" using Cons.prems(6) r(2) M1(1) by (simp add: fresh_fences_append)
  with Cons.IH [OF s(2) _ _ r(1) M1(2)] Cons.prems s(1) M1 r(2) show ?case
    by (auto simp: fence_run_append)
qed simp

lemma destroy_pool:
  "distinct fs \<Longrightarrow> \<forall>f \<in> set fs. M f = Some Idle \<Longrightarrow> fence_run M (map FDestroy fs) = Some (M |` (- set fs))"
proof (induction fs arbitrary: M)
  case (Cons f fs)
  then have "fence_run (M(f := None)) (map FDestroy fs) = Some ((M(f := None)) |` (- set fs))"
    by (intro Cons.IH) (use Cons.prems in auto)
  moreover have "(M(f := None)) |` (- set fs) = M |` (- set (f # fs))"
    by (auto simp: restrict_map_def fun_eq_iff)
  ultimately show ?case using Cons.prems by simp
qed (simp add: restrict_map_def)

definition fresh_device :: "nvhal_device \<Rightarrow> bool" where
  "fresh_device d \<longleftrightarrow> d_anb_images d = [] \<and> d_anb_cap d = 0 \<and> d_fence_pool d = [] \<and> d_fence_cap d = 0"

lemma fresh_device_ok: "fresh_device d \<Longrightarrow> device_ok 0 d" "fresh_device d \<Longrightarrow> pool_ok d Map.empty"
  by (simp_all add: fresh_device_def device_ok_def pool_ok_def)

lemma teardown_images:
  "run_ev (image_holds xs) (map (\<lambda>(_, mem). Rel (HMemory mem)) xs) = Some (image_mset (HImage \<circ> fst) (mset xs))"
proof -
  have "run_ev (N + image_mset (HMemory \<circ> snd) (mset xs)) (map (\<lambda>(_, mem). Rel (HMemory mem)) xs) = Some N" for N
    by (induction xs arbitrary: N) auto
  then show ?thesis by (simp add: image_holds_def)
qed


definition demo_release :: release_env where
  "demo_release = \<lparr>re_malloc = True, re_new = (VK_SUCCESS, 0x30), re_status = VK_NOT_READY, re_reset = VK_SUCCESS,
     re_submit = VK_SUCCESS, re_export = (VK_SUCCESS, 11), re_wait = VK_SUCCESS, re_reset_after = VK_SUCCESS, re_realloc = True\<rparr>"

definition demo_icd2 :: import_icd where
  "demo_icd2 = demo_icd\<lparr>i_image := (VK_SUCCESS, 0x101), i_memory := (VK_SUCCESS, 0x201)\<rparr>"

definition demo_ops :: "anb_op list" where
  "demo_ops = [ACreate True (demo_ci, Some demo_handle, demo_icd),
     ACreate True (demo_ci, Some demo_handle, demo_icd2),
     AAcquire demo_acquire 5 0x10 0x20, ARelease 3 demo_release, ADestroy 0x100, ARelease 2 demo_release]"

abbreviation demo_state :: "(handle \<times> handle) list \<Rightarrow> u32 \<Rightarrow> handle list \<Rightarrow> u32 \<Rightarrow> nvhal_device" where
  "demo_state xs c fs c' \<equiv> \<lparr>d_anb_enabled = True, d_ahb_enabled = False, d_wait_fence = False, d_wait_semaphore = True,
     d_mem_types = [0, 1, 1], d_anb_images = xs, d_anb_cap = c, d_fence_pool = fs, d_fence_cap = c'\<rparr>"

lemma demo_steps:
  "anb_step demo_device (ACreate True (demo_ci, Some demo_handle, demo_icd)) =
     Some ([Acq (HImage 0x100), Acq (HFd 9), Acq (HMemory 0x200), Rel (HFd 9)], [], demo_state [(0x100, 0x200)] 8 [] 0)"
  "anb_step (demo_state [(0x100, 0x200)] 8 [] 0) (ACreate True (demo_ci, Some demo_handle, demo_icd2)) =
     Some ([Acq (HImage 0x101), Acq (HFd 9), Acq (HMemory 0x201), Rel (HFd 9)], [], demo_state [(0x100, 0x200), (0x101, 0x201)] 8 [] 0)"
  "anb_step (demo_state [(0x100, 0x200), (0x101, 0x201)] 8 [] 0) (AAcquire demo_acquire 5 0x10 0x20) =
     Some ([Acq (HFd 5), Rel (HFd 5)], [], demo_state [(0x100, 0x200), (0x101, 0x201)] 8 [] 0)"
  "anb_step (demo_state [(0x100, 0x200), (0x101, 0x201)] 8 [] 0) (ARelease 3 demo_release) =
     Some ([], [FCreate 0x30, FSubmit 0x30 VK_SUCCESS, FExport 0x30 VK_SUCCESS], demo_state [(0x100, 0x200), (0x101, 0x201)] 8 [0x30] 4)"
  "anb_step (demo_state [(0x100, 0x200), (0x101, 0x201)] 8 [0x30] 4) (ADestroy 0x100) =
     Some ([Rel (HImage 0x100), Rel (HMemory 0x200)], [], demo_state [(0x101, 0x201)] 8 [0x30] 4)"
  "anb_step (demo_state [(0x101, 0x201)] 8 [0x30] 4) (ARelease 2 demo_release) =
     Some ([], [FStatus 0x30 VK_NOT_READY, FSubmit 0x30 VK_SUCCESS, FExport 0x30 VK_SUCCESS], demo_state [(0x101, 0x201)] 8 [0x30] 4)"
  by code_simp+

lemma demo_run:
  "uses_ok demo_device demo_ops" "fresh_device demo_device" "length demo_ops < 2 ^ 31"
  "\<exists>tr. anb_run demo_device demo_ops = Some (tr, [FCreate 0x30, FSubmit 0x30 VK_SUCCESS, FExport 0x30 VK_SUCCESS,
     FStatus 0x30 VK_NOT_READY, FSubmit 0x30 VK_SUCCESS, FExport 0x30 VK_SUCCESS], demo_state [(0x101, 0x201)] 8 [0x30] 4)"
proof -
  have "import_lawful demo_icd" "import_lawful demo_icd2" by code_simp+
  moreover have "poll_ends (ac_poll demo_acquire)"
    unfolding poll_ends_def by (rule exI [of _ 1]) (simp add: demo_acquire_def)
  ultimately show "uses_ok demo_device demo_ops" by (simp add: demo_ops_def demo_steps del: anb_step.simps)
  show "fresh_device demo_device" "length demo_ops < 2 ^ 31"
    by (simp_all add: fresh_device_def demo_device_def demo_ops_def)
  show "\<exists>tr. anb_run demo_device demo_ops = Some (tr, [FCreate 0x30, FSubmit 0x30 VK_SUCCESS, FExport 0x30 VK_SUCCESS,
     FStatus 0x30 VK_NOT_READY, FSubmit 0x30 VK_SUCCESS, FExport 0x30 VK_SUCCESS], demo_state [(0x101, 0x201)] 8 [0x30] 4)"
    by (simp add: demo_ops_def demo_steps del: anb_step.simps)
qed


text \<open>
  C17. The pool of export fences. Over any session, with a driver that returns new fences under
  handles not in use, every call of the HAL on its fences keeps the rules of Vulkan: a fence is
  submitted only when it is unsignalled and nothing is pending on it, reset, waited for and destroyed
  only when that is allowed. The pool holds distinct idle fences, and when the driver never reports
  an error for a pooled fence and can wait out a fence it failed to export, the teardown destroys
  every fence.
\<close>

theorem release_fences_sound:
  assumes "fresh_device d" "uses_ok d ops" "length ops < 2 ^ 31"
    "anb_run d ops = Some (tr, cs, d')" "fresh_fences Map.empty cs"
  shows "\<exists>M. fence_run Map.empty cs = Some M \<and> distinct (d_fence_pool d') \<and>
    (\<forall>f \<in> set (d_fence_pool d'). M f = Some Idle) \<and>
    (list_all op_keeps ops \<longrightarrow>
      fence_run Map.empty (cs @ fst (snd (nvhal_anb_device_teardown d'))) = Some Map.empty)"
proof -
  obtain M where M: "fence_run Map.empty cs = Some M" "pool_ok d' M"
     "list_all op_keeps ops \<longrightarrow> dom M = set (d_fence_pool d')"
    using run_fences [OF fresh_device_ok(1) [OF assms(1)] _ assms(2,4) fresh_device_ok(2) [OF assms(1)] assms(5)] assms(1,3)
    by (auto simp: fresh_device_def)
  moreover have "M |` (- set (d_fence_pool d')) = Map.empty" if "dom M = set (d_fence_pool d')"
    using that by (auto simp: restrict_map_def fun_eq_iff domIff)
  ultimately show ?thesis using destroy_pool [of "d_fence_pool d'" M]
    by (auto simp: pool_ok_def nvhal_anb_device_teardown_def fence_run_append)
qed

theorem release_fences_sound_witness:
  "\<exists>tr cs d'. anb_run demo_device demo_ops = Some (tr, cs, d') \<and> d_fence_pool d' = [0x30] \<and>
     fence_run Map.empty (cs @ fst (snd (nvhal_anb_device_teardown d'))) = Some Map.empty"
proof -
  obtain tr where run: "anb_run demo_device demo_ops = Some (tr, [FCreate 0x30, FSubmit 0x30 VK_SUCCESS, FExport 0x30 VK_SUCCESS,
     FStatus 0x30 VK_NOT_READY, FSubmit 0x30 VK_SUCCESS, FExport 0x30 VK_SUCCESS], demo_state [(0x101, 0x201)] 8 [0x30] 4)"
    using demo_run(4) by blast
  have "list_all op_keeps demo_ops"
    by (simp add: demo_ops_def keeps_fences_def demo_release_def)
  then show ?thesis using release_fences_sound [OF demo_run(2,1,3) run] run by (simp add: codes)
qed

text \<open>
  C39. A pooled fence whose status query fails is lost: when vkGetFenceStatus reports an error (a lost
  device), the release fails with that error but the fence taken from the pool is neither put back
  nor destroyed, and after the teardown of the device it still exists. The neighbouring branch, a
  failed reset, destroys the fence.
\<close>

theorem pool_fence_leaks:
  assumes "d_anb_enabled d" "waits \<le> 16" "pool_ok d M" "d_fence_pool d = fs @ [f]"
    "re_status k \<noteq> VK_SUCCESS" "re_status k \<noteq> VK_NOT_READY"
  shows "\<exists>cs d' M'. nvhal_QueueSignalReleaseImageANDROID waits k d = Some (cs, (re_status k, -1), d') \<and> d_fence_pool d' = fs \<and>
    fence_run M (cs @ fst (snd (nvhal_anb_device_teardown d'))) = Some M' \<and> M' f = Some Idle"
proof -
  have f: "M f = Some Idle" "f \<noteq> 0" "f \<notin> set fs" "distinct fs" "\<forall>g \<in> set fs. M g = Some Idle"
    using assms(3,4) by (auto simp: pool_ok_def)
  have "pool_get k d = ([FStatus f (re_status k)], Inl (re_status k), d\<lparr>d_fence_pool := fs\<rparr>)"
    using assms f(2) by (simp add: pool_get_def Let_def)
  then have "nvhal_QueueSignalReleaseImageANDROID waits k d = Some ([FStatus f (re_status k)], (re_status k, -1), d\<lparr>d_fence_pool := fs\<rparr>)"
    using assms(1,2) by (simp add: nvhal_QueueSignalReleaseImageANDROID_def)
  moreover have "fence_run M (FStatus f (re_status k) # map FDestroy fs) = Some (M |` (- set fs))"
    using destroy_pool [OF f(4,5)] f(1) assms(5) by simp
  ultimately show ?thesis using f(1,3) by (simp add: nvhal_anb_device_teardown_def)
qed

theorem pool_fence_leaks_witness:
  "\<exists>cs d' M'. nvhal_QueueSignalReleaseImageANDROID 1 (demo_release\<lparr>re_status := VK_ERROR_DEVICE_LOST\<rparr>)
       (demo_state [] 0 [0x30] 4) = Some (cs, (VK_ERROR_DEVICE_LOST, -1), d') \<and>
     fence_run [0x30 \<mapsto> Idle] (cs @ fst (snd (nvhal_anb_device_teardown d'))) = Some M' \<and> M' 0x30 = Some Idle"
  using pool_fence_leaks [of "demo_state [] 0 [0x30] 4" 1 "[0x30 \<mapsto> Idle]" "[]" "0x30" "demo_release\<lparr>re_status := VK_ERROR_DEVICE_LOST\<rparr>"]
  by (simp add: pool_ok_def codes) blast

end
