(* ===== verification/Ahb_Buffer.thy ===== *)
theory Ahb_Buffer
  imports Anb Gbm_Alloc
begin

text \<open>
  VK_ANDROID_external_memory_android_hardware_buffer, nvidia-prolapse/hal/src/ahb.c, first part: the
  format tables, the description of a gralloc buffer (\<open>gbuf_get\<close>) with its checks, the create info of
  an AHB image (\<open>parse_ci\<close>), the modifiers the gralloc would choose, and the creation of the driver's
  image for a buffer (\<open>realise\<close>) with the layout rule of two-plane video buffers. The
  AHardwareBuffer library, the kernel and the driver answer through records.
\<close>

section \<open>Formats\<close>

definition VKF_D16_UNORM :: vk_fmt where [codes]: "VKF_D16_UNORM = 124"
definition VKF_X8_D24_UNORM_PACK32 :: vk_fmt where [codes]: "VKF_X8_D24_UNORM_PACK32 = 125"
definition VKF_D32_SFLOAT :: vk_fmt where [codes]: "VKF_D32_SFLOAT = 126"
definition VKF_S8_UINT :: vk_fmt where [codes]: "VKF_S8_UINT = 127"
definition VKF_D24_UNORM_S8_UINT :: vk_fmt where [codes]: "VKF_D24_UNORM_S8_UINT = 129"
definition VKF_D32_SFLOAT_S8_UINT :: vk_fmt where [codes]: "VKF_D32_SFLOAT_S8_UINT = 130"
definition VKF_G8_B8R8_2PLANE_420_UNORM :: vk_fmt where [codes]: "VKF_G8_B8R8_2PLANE_420_UNORM = 1000156003"
definition VKF_G10X6_2PLANE_420_UNORM_3PACK16 :: vk_fmt where [codes]: "VKF_G10X6_2PLANE_420_UNORM_3PACK16 = 1000156013"

definition AHB_R8G8B8A8_UNORM :: u32 where [codes]: "AHB_R8G8B8A8_UNORM = 1"
definition AHB_R8G8B8X8_UNORM :: u32 where [codes]: "AHB_R8G8B8X8_UNORM = 2"
definition AHB_R8G8B8_UNORM :: u32 where [codes]: "AHB_R8G8B8_UNORM = 3"
definition AHB_R5G6B5_UNORM :: u32 where [codes]: "AHB_R5G6B5_UNORM = 4"
definition NVHAL_AHB_FORMAT_B8G8R8A8_UNORM :: u32 where [codes]: "NVHAL_AHB_FORMAT_B8G8R8A8_UNORM = 5"
definition AHB_R16G16B16A16_FLOAT :: u32 where [codes]: "AHB_R16G16B16A16_FLOAT = 0x16"
definition AHB_BLOB :: u32 where [codes]: "AHB_BLOB = 0x21"
definition AHB_R10G10B10A2_UNORM :: u32 where [codes]: "AHB_R10G10B10A2_UNORM = 0x2b"
definition AHB_D16_UNORM :: u32 where [codes]: "AHB_D16_UNORM = 0x30"
definition AHB_D24_UNORM :: u32 where [codes]: "AHB_D24_UNORM = 0x31"
definition AHB_D24_UNORM_S8_UINT :: u32 where [codes]: "AHB_D24_UNORM_S8_UINT = 0x32"
definition AHB_D32_FLOAT :: u32 where [codes]: "AHB_D32_FLOAT = 0x33"
definition AHB_D32_FLOAT_S8_UINT :: u32 where [codes]: "AHB_D32_FLOAT_S8_UINT = 0x34"
definition AHB_S8_UINT :: u32 where [codes]: "AHB_S8_UINT = 0x35"
definition AHB_R8_UNORM :: u32 where [codes]: "AHB_R8_UNORM = 0x38"

definition ahb_to_vk :: "u32 \<Rightarrow> vk_fmt" where
  "ahb_to_vk f =
    (if f = AHB_R8G8B8A8_UNORM \<or> f = AHB_R8G8B8X8_UNORM then VKF_R8G8B8A8_UNORM
     else if f = AHB_R8G8B8_UNORM then VKF_R8G8B8_UNORM
     else if f = AHB_R5G6B5_UNORM then VKF_R5G6B5_UNORM_PACK16
     else if f = AHB_R16G16B16A16_FLOAT then VKF_R16G16B16A16_SFLOAT
     else if f = AHB_R10G10B10A2_UNORM then VKF_A2B10G10R10_UNORM_PACK32
     else if f = AHB_D16_UNORM then VKF_D16_UNORM
     else if f = AHB_D24_UNORM then VKF_X8_D24_UNORM_PACK32
     else if f = AHB_D24_UNORM_S8_UINT then VKF_D24_UNORM_S8_UINT
     else if f = AHB_D32_FLOAT then VKF_D32_SFLOAT
     else if f = AHB_D32_FLOAT_S8_UINT then VKF_D32_SFLOAT_S8_UINT
     else if f = AHB_S8_UINT then VKF_S8_UINT
     else if f = AHB_R8_UNORM then VKF_R8_UNORM
     else if f = NVHAL_AHB_FORMAT_B8G8R8A8_UNORM then VKF_B8G8R8A8_UNORM
     else VKF_UNDEFINED)"

definition gralloc_formats :: "(u32 \<times> vk_fmt \<times> u32) list" where
  "gralloc_formats =
   [(DRM_FORMAT_ABGR8888, VKF_R8G8B8A8_UNORM, AHB_R8G8B8A8_UNORM),
    (DRM_FORMAT_XBGR8888, VKF_R8G8B8A8_UNORM, AHB_R8G8B8X8_UNORM),
    (DRM_FORMAT_ARGB8888, VKF_B8G8R8A8_UNORM, NVHAL_AHB_FORMAT_B8G8R8A8_UNORM),
    (DRM_FORMAT_XRGB8888, VKF_B8G8R8A8_UNORM, NVHAL_AHB_FORMAT_B8G8R8A8_UNORM),
    (DRM_FORMAT_RGB565, VKF_R5G6B5_UNORM_PACK16, AHB_R5G6B5_UNORM),
    (DRM_FORMAT_ABGR2101010, VKF_A2B10G10R10_UNORM_PACK32, AHB_R10G10B10A2_UNORM),
    (DRM_FORMAT_ABGR16161616F, VKF_R16G16B16A16_SFLOAT, AHB_R16G16B16A16_FLOAT),
    (DRM_FORMAT_R8, VKF_R8_UNORM, AHB_R8_UNORM)]"

definition fourcc_to_vk :: "u32 \<Rightarrow> vk_fmt" where
  "fourcc_to_vk fourcc = (case find (\<lambda>(f, _, _). f = fourcc) gralloc_formats of Some (_, vk, _) \<Rightarrow> vk | None \<Rightarrow> VKF_UNDEFINED)"

definition yuv_formats :: "(u32 \<times> vk_fmt) list" where
  "yuv_formats = [(DRM_FORMAT_NV12, VKF_G8_B8R8_2PLANE_420_UNORM), (DRM_FORMAT_P010, VKF_G10X6_2PLANE_420_UNORM_3PACK16)]"

definition yuv_fourcc_to_vk :: "u32 \<Rightarrow> vk_fmt" where
  "yuv_fourcc_to_vk fourcc = (case find (\<lambda>(f, _). f = fourcc) yuv_formats of Some (_, vk) \<Rightarrow> vk | None \<Rightarrow> VKF_UNDEFINED)"

definition yuv_vk :: "vk_fmt \<Rightarrow> bool" where
  "yuv_vk f \<longleftrightarrow> find (\<lambda>(_, vk). vk = f) yuv_formats \<noteq> None"

definition vk_to_ahb :: "vk_fmt \<Rightarrow> u32" where
  "vk_to_ahb f = (case find (\<lambda>(_, vk, _). vk = f) gralloc_formats of Some (_, _, a) \<Rightarrow> a | None \<Rightarrow> 0)"

definition external_format_ok :: "vk_fmt \<Rightarrow> bool" where
  "external_format_ok f \<longleftrightarrow> vk_to_ahb f \<noteq> 0 \<or> yuv_vk f"

definition AHB_USAGE_SAMPLED_IMAGE :: u64 where [codes]: "AHB_USAGE_SAMPLED_IMAGE = 0x100"
definition AHB_USAGE_FRAMEBUFFER :: u64 where [codes]: "AHB_USAGE_FRAMEBUFFER = 0x200"
definition AHB_USAGE_PROTECTED :: u64 where [codes]: "AHB_USAGE_PROTECTED = 0x4000"
definition AHB_USAGE_DATA_BUFFER :: u64 where [codes]: "AHB_USAGE_DATA_BUFFER = 0x1000000"
definition AHB_USAGE_CUBE_MAP :: u64 where [codes]: "AHB_USAGE_CUBE_MAP = 0x2000000"

definition CREATE_SPARSE_OR_DISJOINT :: u32 where [codes]: "CREATE_SPARSE_OR_DISJOINT = 0x207"
definition CREATE_MUTABLE_FORMAT :: u32 where [codes]: "CREATE_MUTABLE_FORMAT = 8"
definition CREATE_CUBE_COMPATIBLE :: u32 where [codes]: "CREATE_CUBE_COMPATIBLE = 0x10"
definition CREATE_DISJOINT :: u32 where [codes]: "CREATE_DISJOINT = 0x200"
definition CREATE_PROTECTED :: u32 where [codes]: "CREATE_PROTECTED = 0x800"

definition vk_to_ahb_usage :: "u32 \<Rightarrow> u32 \<Rightarrow> u64" where
  "vk_to_ahb_usage flags usage =
    (let u = (if usage AND (USE_SAMPLED OR USE_INPUT_ATTACHMENT) \<noteq> 0 then AHB_USAGE_SAMPLED_IMAGE else 0) OR
             (if usage AND (USE_COLOR_ATTACHMENT OR USE_DEPTH_STENCIL_ATTACHMENT) \<noteq> 0 then AHB_USAGE_FRAMEBUFFER else 0) OR
             (if usage AND USE_STORAGE \<noteq> 0 then AHB_USAGE_DATA_BUFFER else 0) OR
             (if flags AND CREATE_CUBE_COMPATIBLE \<noteq> 0 then AHB_USAGE_CUBE_MAP else 0) OR
             (if flags AND CREATE_PROTECTED \<noteq> 0 then AHB_USAGE_PROTECTED else 0)
     in if u = 0 then AHB_USAGE_SAMPLED_IMAGE else u)"

section \<open>Buffer description\<close>

record ahb_desc =
  ad_width :: u32
  ad_height :: u32
  ad_layers :: u32
  ad_format :: u32
  ad_usage :: u64

record gbuf =
  b_desc :: ahb_desc
  b_g :: cros_gralloc_handle
  b_fd :: int
  b_size :: u64
  b_format :: vk_fmt
  b_blob :: bool
  b_yuv :: bool
  b_strides :: "u32 list"
  b_offsets :: "u32 list"

text \<open>What the buffer library and the kernel say of a buffer: description, native handle, the two
  lseeks on the first plane's descriptor, and the inodes of both planes (\<open>None\<close> is a failed fstat).\<close>

record buffer_env =
  be_desc :: ahb_desc
  be_handle :: "cros_gralloc_handle option"
  be_seek_end :: int
  be_seek_set :: int
  be_inode0 :: "(nat \<times> nat) option"
  be_inode1 :: "(nat \<times> nat) option"

definition plane_bad :: "u64 \<Rightarrow> u32 \<Rightarrow> u32 \<Rightarrow> u64 \<Rightarrow> bool" where
  "plane_bad total_bytes stride offset rows \<longleftrightarrow> stride = 0 \<or> ucast offset + ucast stride * rows > total_bytes"

definition gbuf_get :: "handle \<Rightarrow> buffer_env \<Rightarrow> vk_result + gbuf" where
  "gbuf_get buf k =
    (if buf = 0 then Inl VK_ERROR_INVALID_EXTERNAL_HANDLE
     else case nvhal_cros_handle (be_handle k) of Inl e \<Rightarrow> Inl e | Inr g \<Rightarrow>
     let fd = g_fds g ! 0; sz = (if fd \<ge> 0 then be_seek_end k else -1); desc = be_desc k in
     if sz < 0 \<or> be_seek_set k < 0 then Inl VK_ERROR_INVALID_EXTERNAL_HANDLE
     else let b = \<lparr>b_desc = desc, b_g = g, b_fd = fd, b_size = of_int sz, b_format = VKF_UNDEFINED, b_blob = (ad_format desc = AHB_BLOB),
                   b_yuv = False, b_strides = [], b_offsets = []\<rparr> in
     if b_blob b then Inr b
     else if g_num_planes g \<noteq> 1
     then (let yf = yuv_fourcc_to_vk (g_format g) in
           if yf = VKF_UNDEFINED \<or> g_num_planes g \<noteq> 2 then Inl VK_ERROR_INVALID_EXTERNAL_HANDLE
           else if g_modifier g \<noteq> DRM_FORMAT_MOD_LINEAR then Inl VK_ERROR_INVALID_EXTERNAL_HANDLE
           else if g_fds g ! 1 < 0 \<or> be_inode0 k = None \<or> be_inode1 k = None \<or> be_inode0 k \<noteq> be_inode1 k
           then Inl VK_ERROR_INVALID_EXTERNAL_HANDLE
           else if plane_bad (b_size b) (g_strides g ! 0) (g_offsets g ! 0) (ucast (ad_height desc)) \<or>
                   plane_bad (b_size b) (g_strides g ! 1) (g_offsets g ! 1) (ucast ((ad_height desc + 1) div 2))
           then Inl VK_ERROR_INVALID_EXTERNAL_HANDLE
           else Inr (b\<lparr>b_strides := [g_strides g ! 0, g_strides g ! 1], b_offsets := [g_offsets g ! 0, g_offsets g ! 1], b_yuv := True, b_format := yf\<rparr>))
     else if g_modifier g = DRM_FORMAT_MOD_INVALID then Inl VK_ERROR_INVALID_EXTERNAL_HANDLE
     else let fv = fourcc_to_vk (g_format g); av = ahb_to_vk (ad_format desc) in
     if fv = VKF_UNDEFINED then Inl VK_ERROR_INVALID_EXTERNAL_HANDLE
     else if av \<noteq> VKF_UNDEFINED \<and> av \<noteq> fv then Inl VK_ERROR_INVALID_EXTERNAL_HANDLE
     else Inr (b\<lparr>b_format := fv, b_strides := [g_strides g ! 0], b_offsets := [g_offsets g ! 0]\<rparr>))"

abbreviation b_planes :: "gbuf \<Rightarrow> nat" where "b_planes b \<equiv> length (b_strides b)"

section \<open>Wrapper images\<close>

text \<open>The fields magic and modifier of struct nvhal_image are never read and left out.\<close>

datatype wrapper_kind = NVHAL_WRAP_NONE | NVHAL_WRAP_AHB | NVHAL_WRAP_SWAPCHAIN

record nvhal_image =
  w_kind :: wrapper_kind
  w_dev :: handle
  w_real :: handle
  w_memory :: handle
  w_swapchain :: handle
  w_ci :: image_ci
  w_views :: "vk_fmt list"
  w_stencil :: "u32 option"
  w_external :: bool
  w_name :: "string option"
  w_pd :: "(handle \<times> u64) list"

fun chain_ahb :: "vk_struct list \<Rightarrow> u32 option" where
  "chain_ahb [] = None"
| "chain_ahb (ExternalMemoryImage t # xs) = Some t"
| "chain_ahb (x # xs) = chain_ahb xs"

definition nvhal_ci_is_ahb :: "image_ci \<Rightarrow> bool" where
  "nvhal_ci_is_ahb ci = (case chain_ahb (ci_next ci) of None \<Rightarrow> False | Some t \<Rightarrow> t AND HANDLE_TYPE_AHB \<noteq> 0)"

text \<open>The chain of an AHB create info: the external format, the view formats and the stencil usage.\<close>

fun parse_chain :: "bool \<Rightarrow> vk_struct list \<Rightarrow> vk_fmt \<times> vk_fmt list \<times> u32 option \<Rightarrow> vk_result + vk_fmt \<times> vk_fmt list \<times> u32 option" where
  "parse_chain malloc_ok [] acc = Inr acc"
| "parse_chain malloc_ok (x # xs) (ext, views, stencil) =
    (case x of
       ExternalMemoryImage t \<Rightarrow> if t \<noteq> HANDLE_TYPE_AHB then Inl VK_ERROR_FEATURE_NOT_PRESENT else parse_chain malloc_ok xs (ext, views, stencil)
     | ExternalFormatANDROID f \<Rightarrow> parse_chain malloc_ok xs (unat (ucast f :: u32), views, stencil)
     | ImageFormatList l \<Rightarrow> if l = [] then parse_chain malloc_ok xs (ext, views, stencil)
         else if malloc_ok then parse_chain malloc_ok xs (ext, l, stencil) else Inl VK_ERROR_OUT_OF_HOST_MEMORY
     | ImageStencilUsage u \<Rightarrow> parse_chain malloc_ok xs (ext, views, Some u)
     | DedicatedAllocationNV \<Rightarrow> parse_chain malloc_ok xs (ext, views, stencil)
     | _ \<Rightarrow> Inl VK_ERROR_FEATURE_NOT_PRESENT)"

definition parse_ci :: "bool \<Rightarrow> bool \<Rightarrow> image_ci \<Rightarrow> vk_result + nvhal_image" where
  "parse_ci views_ok qfi_ok ci =
    (case parse_chain views_ok (ci_next ci) (VKF_UNDEFINED, [], None) of Inl e \<Rightarrow> Inl e | Inr (ext, views, stencil) \<Rightarrow>
     if ext \<noteq> VKF_UNDEFINED \<and> (ci_format ci \<noteq> VKF_UNDEFINED \<or> \<not> external_format_ok ext) then Inl VK_ERROR_FORMAT_NOT_SUPPORTED
     else let format = (if ext \<noteq> VKF_UNDEFINED then ext else ci_format ci) in
     if \<not> external_format_ok format then Inl VK_ERROR_FORMAT_NOT_SUPPORTED
     else if ci_tiling ci \<noteq> TILING_OPTIMAL \<and> ci_tiling ci \<noteq> TILING_LINEAR then Inl VK_ERROR_FORMAT_NOT_SUPPORTED
     else if \<not> ci_type2d ci \<or> ci_depth ci \<noteq> 1 \<or> ci_mips ci \<noteq> 1 \<or> ci_layers ci \<noteq> 1 \<or> \<not> ci_samples1 ci \<or>
             ci_flags ci AND CREATE_SPARSE_OR_DISJOINT \<noteq> 0 then Inl VK_ERROR_FORMAT_NOT_SUPPORTED
     else if ci_flags ci AND CREATE_MUTABLE_FORMAT \<noteq> 0 \<and> views = [] then Inl VK_ERROR_FORMAT_NOT_SUPPORTED
     else if ci_concurrent ci \<and> ci_families ci \<noteq> [] \<and> \<not> qfi_ok then Inl VK_ERROR_OUT_OF_HOST_MEMORY
     else Inr \<lparr>w_kind = NVHAL_WRAP_NONE, w_dev = 0, w_real = 0, w_memory = 0, w_swapchain = 0,
            w_ci = ci\<lparr>ci_format := format, ci_next := [], ci_families := (if ci_concurrent ci then ci_families ci else [])\<rparr>,
            w_views = views, w_stencil = stencil, w_external = (ext \<noteq> VKF_UNDEFINED), w_name = None, w_pd = []\<rparr>)"

text \<open>The chain both kinds of wrapper keep.\<close>

definition wrapper_chain :: "nvhal_image \<Rightarrow> vk_struct list" where
  "wrapper_chain w =
    (case w_stencil w of None \<Rightarrow> [] | Some u \<Rightarrow> [ImageStencilUsage u]) @ (if w_views w \<noteq> [] then [ImageFormatList (w_views w)] else [])"

definition build_icd_ci :: "nvhal_image \<Rightarrow> u64 \<Rightarrow> (u32 \<times> u32) list \<Rightarrow> u64 list option \<Rightarrow> image_ci" where
  "build_icd_ci w modifier planes mods =
    (w_ci w)\<lparr>ci_tiling := TILING_DRM_MODIFIER,
      ci_next := ExternalMemoryImage HANDLE_TYPE_DMA_BUF #
        (case mods of Some ms \<Rightarrow> DrmModifierList ms | None \<Rightarrow> DrmModifierExplicit modifier planes) # wrapper_chain w\<rparr>"

definition sc_icd_ci :: "nvhal_image \<Rightarrow> image_ci" where
  "sc_icd_ci w = (w_ci w)\<lparr>ci_next := wrapper_chain w\<rparr>"

section \<open>Modifiers and realisation\<close>

text \<open>
  The driver's modifiers of a format; the HAL reads at most 64. The driver answers the format
  queries, the modifier lists, vkCreateImage and the requirements of the planes.
\<close>

record realise_icd =
  r_query :: query_fn
  r_mods :: "vk_fmt \<Rightarrow> mod_props list"
  r_probe :: "vk_result \<times> handle"
  r_plane_reqs :: "(u64 \<times> u64) list"
  r_image :: "vk_result \<times> handle"

definition gralloc_modifiers :: "(vk_fmt \<Rightarrow> mod_props list) \<Rightarrow> vk_fmt \<Rightarrow> bool \<Rightarrow> nat \<Rightarrow> (u64 \<times> u64) list" where
  "gralloc_modifiers mods f linear cap =
    (let need = (if yuv_vk f then F2_SAMPLED_IMAGE
                 else F2_SAMPLED_IMAGE OR F2_TRANSFER_SRC OR F2_TRANSFER_DST OR (if linear then 0 else F2_COLOR_ATTACHMENT));
         planes = (if yuv_vk f then 2 else 1);
         lin = (if planes = 2 then True else linear)
     in take cap (map (\<lambda>p. (p_modifier p, p_features p))
          (filter (\<lambda>p. \<not> (p_modifier p = DRM_FORMAT_MOD_INVALID \<or> (p_modifier p = DRM_FORMAT_MOD_LINEAR) \<noteq> lin \<or>
             p_planes p \<noteq> planes \<or> (p_features p AND need) \<noteq> need)) (take 64 (mods f)))))"

definition modifier_features :: "(vk_fmt \<Rightarrow> mod_props list) \<Rightarrow> vk_fmt \<Rightarrow> u64 \<Rightarrow> u64" where
  "modifier_features mods f modifier =
    (case find (\<lambda>p. p_modifier p = modifier) (take 64 (mods f)) of Some p \<Rightarrow> p_features p | None \<Rightarrow> 0)"

definition effective_usage :: "query_fn \<Rightarrow> image_ci \<Rightarrow> u64 \<Rightarrow> u32 \<Rightarrow> vk_result \<times> u32" where
  "effective_usage query ici modifier usage =
    (let r = nvhal_modifier_usage_ok query ici modifier usage in
     if r \<noteq> VK_SUCCESS \<and> modifier = DRM_FORMAT_MOD_LINEAR \<and> usage AND USE_INPUT_ATTACHMENT \<noteq> 0 \<and>
        nvhal_modifier_usage_ok query ici modifier (usage AND NOT USE_INPUT_ATTACHMENT) = VK_SUCCESS
     then (VK_SUCCESS, usage AND NOT USE_INPUT_ATTACHMENT) else (r, usage))"

text \<open>
  The planes of a video buffer as the driver binds them: each offset on the driver's alignment, each
  required size inside the dma-buf, the planes in order. 64-bit arithmetic, as in the code.
\<close>

fun planes_bindable :: "u64 \<Rightarrow> u64 \<Rightarrow> (u32 \<times> u64 \<times> u64) list \<Rightarrow> bool" where
  "planes_bindable total_bytes prev_end [] = True"
| "planes_bindable total_bytes prev_end ((offset, need, align) # ps) =
    (let off = ucast offset; stop = off + need in
     if align = 0 \<or> off mod align \<noteq> 0 \<or> stop > total_bytes \<or> off < prev_end then False
     else planes_bindable total_bytes stop ps)"

definition yuv_layout_bindable :: "realise_icd \<Rightarrow> gbuf \<Rightarrow> hal_res ev list \<times> vk_result" where
  "yuv_layout_bindable k b =
    (if modifier_features (r_mods k) (b_format b) DRM_FORMAT_MOD_LINEAR AND F2_DISJOINT = 0
     then ([], VK_ERROR_INVALID_EXTERNAL_HANDLE)
     else let (r, img) = r_probe k in
     if r \<noteq> VK_SUCCESS then ([], VK_ERROR_INVALID_EXTERNAL_HANDLE)
     else ([Acq (HImage img), Rel (HImage img)],
           if planes_bindable (b_size b) 0 (zip (b_offsets b) (r_plane_reqs k)) then VK_SUCCESS else VK_ERROR_INVALID_EXTERNAL_HANDLE))"

definition VK_ERROR_INVALID_DRM_PLANE_LAYOUT :: vk_result where [codes]: "VK_ERROR_INVALID_DRM_PLANE_LAYOUT = -1000158000"

text \<open>The result is the driver's image and the create info it got.\<close>

definition realise :: "realise_icd \<Rightarrow> nvhal_image \<Rightarrow> gbuf \<Rightarrow> hal_res ev list \<times> (vk_result + handle \<times> image_ci)" where
  "realise k w b =
    (if b_blob b \<or> b_format b \<noteq> ci_format (w_ci w) \<or> ci_width (w_ci w) \<noteq> ad_width (b_desc b) \<or>
        ci_height (w_ci w) \<noteq> ad_height (b_desc b) \<or> ad_layers (b_desc b) \<noteq> ci_layers (w_ci w)
     then ([], Inl VK_ERROR_INVALID_EXTERNAL_HANDLE)
     else let m = g_modifier (b_g b);
              c0 = build_icd_ci w m (zip (b_offsets b) (b_strides b)) None;
              (r, usage) = effective_usage (r_query k) c0 m (ci_usage c0);
              c = c0\<lparr>ci_usage := usage\<rparr> in
     if r \<noteq> VK_SUCCESS
     then ([], Inl (if r = VK_ERROR_FORMAT_NOT_SUPPORTED then VK_ERROR_INVALID_EXTERNAL_HANDLE else r))
     else let (ty, ry) = (if b_planes b > 1 then yuv_layout_bindable k b else ([], VK_SUCCESS)) in
     if ry \<noteq> VK_SUCCESS then (ty, Inl ry)
     else let (ri, img) = r_image k in
     if ri \<noteq> VK_SUCCESS
     then (ty, Inl (if ri = VK_ERROR_INVALID_DRM_PLANE_LAYOUT then VK_ERROR_INVALID_EXTERNAL_HANDLE else ri))
     else (ty @ [Acq (HImage img)], Inr (img, c)))"

text \<open>The effective usage is the rule of the native buffer import.\<close>

lemma effective_usage_kept:
  "effective_usage query ici m u = (VK_SUCCESS, u') \<Longrightarrow>
   nvhal_modifier_usage_ok query ici m u' = VK_SUCCESS \<and> usage_kept query (ici\<lparr>ci_usage := u'\<rparr>) m u"
  by (auto simp: effective_usage_def usage_kept_def usage_query_frame Let_def split: if_splits)

lemma realise_trace:
  "realise k w b = (tr, res) \<Longrightarrow>
   run_ev M tr = Some (M + (case res of Inl _ \<Rightarrow> {#} | Inr (img, _) \<Rightarrow> {#HImage img#}))"
  by (auto simp: realise_def yuv_layout_bindable_def Let_def run_ev_append split: if_splits prod.splits)

lemma realise_Inr:
  assumes "realise k w b = (tr, Inr (img, c))"
  shows "b_format b = ci_format (w_ci w)" "ci_width (w_ci w) = ad_width (b_desc b)" "ci_height (w_ci w) = ad_height (b_desc b)"
    "\<not> b_blob b" "r_image k = (VK_SUCCESS, img)" "nvhal_modifier_usage_ok (r_query k) c (g_modifier (b_g b)) (ci_usage c) = VK_SUCCESS"
    "ci_next c = ExternalMemoryImage HANDLE_TYPE_DMA_BUF #
       DrmModifierExplicit (g_modifier (b_g b)) (zip (b_offsets b) (b_strides b)) # wrapper_chain w"
    "b_planes b > 1 \<Longrightarrow> planes_bindable (b_size b) 0 (zip (b_offsets b) (r_plane_reqs k))"
proof -
  let ?c = "build_icd_ci w (g_modifier (b_g b)) (zip (b_offsets b) (b_strides b)) None"
  obtain r u where u: "effective_usage (r_query k) ?c (g_modifier (b_g b)) (ci_usage ?c) = (r, u)" by force
  note def = assms [unfolded realise_def Let_def u prod.case]
  show "b_format b = ci_format (w_ci w)" "ci_width (w_ci w) = ad_width (b_desc b)" "ci_height (w_ci w) = ad_height (b_desc b)"
    "\<not> b_blob b" "r_image k = (VK_SUCCESS, img)"
    "b_planes b > 1 \<Longrightarrow> planes_bindable (b_size b) 0 (zip (b_offsets b) (r_plane_reqs k))"
    using def by (auto simp: yuv_layout_bindable_def codes split: if_splits prod.splits)
  have "r = VK_SUCCESS" "c = ?c\<lparr>ci_usage := u\<rparr>" using def by (auto split: if_splits prod.splits)
  then show "nvhal_modifier_usage_ok (r_query k) c (g_modifier (b_g b)) (ci_usage c) = VK_SUCCESS"
    "ci_next c = ExternalMemoryImage HANDLE_TYPE_DMA_BUF #
       DrmModifierExplicit (g_modifier (b_g b)) (zip (b_offsets b) (b_strides b)) # wrapper_chain w"
    using effective_usage_kept [OF u [unfolded \<open>r = VK_SUCCESS\<close>]] by (auto simp: usage_query_frame build_icd_ci_def)
qed

end
