(* ===== verification/Ahb.thy ===== *)
theory Ahb
  imports Ahb_Buffer Handle_Hash
begin

text \<open>
  VK_ANDROID_external_memory_android_hardware_buffer, nvidia-prolapse/hal/src/ahb.c, second part: the
  process-wide tables of wrapper images and of memory objects backed by hardware buffers, and every
  operation on them. The world holds the two hash tables of util.c, the heap objects their entries
  point to and the 32-bit count of wrappers. An operation has no result (\<open>None\<close>) when it would follow
  a pointer to a freed object. Compressed-format emulation is not in use, so the calls into astc.c
  do nothing; the memory type experiment of gputime.c is off, as by default.
\<close>

section \<open>The world\<close>

record ahb_mem =
  m_dev :: handle
  m_buffer :: handle
  m_image :: handle

record ahb_world =
  wrappers :: nvhal_hash
  wrapper_count :: u32
  images :: "handle \<rightharpoonup> nvhal_image"
  ahb_mems :: nvhal_hash
  memrecs :: "handle \<rightharpoonup> ahb_mem"

definition nvhal_no_wrappers :: "ahb_world \<Rightarrow> bool" where
  "nvhal_no_wrappers W \<longleftrightarrow> wrapper_count W = 0"

definition wrapper :: "ahb_world \<Rightarrow> handle \<Rightarrow> handle" where
  "wrapper W img = (if img = 0 \<or> nvhal_no_wrappers W then 0 else nvhal_hash_get (wrappers W) img)"

text \<open>The handle for the driver and whether the image is a wrapper.\<close>

definition nvhal_image_xl :: "ahb_world \<Rightarrow> handle \<Rightarrow> (handle \<times> bool) option" where
  "nvhal_image_xl W img =
    (let p = wrapper W img in
     if p = 0 then Some (img, False) else map_option (\<lambda>w. (w_real w, True)) (images W p))"

definition nvhal_image_wrapper_kind :: "ahb_world \<Rightarrow> handle \<Rightarrow> wrapper_kind option" where
  "nvhal_image_wrapper_kind W img =
    (let p = wrapper W img in if p = 0 then Some NVHAL_WRAP_NONE else map_option w_kind (images W p))"

definition nvhal_image_real_format :: "ahb_world \<Rightarrow> handle \<Rightarrow> vk_fmt option" where
  "nvhal_image_real_format W img =
    (let p = wrapper W img in if p = 0 then Some VKF_UNDEFINED else map_option (\<lambda>w. ci_format (w_ci w)) (images W p))"

definition nvhal_image_wrapper_handle :: "ahb_world \<Rightarrow> handle \<Rightarrow> bool" where
  "nvhal_image_wrapper_handle W h \<longleftrightarrow> wrapper W h \<noteq> 0"

section \<open>Creation and destruction\<close>

text \<open>Answers of the allocator: the wrapper, its two arrays, and room in the hash table.\<close>

record create_env =
  c_ptr :: handle
  c_views :: bool
  c_families :: bool
  c_put :: bool

text \<open>Registration of a parsed wrapper; the allocation of the wrapper is part of the trace.\<close>

definition register_wrapper :: "create_env \<Rightarrow> nvhal_image \<Rightarrow> ahb_world \<Rightarrow> (hal_res ev list \<times> (vk_result + handle) \<times> ahb_world) option" where
  "register_wrapper k w W =
    (case nvhal_hash_put (c_put k) (wrappers W) (c_ptr k) (c_ptr k) of
       None \<Rightarrow> None
     | Some (False, h) \<Rightarrow> Some ([Acq (HHeap (c_ptr k)), Rel (HHeap (c_ptr k))], Inl VK_ERROR_OUT_OF_HOST_MEMORY, W\<lparr>wrappers := h\<rparr>)
     | Some (True, h) \<Rightarrow> Some ([Acq (HHeap (c_ptr k))], Inr (c_ptr k),
         W\<lparr>wrappers := h, images := (images W)(c_ptr k \<mapsto> w), wrapper_count := wrapper_count W + 1\<rparr>))"

fun chain_external :: "vk_struct list \<Rightarrow> u64" where
  "chain_external [] = 0"
| "chain_external (ExternalFormatANDROID f # xs) = f"
| "chain_external (x # xs) = chain_external xs"

text \<open>The inner \<open>None\<close> means that the image is not an AHB image.\<close>

definition nvhal_ahb_CreateImage :: "create_env \<Rightarrow> handle \<Rightarrow> nvhal_device \<Rightarrow> image_ci \<Rightarrow> ahb_world \<Rightarrow>
    (hal_res ev list \<times> (vk_result + handle) option \<times> ahb_world) option" where
  "nvhal_ahb_CreateImage k dev d ci W =
    (if \<not> nvhal_ci_is_ahb ci \<and> chain_external (ci_next ci) = 0 then Some ([], None, W)
     else if \<not> d_ahb_enabled d then Some ([], Some (Inl VK_ERROR_EXTENSION_NOT_PRESENT), W)
     else if \<not> nvhal_ci_is_ahb ci then Some ([], Some (Inl VK_ERROR_FORMAT_NOT_SUPPORTED), W)
     else if c_ptr k = 0 then Some ([], Some (Inl VK_ERROR_OUT_OF_HOST_MEMORY), W)
     else case parse_ci (c_views k) (c_families k) ci of
       Inl r \<Rightarrow> Some ([Acq (HHeap (c_ptr k)), Rel (HHeap (c_ptr k))], Some (Inl r), W)
     | Inr w \<Rightarrow> map_option (\<lambda>(tr, r, W'). (tr, Some r, W')) (register_wrapper k (w\<lparr>w_kind := NVHAL_WRAP_AHB, w_dev := dev\<rparr>) W))"

fun sc_chain :: "bool \<Rightarrow> vk_struct list \<Rightarrow> vk_fmt list \<times> u32 option \<Rightarrow> vk_result + vk_fmt list \<times> u32 option" where
  "sc_chain malloc_ok [] acc = Inr acc"
| "sc_chain malloc_ok (x # xs) (views, stencil) =
    (case x of
       ImageSwapchainCreateKHR _ \<Rightarrow> sc_chain malloc_ok xs (views, stencil)
     | ImageFormatList l \<Rightarrow> if l = [] \<or> views \<noteq> [] then sc_chain malloc_ok xs (views, stencil)
         else if malloc_ok then sc_chain malloc_ok xs (l, stencil) else Inl VK_ERROR_OUT_OF_HOST_MEMORY
     | ImageStencilUsage u \<Rightarrow> sc_chain malloc_ok xs (views, Some u)
     | _ \<Rightarrow> Inl VK_ERROR_FEATURE_NOT_PRESENT)"

definition nvhal_sc_CreateImage :: "create_env \<Rightarrow> handle \<Rightarrow> nvhal_device \<Rightarrow> image_ci \<Rightarrow> handle \<Rightarrow> ahb_world \<Rightarrow>
    (hal_res ev list \<times> (vk_result + handle) \<times> ahb_world) option" where
  "nvhal_sc_CreateImage k dev d ci swapchain W =
    (if \<not> d_anb_enabled d then Some ([], Inl VK_ERROR_EXTENSION_NOT_PRESENT, W)
     else if \<not> nvhal_anb_format_known (ci_format ci) \<or> \<not> ci_type2d ci \<or> ci_depth ci \<noteq> 1 \<or> ci_mips ci \<noteq> 1 \<or> ci_layers ci \<noteq> 1 \<or>
             \<not> ci_samples1 ci \<or> ci_flags ci AND CREATE_SPARSE_OR_DISJOINT \<noteq> 0
     then Some ([], Inl VK_ERROR_FORMAT_NOT_SUPPORTED, W)
     else if c_ptr k = 0 then Some ([], Inl VK_ERROR_OUT_OF_HOST_MEMORY, W)
     else case sc_chain (c_views k) (ci_next ci) ([], None) of
       Inl r \<Rightarrow> Some ([Acq (HHeap (c_ptr k)), Rel (HHeap (c_ptr k))], Inl r, W)
     | Inr (views, stencil) \<Rightarrow>
       if ci_concurrent ci \<and> ci_families ci \<noteq> [] \<and> \<not> c_families k
       then Some ([Acq (HHeap (c_ptr k)), Rel (HHeap (c_ptr k))], Inl VK_ERROR_OUT_OF_HOST_MEMORY, W)
       else register_wrapper k \<lparr>w_kind = NVHAL_WRAP_SWAPCHAIN, w_dev = dev, w_real = 0, w_memory = 0, w_swapchain = swapchain,
              w_ci = ci\<lparr>ci_next := [], ci_families := (if ci_concurrent ci then ci_families ci else [])\<rparr>, w_views = views,
              w_stencil = stencil, w_external = False, w_name = None, w_pd = []\<rparr> W)"

definition rel_if :: "handle \<Rightarrow> hal_res \<Rightarrow> hal_res ev list" where "rel_if h r = (if h \<noteq> 0 then [Rel r] else [])"

text \<open>A memory record forgets the wrapper that dies.\<close>

definition detach :: "handle \<Rightarrow> handle \<Rightarrow> ahb_world \<Rightarrow> ahb_world option" where
  "detach p mem W =
    (let v = nvhal_hash_get (ahb_mems W) mem in
     if v = 0 then Some W
     else case memrecs W v of None \<Rightarrow> None | Some m \<Rightarrow>
       Some (if m_image m = p then W\<lparr>memrecs := (memrecs W)(v \<mapsto> m\<lparr>m_image := 0\<rparr>)\<rparr> else W))"

definition nvhal_ahb_DestroyImage :: "handle \<Rightarrow> ahb_world \<Rightarrow> (hal_res ev list \<times> bool \<times> ahb_world) option" where
  "nvhal_ahb_DestroyImage img W =
    (if img = 0 \<or> nvhal_no_wrappers W then Some ([], False, W)
     else let (p, h) = nvhal_hash_del (wrappers W) img in
     if p = 0 then Some ([], False, W\<lparr>wrappers := h\<rparr>)
     else case images W p of None \<Rightarrow> None | Some w \<Rightarrow>
     let W1 = W\<lparr>wrappers := h, wrapper_count := wrapper_count W - 1\<rparr> in
     case (if w_kind w = NVHAL_WRAP_AHB \<and> w_memory w \<noteq> 0 then detach p (w_memory w) W1 else Some W1) of
       None \<Rightarrow> None
     | Some W2 \<Rightarrow> Some (rel_if (w_real w) (HImage (w_real w)) @
         (if w_kind w = NVHAL_WRAP_SWAPCHAIN then rel_if (w_memory w) (HMemory (w_memory w)) else []) @ [Rel (HHeap p)],
         True, W2\<lparr>images := (images W2)(p := None)\<rparr>))"

section \<open>Object state before realisation\<close>

definition nvhal_ahb_set_private_data :: "bool \<Rightarrow> handle \<Rightarrow> handle \<Rightarrow> u64 \<Rightarrow> ahb_world \<Rightarrow> (bool \<times> ahb_world) option" where
  "nvhal_ahb_set_private_data realloc_ok h slot data W =
    (let p = wrapper W h in
     if p = 0 then Some (False, W)
     else case images W p of None \<Rightarrow> None | Some w \<Rightarrow>
       let pd = (if slot \<in> fst ` set (w_pd w) then map (\<lambda>(s, x). (s, if s = slot then data else x)) (w_pd w)
                 else if realloc_ok then w_pd w @ [(slot, data)] else w_pd w)
       in Some (True, W\<lparr>images := (images W)(p \<mapsto> w\<lparr>w_pd := pd\<rparr>)\<rparr>))"

definition nvhal_ahb_get_private_data :: "handle \<Rightarrow> handle \<Rightarrow> ahb_world \<Rightarrow> (u64 option) option" where
  "nvhal_ahb_get_private_data h slot W =
    (let p = wrapper W h in
     if p = 0 then Some None
     else case images W p of None \<Rightarrow> None | Some w \<Rightarrow>
       Some (Some (fold (\<lambda>(s, x) acc. if s = slot then x else acc) (w_pd w) 0)))"

definition nvhal_ahb_set_object_name :: "handle \<Rightarrow> string option \<Rightarrow> ahb_world \<Rightarrow> (bool \<times> ahb_world) option" where
  "nvhal_ahb_set_object_name h name W =
    (let p = wrapper W h in
     if p = 0 then Some (False, W)
     else case images W p of None \<Rightarrow> None | Some w \<Rightarrow> Some (True, W\<lparr>images := (images W)(p \<mapsto> w\<lparr>w_name := name\<rparr>)\<rparr>))"

text \<open>The calls on the driver's image that replay the state; a device may lack the entry points.\<close>

datatype obj_call = SetObjectName handle string | SetPrivateData handle handle u64

definition replay_object_state :: "bool \<Rightarrow> bool \<Rightarrow> nvhal_image \<Rightarrow> handle \<Rightarrow> obj_call list" where
  "replay_object_state has_name has_pd w real =
    (case w_name w of Some n \<Rightarrow> if has_name then [SetObjectName real n] else [] | None \<Rightarrow> []) @
    (if has_pd then map (\<lambda>(s, x). SetPrivateData real s x) (w_pd w) else [])"

section \<open>Swapchain-bound images\<close>

definition nvhal_sc_bind :: "handle \<Rightarrow> nvhal_device \<Rightarrow> handle \<Rightarrow> cros_gralloc_handle option \<Rightarrow> import_icd \<Rightarrow> bool \<times> bool \<Rightarrow> ahb_world \<Rightarrow>
    (hal_res ev list \<times> obj_call list \<times> vk_result \<times> ahb_world) option" where
  "nvhal_sc_bind dev d img h k fns W =
    (let p = wrapper W img in
     if p = 0 then Some ([], [], VK_ERROR_INVALID_EXTERNAL_HANDLE, W)
     else case images W p of None \<Rightarrow> None | Some w \<Rightarrow>
     if w_kind w \<noteq> NVHAL_WRAP_SWAPCHAIN \<or> w_dev w \<noteq> dev then Some ([], [], VK_ERROR_INVALID_EXTERNAL_HANDLE, W)
     else if w_real w \<noteq> 0 then Some ([], [], VK_ERROR_INVALID_EXTERNAL_HANDLE, W)
     else case nvhal_anb_import (d_mem_types d) (sc_icd_ci w, h, k) of
       (tr, Inl r) \<Rightarrow> Some (tr, [], r, W)
     | (tr, Inr a) \<Rightarrow> Some (tr, replay_object_state (fst fns) (snd fns) w (a_image a), VK_SUCCESS,
         W\<lparr>images := (images W)(p \<mapsto> w\<lparr>w_memory := a_memory a, w_real := a_image a\<rparr>)\<rparr>))"

section \<open>Memory\<close>

datatype alloc_struct =
    ImportAndroidHardwareBuffer handle
  | ExportMemoryAllocate u32
  | MemoryDedicated handle handle
  | DedicatedMemoryNV handle handle
  | MemoryAllocateFlags | MemoryPriority | MemoryCaptureAddress
  | OtherAllocStruct int

record alloc_info =
  ai_size :: u64
  ai_type :: nat
  ai_next :: "alloc_struct list"

definition import_buffer :: "alloc_struct list \<Rightarrow> handle option" where
  "import_buffer xs = fold (\<lambda>x acc. case x of ImportAndroidHardwareBuffer b \<Rightarrow> Some b | _ \<Rightarrow> acc) xs None"

definition export_types :: "alloc_struct list \<Rightarrow> u32 option" where
  "export_types xs = fold (\<lambda>x acc. case x of ExportMemoryAllocate t \<Rightarrow> Some t | _ \<Rightarrow> acc) xs None"

definition dedicated :: "alloc_struct list \<Rightarrow> (handle \<times> handle) option" where
  "dedicated xs = fold (\<lambda>x acc. case x of MemoryDedicated i b \<Rightarrow> Some (i, b) | _ \<Rightarrow> acc) xs None"

definition dedicated_nv :: "alloc_struct list \<Rightarrow> (handle \<times> handle) option" where
  "dedicated_nv xs = fold (\<lambda>x acc. case x of DedicatedMemoryNV i b \<Rightarrow> Some (i, b) | _ \<Rightarrow> acc) xs None"

text \<open>Answers during one vkAllocateMemory: the buffer library, the kernel, the driver, the allocator.\<close>

record alloc_env =
  l_allocate :: "int \<times> handle"
  l_buffer :: buffer_env
  l_fdprops :: "vk_result \<times> u32"
  l_realise :: realise_icd
  l_reqs :: "u64 \<times> u32"
  l_dup :: "int \<times> int"
  l_memory :: "vk_result \<times> handle"
  l_ptr :: handle
  l_put :: bool
  l_fns :: "bool \<times> bool"

definition import_dmabuf :: "alloc_env \<Rightarrow> hal_res ev list \<times> (vk_result + handle)" where
  "import_dmabuf k =
    (let (fd, e) = l_dup k in
     if fd < 0 then ([], Inl (dup_error e))
     else let (r, mem) = l_memory k in
     if r \<noteq> VK_SUCCESS then ([Acq (HFd fd), Rel (HFd fd)], Inl r)
     else ([Acq (HFd fd), Acq (HMemory mem), Rel (HFd fd)], Inr mem))"

text \<open>The driver's image for a dedicated wrapper and its memory: the results are the wrapper as it
  is afterwards and the memory handle.\<close>

definition alloc_for_image :: "alloc_env \<Rightarrow> alloc_info \<Rightarrow> gbuf \<Rightarrow> u32 \<Rightarrow> nvhal_image \<Rightarrow>
    hal_res ev list \<times> (vk_result + nvhal_image \<times> handle)" where
  "alloc_for_image k ai b fd_bits w =
    (if w_real w \<noteq> 0 then ([], Inl VK_ERROR_INVALID_EXTERNAL_HANDLE)
     else case realise (l_realise k) w b of
       (tr, Inl r) \<Rightarrow> (tr, Inl r)
     | (tr, Inr (real, _)) \<Rightarrow>
       let (need, img_bits) = l_reqs k;
           (t2, res) = (if b_size b < need \<or> (fd_bits AND img_bits) AND push_bit (ai_type ai) 1 = 0
                        then ([], Inl VK_ERROR_INVALID_EXTERNAL_HANDLE) else import_dmabuf k)
       in case res of
         Inl r \<Rightarrow> (tr @ t2 @ [Rel (HImage real)], Inl r)
       | Inr mem \<Rightarrow> (tr @ t2, Inr (w\<lparr>w_memory := mem, w_real := real\<rparr>, mem)))"

text \<open>The record of the memory: when there is no room for it, the image is unrealised again.\<close>

definition record_memory :: "alloc_env \<Rightarrow> handle \<Rightarrow> handle \<Rightarrow> handle \<Rightarrow> handle \<Rightarrow> ahb_world \<Rightarrow> (hal_res ev list \<times> bool \<times> ahb_world) option" where
  "record_memory k dev buf p mem W =
    (if l_ptr k = 0 then Some ([], False, W)
     else case nvhal_hash_put (l_put k) (ahb_mems W) mem (l_ptr k) of
       None \<Rightarrow> None
     | Some (False, h) \<Rightarrow> Some ([Acq (HHeap (l_ptr k)), Rel (HHeap (l_ptr k))], False, W\<lparr>ahb_mems := h\<rparr>)
     | Some (True, h) \<Rightarrow> Some ([Acq (HHeap (l_ptr k))], True,
         W\<lparr>ahb_mems := h, memrecs := (memrecs W)(l_ptr k \<mapsto> \<lparr>m_dev = dev, m_buffer = buf, m_image = p\<rparr>)\<rparr>))"

text \<open>The memory, and with it the driver's image of the dedicated wrapper \<open>p\<close> (0 when there is none).\<close>

definition alloc_memory :: "alloc_env \<Rightarrow> alloc_info \<Rightarrow> gbuf \<Rightarrow> u32 \<Rightarrow> handle \<Rightarrow> ahb_world \<Rightarrow>
    (hal_res ev list \<times> (vk_result + handle \<times> handle \<times> obj_call list \<times> ahb_world)) option" where
  "alloc_memory k ai b fd_bits p W =
    (if p \<noteq> 0
     then (case images W p of None \<Rightarrow> None | Some w \<Rightarrow>
       Some (case alloc_for_image k ai b fd_bits w of
          (tr, Inl r) \<Rightarrow> (tr, Inl r)
        | (tr, Inr (w', mem)) \<Rightarrow> (tr, Inr (mem, w_real w', replay_object_state (fst (l_fns k)) (snd (l_fns k)) w' (w_real w'),
            W\<lparr>images := (images W)(p \<mapsto> w')\<rparr>))))
     else if \<not> b_blob b \<or> fd_bits AND push_bit (ai_type ai) 1 = 0 then Some ([], Inl VK_ERROR_INVALID_EXTERNAL_HANDLE)
     else Some (case import_dmabuf k of (tr, Inl r) \<Rightarrow> (tr, Inl r) | (tr, Inr mem) \<Rightarrow> (tr, Inr (mem, 0, [], W))))"

text \<open>When the memory cannot be recorded the wrapper loses its image again.\<close>

definition unrealise :: "handle \<Rightarrow> ahb_world \<Rightarrow> ahb_world" where
  "unrealise p W = (case images W p of None \<Rightarrow> W | Some w \<Rightarrow>
     if p = 0 then W else W\<lparr>images := (images W)(p \<mapsto> w\<lparr>w_real := 0, w_memory := 0\<rparr>)\<rparr>)"

definition alloc_from_buffer :: "alloc_env \<Rightarrow> handle \<Rightarrow> alloc_info \<Rightarrow> bool \<Rightarrow> handle \<Rightarrow> handle \<Rightarrow> ahb_world \<Rightarrow>
    (hal_res ev list \<times> obj_call list \<times> (vk_result + handle) \<times> ahb_world) option" where
  "alloc_from_buffer k dev ai owned buf p W =
    (let fail_buf = (if owned then [Rel (HAhb buf)] else []) in
     case gbuf_get buf (l_buffer k) of Inl r \<Rightarrow> Some (fail_buf, [], Inl r, W) | Inr b \<Rightarrow>
     if \<not> owned \<and> ai_size ai \<noteq> b_size b then Some (fail_buf, [], Inl VK_ERROR_INVALID_EXTERNAL_HANDLE, W)
     else if fst (l_fdprops k) \<noteq> VK_SUCCESS then Some (fail_buf, [], Inl (fst (l_fdprops k)), W)
     else case alloc_memory k ai b (snd (l_fdprops k)) p W of
       None \<Rightarrow> None
     | Some (tr, Inl r) \<Rightarrow> Some (tr @ fail_buf, [], Inl r, W)
     | Some (tr, Inr (mem, real, objs, W1)) \<Rightarrow>
       (case record_memory k dev buf p mem W1 of
          None \<Rightarrow> None
        | Some (t2, False, W2) \<Rightarrow>
            Some (tr @ t2 @ (if p \<noteq> 0 then [Rel (HImage real)] else []) @ [Rel (HMemory mem)] @ fail_buf, objs,
              Inl VK_ERROR_OUT_OF_HOST_MEMORY, unrealise p W2)
        | Some (t2, True, W2) \<Rightarrow>
            Some (tr @ t2 @ (if owned then [] else [Acq (HAhb buf)]), objs, Inr mem, W2)))"

fun alloc_chain_ok :: "alloc_struct list \<Rightarrow> bool" where
  "alloc_chain_ok [] = True"
| "alloc_chain_ok (OtherAllocStruct t # xs) = False"
| "alloc_chain_ok (x # xs) = alloc_chain_ok xs"

text \<open>An allocation that concerns no hardware buffer and no wrapper goes to the driver as it is.\<close>

definition nvhal_AllocateMemory :: "alloc_env \<Rightarrow> handle \<Rightarrow> nvhal_device \<Rightarrow> alloc_info \<Rightarrow> ahb_world \<Rightarrow>
    (hal_res ev list \<times> obj_call list \<times> (vk_result + handle) \<times> ahb_world) option" where
  "nvhal_AllocateMemory k dev d ai W =
    (let imp = import_buffer (ai_next ai);
         exp_ahb = (case export_types (ai_next ai) of Some t \<Rightarrow> t AND HANDLE_TYPE_AHB \<noteq> 0 | None \<Rightarrow> False);
         p0 = (case dedicated (ai_next ai) of Some (i, _) \<Rightarrow> wrapper W i | None \<Rightarrow> 0);
         p = (if p0 = 0 then (case dedicated_nv (ai_next ai) of Some (i, _) \<Rightarrow> wrapper W i | None \<Rightarrow> 0) else p0);
         fail = (\<lambda>r. Some ([], [], Inl r, W)) in
     if imp = None \<and> \<not> exp_ahb \<and> p = 0
     then (let (r, mem) = l_memory k in
           if r = VK_SUCCESS then Some ([Acq (HMemory mem)], [], Inr mem, W) else fail r)
     else if (imp \<noteq> None \<or> exp_ahb) \<and> \<not> d_ahb_enabled d then fail VK_ERROR_INVALID_EXTERNAL_HANDLE
     else case (if p = 0 then Some None else map_option Some (images W p)) of None \<Rightarrow> None | Some w \<Rightarrow>
     if (case w of Some w \<Rightarrow> w_kind w = NVHAL_WRAP_SWAPCHAIN | None \<Rightarrow> False) then fail VK_ERROR_INVALID_EXTERNAL_HANDLE
     else if imp = None \<and> \<not> exp_ahb then fail VK_ERROR_INVALID_EXTERNAL_HANDLE
     else if imp \<noteq> None \<and> exp_ahb then fail VK_ERROR_INVALID_EXTERNAL_HANDLE
     else if exp_ahb \<and> the (export_types (ai_next ai)) AND NOT HANDLE_TYPE_AHB \<noteq> 0 then fail VK_ERROR_INVALID_EXTERNAL_HANDLE
     else if \<not> alloc_chain_ok (ai_next ai) then fail VK_ERROR_INVALID_EXTERNAL_HANDLE
     else if exp_ahb
     then (case w of None \<Rightarrow> fail VK_ERROR_OUT_OF_DEVICE_MEMORY | Some w \<Rightarrow>
           if vk_to_ahb (ci_format (w_ci w)) = 0 then fail VK_ERROR_OUT_OF_DEVICE_MEMORY
           else let (rc, buf) = l_allocate k in
           if rc \<noteq> 0 \<or> buf = 0 then fail VK_ERROR_OUT_OF_DEVICE_MEMORY
           else map_option (\<lambda>(tr, x). (Acq (HAhb buf) # tr, x)) (alloc_from_buffer k dev ai True buf p W))
     else alloc_from_buffer k dev ai False (the imp) p W)"

definition nvhal_FreeMemory :: "handle \<Rightarrow> ahb_world \<Rightarrow> (hal_res ev list \<times> ahb_world) option" where
  "nvhal_FreeMemory mem W =
    (let (v, h) = (if mem \<noteq> 0 then nvhal_hash_del (ahb_mems W) mem else (0, ahb_mems W));
         W1 = W\<lparr>ahb_mems := h\<rparr>; tr = rel_if mem (HMemory mem) in
     if v = 0 then Some (tr, W1)
     else case memrecs W1 v of None \<Rightarrow> None | Some m \<Rightarrow>
     case (if m_image m = 0 then Some W1
           else map_option (\<lambda>w. W1\<lparr>images := (images W1)(m_image m \<mapsto> w\<lparr>w_memory := 0\<rparr>)\<rparr>) (images W1 (m_image m))) of
       None \<Rightarrow> None
     | Some W2 \<Rightarrow> Some (tr @ [Rel (HAhb (m_buffer m)), Rel (HHeap v)], W2\<lparr>memrecs := (memrecs W2)(v := None)\<rparr>))"

definition nvhal_GetMemoryAndroidHardwareBufferANDROID :: "nvhal_device option \<Rightarrow> handle \<Rightarrow> ahb_world \<Rightarrow>
    (hal_res ev list \<times> (vk_result + handle)) option" where
  "nvhal_GetMemoryAndroidHardwareBufferANDROID d mem W =
    (if (case d of None \<Rightarrow> True | Some d \<Rightarrow> \<not> d_ahb_enabled d) then Some ([], Inl VK_ERROR_INITIALIZATION_FAILED)
     else let v = nvhal_hash_get (ahb_mems W) mem in
     if v = 0 then Some ([], Inl VK_ERROR_INVALID_EXTERNAL_HANDLE)
     else case memrecs W v of None \<Rightarrow> None | Some m \<Rightarrow> Some ([Acq (HAhb (m_buffer m))], Inr (m_buffer m)))"

section \<open>Binding\<close>

record bind_info =
  bi_image :: handle
  bi_memory :: handle
  bi_offset :: u64
  bi_next :: "vk_struct list"

text \<open>
  The binds for the driver. The copy of the array is made at the first wrapper: up to 8 binds fit on
  the stack, more need memory (\<open>room\<close>).
\<close>

fun translate_from :: "ahb_world \<Rightarrow> bool \<Rightarrow> bool \<Rightarrow> bind_info list \<Rightarrow> (vk_result + bind_info list) option" where
  "translate_from W room copied [] = Some (Inr [])"
| "translate_from W room copied (b # bs) =
    (let p = wrapper W (bi_image b) in
     if p = 0 then map_option (map_sum id (\<lambda>bs. b # bs)) (translate_from W room copied bs)
     else case images W p of None \<Rightarrow> None | Some w \<Rightarrow>
     if w_kind w = NVHAL_WRAP_SWAPCHAIN then Some (Inl VK_ERROR_INVALID_EXTERNAL_HANDLE)
     else if w_real w = 0 \<or> w_memory w \<noteq> bi_memory b \<or> bi_offset b \<noteq> 0 then Some (Inl VK_ERROR_INVALID_EXTERNAL_HANDLE)
     else if \<not> copied \<and> \<not> room then Some (Inl VK_ERROR_OUT_OF_HOST_MEMORY)
     else map_option (map_sum id (\<lambda>bs. b\<lparr>bi_image := w_real w\<rparr> # bs)) (translate_from W room True bs))"

definition nvhal_ahb_translate_binds :: "ahb_world \<Rightarrow> bool \<Rightarrow> bind_info list \<Rightarrow> (vk_result + bind_info list) option" where
  "nvhal_ahb_translate_binds W malloc_ok bs =
    (if nvhal_no_wrappers W then Some (Inr bs) else translate_from W (length bs \<le> 8 \<or> malloc_ok) False bs)"

definition nvhal_BindImageMemory :: "ahb_world \<Rightarrow> vk_result \<Rightarrow> handle \<Rightarrow> handle \<Rightarrow> u64 \<Rightarrow> (bind_info list \<times> vk_result) option" where
  "nvhal_BindImageMemory W icd img mem offset =
    (case nvhal_ahb_translate_binds W True [\<lparr>bi_image = img, bi_memory = mem, bi_offset = offset, bi_next = []\<rparr>] of
       None \<Rightarrow> None
     | Some (Inl r) \<Rightarrow> Some ([], r)
     | Some (Inr bs) \<Rightarrow> Some (bs, icd))"

text \<open>The checks of vkBindImageMemory2 before any bind is performed.\<close>

definition has_native_buffer :: "vk_struct list \<Rightarrow> cros_gralloc_handle option option" where
  "has_native_buffer xs = fold (\<lambda>x acc. case x of NativeBufferANDROID h \<Rightarrow> Some h | _ \<Rightarrow> acc) xs None"

fun first_native_buffer :: "vk_struct list \<Rightarrow> cros_gralloc_handle option" where
  "first_native_buffer [] = None"
| "first_native_buffer (NativeBufferANDROID h # xs) = h"
| "first_native_buffer (x # xs) = first_native_buffer xs"

definition has_swapchain_info :: "vk_struct list \<Rightarrow> bool" where
  "has_swapchain_info xs = list_ex (\<lambda>x. case x of BindMemorySwapchainKHR _ \<Rightarrow> True | _ \<Rightarrow> False) xs"

fun sc_bind_struct_ok :: "vk_struct \<Rightarrow> bool" where
  "sc_bind_struct_ok (NativeBufferANDROID h) = True"
| "sc_bind_struct_ok (BindMemorySwapchainKHR i) = True"
| "sc_bind_struct_ok (BindDeviceGroup devices splits) = (splits = 0 \<and> length devices \<le> 1 \<and> (devices = [] \<or> hd devices = 0))"
| "sc_bind_struct_ok BindMemoryStatus = True"
| "sc_bind_struct_ok _ = False"

definition bind_checked :: "ahb_world \<Rightarrow> bind_info \<Rightarrow> vk_result option" where
  "bind_checked W b =
    (case nvhal_image_wrapper_kind W (bi_image b) of None \<Rightarrow> None | Some kind \<Rightarrow>
     Some (if kind \<noteq> NVHAL_WRAP_SWAPCHAIN
           then (if has_native_buffer (bi_next b) \<noteq> None \<or> has_swapchain_info (bi_next b) then VK_ERROR_INVALID_EXTERNAL_HANDLE else VK_SUCCESS)
           else if has_native_buffer (bi_next b) = None \<or> \<not> has_swapchain_info (bi_next b) \<or> bi_memory b \<noteq> 0
           then VK_ERROR_INVALID_EXTERNAL_HANDLE
           else if list_all sc_bind_struct_ok (bi_next b) then VK_SUCCESS else VK_ERROR_INVALID_EXTERNAL_HANDLE))"

fun binds_checked :: "ahb_world \<Rightarrow> bind_info list \<Rightarrow> vk_result option" where
  "binds_checked W [] = Some VK_SUCCESS"
| "binds_checked W (b # bs) =
    (case bind_checked W b of None \<Rightarrow> None | Some r \<Rightarrow> if r \<noteq> VK_SUCCESS then Some r else binds_checked W bs)"

text \<open>The swapchain binds: all are tried, the first error is the result, and each result is written to
  every status structure of its bind. The driver's answers for the bind of an image are \<open>icd\<close> of that
  image.\<close>

definition bind_statuses :: "bind_info \<Rightarrow> vk_result \<Rightarrow> (handle \<times> vk_result) list" where
  "bind_statuses b r = map (\<lambda>_. (bi_image b, r)) (filter (\<lambda>x. x = BindMemoryStatus) (bi_next b))"

fun sc_binds :: "handle \<Rightarrow> nvhal_device \<Rightarrow> (handle \<Rightarrow> import_icd) \<Rightarrow> bool \<times> bool \<Rightarrow> bind_info list \<Rightarrow> vk_result \<Rightarrow> ahb_world \<Rightarrow>
    (hal_res ev list \<times> obj_call list \<times> (handle \<times> vk_result) list \<times> vk_result \<times> ahb_world) option" where
  "sc_binds dev d icd fns [] r W = Some ([], [], [], r, W)"
| "sc_binds dev d icd fns (b # bs) r W =
    (case nvhal_image_wrapper_kind W (bi_image b) of None \<Rightarrow> None | Some kind \<Rightarrow>
     if kind \<noteq> NVHAL_WRAP_SWAPCHAIN then sc_binds dev d icd fns bs r W
     else case nvhal_sc_bind dev d (bi_image b) (first_native_buffer (bi_next b)) (icd (bi_image b)) fns W of
       None \<Rightarrow> None
     | Some (tr, objs, ri, W1) \<Rightarrow>
       map_option (\<lambda>(tr', objs', sts', r', W2). (tr @ tr', objs @ objs', bind_statuses b ri @ sts', r', W2))
         (sc_binds dev d icd fns bs (if ri \<noteq> VK_SUCCESS \<and> r = VK_SUCCESS then ri else r) W1))"

record bind_env =
  k_import :: "handle \<Rightarrow> import_icd"
  k_rest_malloc :: bool
  k_copy_malloc :: bool
  k_bind :: vk_result
  k_fns :: "bool \<times> bool"

text \<open>The result has the statuses written and the binds the driver was given.\<close>

definition bind2 :: "bind_env \<Rightarrow> handle \<Rightarrow> nvhal_device \<Rightarrow> bind_info list \<Rightarrow> ahb_world \<Rightarrow>
    (hal_res ev list \<times> obj_call list \<times> (handle \<times> vk_result) list \<times> bind_info list \<times> vk_result \<times> ahb_world) option" where
  "bind2 k dev d infos W =
    (case binds_checked W infos of None \<Rightarrow> None | Some r0 \<Rightarrow>
     if r0 \<noteq> VK_SUCCESS then Some ([], [], [], [], r0, W)
     else case sc_binds dev d (k_import k) (k_fns k) infos VK_SUCCESS W of None \<Rightarrow> None | Some (tr, objs, sts, r, W1) \<Rightarrow>
     let rest = filter (\<lambda>b. nvhal_image_wrapper_kind W (bi_image b) \<noteq> Some NVHAL_WRAP_SWAPCHAIN) infos;
         nsc = length infos - length rest in
     if r \<noteq> VK_SUCCESS then Some (tr, objs, sts, [], r, W1)
     else if nsc = length infos then Some (tr, objs, sts, [], VK_SUCCESS, W1)
     else if nsc \<noteq> 0 \<and> \<not> (length rest \<le> 8 \<or> k_rest_malloc k) then Some (tr, objs, sts, [], VK_ERROR_OUT_OF_HOST_MEMORY, W1)
     else case nvhal_ahb_translate_binds W1 (k_copy_malloc k) rest of
       None \<Rightarrow> None
     | Some (Inl r) \<Rightarrow> Some (tr, objs, sts, [], r, W1)
     | Some (Inr bs) \<Rightarrow> Some (tr, objs, sts, bs, k_bind k, W1))"

section \<open>Device lifetime\<close>

text \<open>Every entry of a table points to a live object; the sweeps follow all of them.\<close>

definition entries_live :: "nvhal_hash \<Rightarrow> (handle \<Rightarrow> bool) \<Rightarrow> bool" where
  "entries_live h ok \<longleftrightarrow> list_all (\<lambda>(k, v). k = 0 \<or> k = HASH_TOMB \<or> ok v) (zip (hk h) (hv h))"

text \<open>A dropped wrapper stays in the heap, because the app may still refer to it.\<close>

definition wrapper_drop :: "handle \<Rightarrow> (handle \<rightharpoonup> nvhal_image) \<Rightarrow> hal_res ev list \<times> (handle \<rightharpoonup> nvhal_image)" where
  "wrapper_drop p I =
    (let w = the (I p) in
     if w_kind w \<noteq> NVHAL_WRAP_SWAPCHAIN \<or> w_memory w = 0 then ([], I)
     else (rel_if (w_real w) (HImage (w_real w)) @ [Rel (HMemory (w_memory w))], I(p \<mapsto> w\<lparr>w_memory := 0\<rparr>)))"

definition mem_release :: "handle \<Rightarrow> (handle \<rightharpoonup> ahb_mem) \<Rightarrow> hal_res ev list \<times> (handle \<rightharpoonup> ahb_mem)" where
  "mem_release v R = ([Rel (HAhb (m_buffer (the (R v)))), Rel (HHeap v)], R(v := None))"

fun on_del :: "(handle \<Rightarrow> 's \<Rightarrow> hal_res ev list \<times> 's) \<Rightarrow> handle list \<Rightarrow> 's \<Rightarrow> hal_res ev list \<times> 's" where
  "on_del f [] s = ([], s)"
| "on_del f (x # xs) s = (let (t, s1) = f x s; (t', s2) = on_del f xs s1 in (t @ t', s2))"

definition nvhal_ahb_device_teardown :: "handle \<Rightarrow> ahb_world \<Rightarrow> (hal_res ev list \<times> ahb_world) option" where
  "nvhal_ahb_device_teardown dev W =
    (if nvhal_no_wrappers W \<and> hn (ahb_mems W) = 0 then Some ([], W)
     else if \<not> entries_live (wrappers W) (\<lambda>p. images W p \<noteq> None) \<or> \<not> entries_live (ahb_mems W) (\<lambda>v. memrecs W v \<noteq> None) then None
     else let (nw, h, ps) = nvhal_hash_sweep (wrappers W) (\<lambda>p. w_dev (the (images W p)) = dev);
              (t1, I) = on_del wrapper_drop ps (images W);
              (nm, g, vs) = nvhal_hash_sweep (ahb_mems W) (\<lambda>v. m_dev (the (memrecs W v)) = dev);
              (t2, R) = on_del mem_release vs (memrecs W)
          in Some (t1 @ t2, W\<lparr>wrappers := h, wrapper_count := wrapper_count W - of_nat nw, images := I, ahb_mems := g, memrecs := R\<rparr>))"

end
