(* ===== verification/Ahb_World.thy ===== *)
theory Ahb_World
  imports Ahb
begin

text \<open>
  The invariant of the wrapper and memory tables of nvidia-prolapse/hal/src/ahb.c and what they hold.
  The tables and the heap objects they point to are read as two maps; every operation is shown to
  keep the invariant, to follow only live pointers and to hold exactly the driver objects, buffer
  references and heap objects that the maps account for.
\<close>

section \<open>The maps\<close>

definition image_map :: "ahb_world \<Rightarrow> handle \<rightharpoonup> nvhal_image" where
  "image_map W = (\<lambda>p. if hash_abs (wrappers W) p = None then None else images W p)"

definition memory_map :: "ahb_world \<Rightarrow> handle \<rightharpoonup> handle \<times> ahb_mem" where
  "memory_map W = (\<lambda>k. case hash_abs (ahb_mems W) k of None \<Rightarrow> None | Some v \<Rightarrow> map_option (Pair v) (memrecs W v))"

definition opt_hold :: "handle \<Rightarrow> hal_res \<Rightarrow> hal_res multiset" where
  "opt_hold h r = (if h \<noteq> 0 then {#r#} else {#})"

text \<open>A wrapper holds itself, its driver image and, for a swapchain image, the imported memory; the
  record of an AHB memory object holds itself and one reference, beside the app's memory object.\<close>

definition wrapper_hold :: "handle \<Rightarrow> nvhal_image \<Rightarrow> hal_res multiset" where
  "wrapper_hold p w = {#HHeap p#} + opt_hold (w_real w) (HImage (w_real w)) +
     (if w_kind w = NVHAL_WRAP_SWAPCHAIN then opt_hold (w_memory w) (HMemory (w_memory w)) else {#})"

definition memory_hold :: "handle \<Rightarrow> handle \<times> ahb_mem \<Rightarrow> hal_res multiset" where
  "memory_hold k vm = {#HMemory k, HHeap (fst vm), HAhb (m_buffer (snd vm))#}"

definition hold_all :: "(handle \<Rightarrow> 'a \<Rightarrow> hal_res multiset) \<Rightarrow> (handle \<rightharpoonup> 'a) \<Rightarrow> hal_res multiset" where
  "hold_all f M = (\<Sum>p \<in> dom M. f p (the (M p)))"

definition held :: "ahb_world \<Rightarrow> hal_res multiset" where
  "held W = hold_all wrapper_hold (image_map W) + hold_all memory_hold (memory_map W)"

lemma hold_all_empty [simp]: "hold_all f Map.empty = {#}"
  by (simp add: hold_all_def)

lemma hold_all_new: "finite (dom M) \<Longrightarrow> M p = None \<Longrightarrow> hold_all f (M(p \<mapsto> x)) = f p x + hold_all f M"
proof -
  assume a: "finite (dom M)" "M p = None"
  then have "(\<Sum>q \<in> dom M. f q (the ((M(p \<mapsto> x)) q))) = (\<Sum>q \<in> dom M. f q (the (M q)))"
    by (intro sum.cong) auto
  with a show ?thesis by (simp add: hold_all_def domIff)
qed

lemma hold_all_del: "finite (dom M) \<Longrightarrow> M p = Some x \<Longrightarrow> hold_all f M = f p x + hold_all f (M(p := None))"
  using hold_all_new [of "M(p := None)" p f x] by (simp add: map_upd_triv)

lemma hold_all_upd: "finite (dom M) \<Longrightarrow> hold_all f (M(p \<mapsto> x)) = f p x + hold_all f (M(p := None))"
  using hold_all_new [of "M(p := None)" p f x] by simp

lemma hash_abs_finite: "finite (dom (hash_abs h))"
proof (rule finite_subset)
  show "dom (hash_abs h) \<subseteq> set (hk h)"
    by (auto simp: hash_abs_def lookup_def entry_index_def dest!: find_SomeD split: if_splits)
qed simp

lemma hash_abs_live: "hash_abs h k = Some v \<Longrightarrow> k \<noteq> 0"
  by (auto simp: hash_abs_def lookup_def entry_index_def live_def split: if_splits)

section \<open>The invariant\<close>

definition refs_ok :: "(handle \<rightharpoonup> nvhal_image) \<Rightarrow> (handle \<rightharpoonup> handle \<times> ahb_mem) \<Rightarrow> bool" where
  "refs_ok I MM \<longleftrightarrow> (\<forall>k v m. MM k = Some (v, m) \<longrightarrow> m_image m \<noteq> 0 \<longrightarrow>
     (\<exists>w. I (m_image m) = Some w \<and> w_kind w = NVHAL_WRAP_AHB \<and> w_memory w = k))"

definition image_ok :: "nvhal_image \<Rightarrow> bool" where
  "image_ok w \<longleftrightarrow> w_kind w \<noteq> NVHAL_WRAP_NONE \<and> (w_memory w \<noteq> 0 \<longrightarrow> w_real w \<noteq> 0)"

definition tables_ok :: "ahb_world \<Rightarrow> bool" where
  "tables_ok W \<longleftrightarrow> hash_inv (wrappers W) \<and> hash_inv (ahb_mems W) \<and>
     (\<forall>p v. hash_abs (wrappers W) p = Some v \<longrightarrow> v = p \<and> images W p \<noteq> None) \<and>
     (\<forall>k v. hash_abs (ahb_mems W) k = Some v \<longrightarrow> v \<noteq> 0 \<and> memrecs W v \<noteq> None) \<and>
     (\<forall>k k' v. hash_abs (ahb_mems W) k = Some v \<longrightarrow> hash_abs (ahb_mems W) k' = Some v \<longrightarrow> k = k') \<and>
     unat (wrapper_count W) = card (dom (hash_abs (wrappers W)))"

definition world_ok :: "ahb_world \<Rightarrow> bool" where
  "world_ok W \<longleftrightarrow> tables_ok W \<and> refs_ok (images W) (memory_map W) \<and> (\<forall>w \<in> ran (image_map W). image_ok w)"

lemma image_map_dom: "tables_ok W \<Longrightarrow> dom (image_map W) = dom (hash_abs (wrappers W))"
  by (auto simp: image_map_def tables_ok_def split: if_splits)

lemma memory_map_dom: "tables_ok W \<Longrightarrow> dom (memory_map W) = dom (hash_abs (ahb_mems W))"
  by (fastforce simp: memory_map_def tables_ok_def split: option.splits)

lemma maps_finite: "finite (dom (image_map W))" "finite (dom (memory_map W))"
proof -
  have "dom (image_map W) \<subseteq> dom (hash_abs (wrappers W))" "dom (memory_map W) \<subseteq> dom (hash_abs (ahb_mems W))"
    by (auto simp: image_map_def memory_map_def split: if_splits option.splits)
  then show "finite (dom (image_map W))" "finite (dom (memory_map W))"
    by (auto intro: finite_subset hash_abs_finite)
qed

text \<open>What a lookup finds.\<close>

lemma wrapper_lookup:
  assumes "tables_ok W"
  shows "wrapper W img = (if image_map W img = None then 0 else img)"
    "image_map W img \<noteq> None \<Longrightarrow> img \<noteq> 0 \<and> images W img = image_map W img"
proof -
  have inv: "hash_inv (wrappers W)" using assms by (simp add: tables_ok_def)
  have "card (dom (hash_abs (wrappers W))) = 0 \<longleftrightarrow> dom (hash_abs (wrappers W)) = {}"
    using hash_abs_finite by (simp add: card_eq_0_iff)
  then have none: "nvhal_no_wrappers W \<longleftrightarrow> dom (hash_abs (wrappers W)) = {}"
    using assms by (auto simp: nvhal_no_wrappers_def tables_ok_def unat_eq_zero [symmetric] simp del: unat_eq_zero)
  have get: "nvhal_hash_get (wrappers W) img = (case hash_abs (wrappers W) img of None \<Rightarrow> 0 | Some v \<Rightarrow> v)"
    by (rule hhash.get_abs [OF inv])
  have m: "image_map W img = None \<longleftrightarrow> hash_abs (wrappers W) img = None"
    using image_map_dom [OF assms] by (metis domIff)
  show "wrapper W img = (if image_map W img = None then 0 else img)"
  proof (cases "hash_abs (wrappers W) img")
    case None
    then show ?thesis using get m by (simp add: wrapper_def)
  next
    case (Some v)
    then have "v = img" "img \<noteq> 0" "\<not> nvhal_no_wrappers W" using assms none hash_abs_live by (auto simp: tables_ok_def)
    then show ?thesis using get m Some by (simp add: wrapper_def)
  qed
  show "image_map W img \<noteq> None \<Longrightarrow> img \<noteq> 0 \<and> images W img = image_map W img"
    using hash_abs_live by (auto simp: image_map_def split: if_splits)
qed

lemma memory_lookup:
  assumes "tables_ok W"
  shows "nvhal_hash_get (ahb_mems W) k = (case memory_map W k of None \<Rightarrow> 0 | Some (v, m) \<Rightarrow> v)"
    "memory_map W k = Some (v, m) \<Longrightarrow> v \<noteq> 0 \<and> memrecs W v = Some m \<and> hash_abs (ahb_mems W) k = Some v \<and> k \<noteq> 0"
proof -
  have inv: "hash_inv (ahb_mems W)" using assms by (simp add: tables_ok_def)
  show "nvhal_hash_get (ahb_mems W) k = (case memory_map W k of None \<Rightarrow> 0 | Some (v, m) \<Rightarrow> v)"
    using assms hhash.get_abs [OF inv, of k] by (auto simp: memory_map_def tables_ok_def split: option.splits)
  show "memory_map W k = Some (v, m) \<Longrightarrow> v \<noteq> 0 \<and> memrecs W v = Some m \<and> hash_abs (ahb_mems W) k = Some v \<and> k \<noteq> 0"
    using assms by (auto simp: memory_map_def tables_ok_def dest: hash_abs_live split: option.splits)
qed

lemma memory_inj:
  assumes "tables_ok W" "memory_map W k = Some (v, m)" "memory_map W k' = Some (v, m')"
  shows "k = k'"
proof -
  have "hash_abs (ahb_mems W) k = Some v" "hash_abs (ahb_mems W) k' = Some v" using memory_lookup(2) [OF assms(1)] assms(2,3) by blast+
  then show ?thesis using assms(1) unfolding tables_ok_def by blast
qed

section \<open>Updates\<close>

lemma memory_map_cong:
  assumes "hash_abs (ahb_mems W') = hash_abs (ahb_mems W)" "memrecs W' = memrecs W"
  shows "memory_map W' = memory_map W"
  unfolding memory_map_def assms by (rule refl)

lemma image_map_cong:
  assumes "hash_abs (wrappers W') = hash_abs (wrappers W)" "images W' = images W"
  shows "image_map W' = image_map W"
  unfolding image_map_def assms by (rule refl)

text \<open>A wrapper in the heap changes; the references to it stay right.\<close>

lemma update_image:
  assumes "world_ok W" "images W p = Some w" "w_kind w' = w_kind w" "image_ok w'"
    "\<And>k v m. memory_map W k = Some (v, m) \<Longrightarrow> m_image m = p \<Longrightarrow> p \<noteq> 0 \<Longrightarrow> w_memory w' = k"
  defines "W' \<equiv> W\<lparr>images := (images W)(p \<mapsto> w')\<rparr>"
  shows "world_ok W'" "memory_map W' = memory_map W"
    "image_map W' = (if image_map W p = None then image_map W else (image_map W)(p \<mapsto> w'))"
proof -
  have t: "tables_ok W" "refs_ok (images W) (memory_map W)" "\<forall>w \<in> ran (image_map W). image_ok w"
    using assms(1) by (auto simp: world_ok_def)
  show mm: "memory_map W' = memory_map W" by (rule memory_map_cong) (simp_all add: W'_def)
  show im: "image_map W' = (if image_map W p = None then image_map W else (image_map W)(p \<mapsto> w'))"
    using assms(2) by (auto simp: image_map_def W'_def fun_eq_iff)
  have "tables_ok W'" using t(1) by (auto simp: tables_ok_def W'_def)
  moreover have "refs_ok (images W') (memory_map W')"
    unfolding refs_ok_def mm
  proof (intro allI impI)
    fix k v m assume a: "memory_map W k = Some (v, m)" "m_image m \<noteq> 0"
    obtain w0 where w0: "images W (m_image m) = Some w0" "w_kind w0 = NVHAL_WRAP_AHB" "w_memory w0 = k"
      using t(2) a unfolding refs_ok_def by blast
    show "\<exists>w. images W' (m_image m) = Some w \<and> w_kind w = NVHAL_WRAP_AHB \<and> w_memory w = k"
    proof (cases "m_image m = p")
      case True
      then show ?thesis using w0 assms(2,3) assms(5) [OF a(1)] a(2) by (auto simp: W'_def)
    next
      case False
      then show ?thesis using w0 by (simp add: W'_def)
    qed
  qed
  moreover have "\<forall>w \<in> ran (image_map W'). image_ok w"
    using t(3) assms(4) unfolding im by (auto simp: ran_def split: if_splits)
  ultimately show "world_ok W'" by (simp add: world_ok_def)
qed

text \<open>An image whose memory is not set is no record's image.\<close>

lemma unreferenced:
  assumes "world_ok W" "memory_map W k = Some (v, m)" "m_image m = p" "p \<noteq> 0" "images W p = Some w"
  shows "w_memory w = k" "w_memory w \<noteq> 0"
proof -
  show k: "w_memory w = k" using assms unfolding world_ok_def refs_ok_def by force
  show "w_memory w \<noteq> 0" using k memory_lookup(2) [OF _ assms(2)] assms(1) by (simp add: world_ok_def)
qed

lemma wrapper_hold_upd:
  assumes "image_map W p = Some w" "run_ev (wrapper_hold p w) tr = Some (wrapper_hold p w')"
  shows "run_ev (held W) tr = Some (hold_all wrapper_hold ((image_map W)(p \<mapsto> w')) + hold_all memory_hold (memory_map W))"
proof -
  let ?R = "hold_all wrapper_hold ((image_map W)(p := None)) + hold_all memory_hold (memory_map W)"
  have "held W = ?R + wrapper_hold p w"
    using hold_all_del [OF maps_finite(1) assms(1), of wrapper_hold] by (simp add: held_def ac_simps)
  moreover have "hold_all wrapper_hold ((image_map W)(p \<mapsto> w')) + hold_all memory_hold (memory_map W) = ?R + wrapper_hold p w'"
    using hold_all_upd [OF maps_finite(1), of wrapper_hold W p w'] by (simp add: ac_simps)
  ultimately show ?thesis using run_ev_frame [OF assms(2), of ?R] by simp
qed

section \<open>Creation and destruction keep the invariant\<close>

lemma register_sound:
  assumes "world_ok W" "c_ptr k \<noteq> 0" "images W (c_ptr k) = None" "image_ok w" "w_real w = 0" "w_memory w = 0"
    "card (dom (image_map W)) < 2 ^ 32 - 1"
  shows "\<exists>tr r W'. register_wrapper k w W = Some (tr, r, W') \<and> world_ok W' \<and> run_ev (held W) tr = Some (held W') \<and>
     card (dom (image_map W')) \<le> Suc (card (dom (image_map W))) \<and> memory_map W' = memory_map W \<and>
     (case r of Inr p \<Rightarrow> p = c_ptr k \<and> image_map W' = (image_map W)(p \<mapsto> w) | Inl _ \<Rightarrow> image_map W' = image_map W)"
proof -
  let ?p = "c_ptr k"
  have t: "tables_ok W" "hash_inv (wrappers W)" using assms(1) by (auto simp: world_ok_def tables_ok_def)
  obtain b h where put: "nvhal_hash_put (c_put k) (wrappers W) ?p ?p = Some (b, h)"
    using hhash.put_returns [OF t(2)] by fastforce
  have h: "hash_inv h" by (rule hhash.put_inv [OF t(2) put])
  have new: "hash_abs (wrappers W) ?p = None" "image_map W ?p = None"
  proof -
    show "hash_abs (wrappers W) ?p = None" using t(1) assms(3) unfolding tables_ok_def by (metis not_None_eq)
    then show "image_map W ?p = None" by (simp add: image_map_def)
  qed
  show ?thesis
  proof (cases b)
    case False
    then have same: "hash_abs h = hash_abs (wrappers W)" using hhash.put_failed [OF t(2)] put by simp
    define W' where "W' = W\<lparr>wrappers := h\<rparr>"
    have maps: "image_map W' = image_map W" "memory_map W' = memory_map W" "images W' = images W"
      by (rule image_map_cong memory_map_cong; simp add: W'_def same)+ (simp add: W'_def)
    have "world_ok W'" using assms(1) h same unfolding world_ok_def maps by (simp add: tables_ok_def W'_def)
    moreover have "held W' = held W" by (simp add: held_def maps)
    ultimately show ?thesis using put False maps by (simp add: register_wrapper_def W'_def [symmetric])
  next
    case True
    then have abs: "hash_abs h = (hash_abs (wrappers W))(?p \<mapsto> ?p)" using hhash.put_done [OF t(2)] put by simp
    define W' where "W' = W\<lparr>wrappers := h, images := (images W)(?p \<mapsto> w), wrapper_count := wrapper_count W + 1\<rparr>"
    have im: "image_map W' = (image_map W)(?p \<mapsto> w)"
      using new by (auto simp: image_map_def W'_def abs fun_eq_iff)
    have mm: "memory_map W' = memory_map W" by (rule memory_map_cong) (simp_all add: W'_def)
    have card: "card (dom (hash_abs h)) = Suc (card (dom (hash_abs (wrappers W))))"
      using new(1) hash_abs_finite by (simp add: abs domIff)
    have "unat (wrapper_count W) = card (dom (image_map W))" using t(1) image_map_dom [OF t(1)] by (simp add: tables_ok_def)
    then have cnt: "unat (wrapper_count W + 1) = Suc (unat (wrapper_count W))"
      using assms(7) by (simp add: unat_word_ariths)
    have tables: "tables_ok W'"
      using t(1) h card cnt unfolding tables_ok_def W'_def by (auto simp: abs split: if_splits)
    have refs: "refs_ok (images W') (memory_map W')"
      using assms(1,3) unfolding world_ok_def refs_ok_def mm by (fastforce simp: W'_def)
    have "world_ok W'" using tables refs assms(1,4) new(2)
      by (auto simp: world_ok_def im ran_def split: if_splits)
    moreover have "held W' = held W + {#HHeap ?p#}"
      using hold_all_new [OF maps_finite(1) new(2), of wrapper_hold w] assms(5,6)
      by (simp add: held_def im mm wrapper_hold_def opt_hold_def)
    moreover have "card (dom (image_map W')) \<le> Suc (card (dom (image_map W)))"
      using image_map_dom [OF tables] image_map_dom [OF t(1)] card by (simp add: W'_def)
    ultimately show ?thesis using put True mm im by (simp add: register_wrapper_def W'_def [symmetric])
  qed
qed

definition step_ok :: "ahb_world \<Rightarrow> hal_res ev list \<Rightarrow> ahb_world \<Rightarrow> bool" where
  "step_ok W tr W' \<longleftrightarrow> world_ok W' \<and> run_ev (held W) tr = Some (held W') \<and>
     card (dom (image_map W')) \<le> Suc (card (dom (image_map W)))"

lemma step_ok_same: "world_ok W \<Longrightarrow> run_ev (held W) tr = Some (held W) \<Longrightarrow> step_ok W tr W"
  by (simp add: step_ok_def)

lemma parse_ci_blank: "parse_ci a b ci = Inr w \<Longrightarrow> w_real w = 0 \<and> w_memory w = 0"
  by (auto simp: parse_ci_def Let_def split: sum.splits prod.splits if_splits)

lemma ahb_create_sound:
  assumes "world_ok W" "c_ptr k = 0 \<or> images W (c_ptr k) = None" "card (dom (image_map W)) < 2 ^ 32 - 1"
  shows "\<exists>tr r W'. nvhal_ahb_CreateImage k dev d ci W = Some (tr, r, W') \<and> step_ok W tr W'"
proof (cases "c_ptr k = 0 \<or> (\<nexists>w. parse_ci (c_views k) (c_families k) ci = Inr w)")
  case True
  then show ?thesis using step_ok_same [OF assms(1)]
    by (auto simp: nvhal_ahb_CreateImage_def split: sum.splits)
next
  case False
  then obtain w where w: "parse_ci (c_views k) (c_families k) ci = Inr w" "c_ptr k \<noteq> 0" "images W (c_ptr k) = None"
    using assms(2) by auto
  let ?w = "w\<lparr>w_kind := NVHAL_WRAP_AHB, w_dev := dev\<rparr>"
  have "image_ok ?w" "w_real ?w = 0" "w_memory ?w = 0" using parse_ci_blank [OF w(1)] by (simp_all add: image_ok_def)
  then obtain tr r W' where "register_wrapper k ?w W = Some (tr, r, W')" "step_ok W tr W'"
    using register_sound [OF assms(1) w(2,3) _ _ _ assms(3), of ?w] unfolding step_ok_def by blast
  then show ?thesis using w step_ok_same [OF assms(1)] by (simp add: nvhal_ahb_CreateImage_def)
qed

lemma sc_create_sound:
  assumes "world_ok W" "c_ptr k = 0 \<or> images W (c_ptr k) = None" "card (dom (image_map W)) < 2 ^ 32 - 1"
  shows "\<exists>tr r W'. nvhal_sc_CreateImage k dev d ci sc W = Some (tr, r, W') \<and> step_ok W tr W'"
proof (cases "c_ptr k = 0")
  case True
  then show ?thesis using step_ok_same [OF assms(1)] by (simp add: nvhal_sc_CreateImage_def)
next
  case False
  have reg: "\<exists>tr r W'. register_wrapper k w W = Some (tr, r, W') \<and> step_ok W tr W'"
    if "image_ok w" "w_real w = 0" "w_memory w = 0" for w
  proof -
    have "images W (c_ptr k) = None" using assms(2) False by simp
    then show ?thesis using register_sound [OF assms(1) False _ that assms(3)] unfolding step_ok_def by blast
  qed
  show ?thesis using step_ok_same [OF assms(1)] False
    by (auto simp: nvhal_sc_CreateImage_def intro!: reg split: sum.splits prod.splits) (simp_all add: image_ok_def)
qed

lemma memrec_update:
  assumes "tables_ok W" "memory_map W k = Some (v, m)"
  shows "memory_map (W\<lparr>memrecs := (memrecs W)(v \<mapsto> m')\<rparr>) = (memory_map W)(k \<mapsto> (v, m'))"
proof
  fix j
  have v: "hash_abs (ahb_mems W) k = Some v" using memory_lookup(2) [OF assms] by simp
  have "hash_abs (ahb_mems W) j = Some v \<longleftrightarrow> j = k" using assms(1) v unfolding tables_ok_def by metis
  then show "memory_map (W\<lparr>memrecs := (memrecs W)(v \<mapsto> m')\<rparr>) j = ((memory_map W)(k \<mapsto> (v, m'))) j"
    using v by (auto simp: memory_map_def split: option.splits)
qed

lemma memory_hold_image: "hold_all memory_hold (M(k \<mapsto> (v, m\<lparr>m_image := p\<rparr>))) = hold_all memory_hold M"
  if "finite (dom M)" "M k = Some (v, m)"
  using that hold_all_upd [of M memory_hold k "(v, m\<lparr>m_image := p\<rparr>)"] hold_all_del [of M k "(v, m)" memory_hold]
  by (simp add: memory_hold_def)

text \<open>The record of the memory forgets a dying wrapper.\<close>

lemma detach_sound:
  assumes "world_ok W" "images W p = Some w" "p \<noteq> 0"
  shows "\<exists>W'. (if w_kind w = NVHAL_WRAP_AHB \<and> w_memory w \<noteq> 0 then detach p (w_memory w) W else Some W) = Some W' \<and>
    tables_ok W' \<and> refs_ok ((images W)(p := None)) (memory_map W') \<and> (\<exists>R. W' = W\<lparr>memrecs := R\<rparr>) \<and>
    hold_all memory_hold (memory_map W') = hold_all memory_hold (memory_map W)"
proof -
  have t: "tables_ok W" "refs_ok (images W) (memory_map W)" using assms(1) by (auto simp: world_ok_def)
  have keep: "refs_ok ((images W)(p := None)) M'"
    if "\<And>j v m. M' j = Some (v, m) \<Longrightarrow> m_image m \<noteq> 0 \<Longrightarrow> memory_map W j = Some (v, m) \<and> m_image m \<noteq> p" for M'
    using that t(2) unfolding refs_ok_def by fastforce
  show ?thesis
  proof (cases "w_kind w = NVHAL_WRAP_AHB \<and> (\<exists>v m. memory_map W (w_memory w) = Some (v, m) \<and> m_image m = p)")
    case True
    then obtain v m where m: "memory_map W (w_memory w) = Some (v, m)" "m_image m = p" and ahb: "w_kind w = NVHAL_WRAP_AHB" by auto
    have l: "v \<noteq> 0" "memrecs W v = Some m" "w_memory w \<noteq> 0" "nvhal_hash_get (ahb_mems W) (w_memory w) = v"
      using memory_lookup [OF t(1)] m(1) by auto
    define W' where "W' = W\<lparr>memrecs := (memrecs W)(v \<mapsto> m\<lparr>m_image := 0\<rparr>)\<rparr>"
    have mm: "memory_map W' = (memory_map W)(w_memory w \<mapsto> (v, m\<lparr>m_image := 0\<rparr>))"
      unfolding W'_def by (rule memrec_update [OF t(1) m(1)])
    have "detach p (w_memory w) W = Some W'" using l m(2) by (simp add: detach_def W'_def)
    moreover have "tables_ok W'" using t(1) by (auto simp: tables_ok_def W'_def)
    moreover have "refs_ok ((images W)(p := None)) (memory_map W')"
    proof (rule keep)
      fix j v' m' assume a: "memory_map W' j = Some (v', m')" "m_image m' \<noteq> 0"
      then have j: "j \<noteq> w_memory w" "memory_map W j = Some (v', m')" by (auto simp: mm split: if_splits)
      then show "memory_map W j = Some (v', m') \<and> m_image m' \<noteq> p"
        using unreferenced(1) [OF assms(1) j(2)] assms(2,3) by blast
    qed
    moreover have "hold_all memory_hold (memory_map W') = hold_all memory_hold (memory_map W)"
      unfolding mm by (rule memory_hold_image [OF maps_finite(2) m(1)])
    ultimately show ?thesis using ahb l(3) by (auto simp: W'_def)
  next
    case False
    have none: "memory_map W j = Some (v, m) \<and> m_image m \<noteq> p" if "memory_map W j = Some (v, m)" for j v m
    proof -
      have "m_image m \<noteq> p"
      proof
        assume p: "m_image m = p"
        have "w_memory w = j" by (rule unreferenced(1) [OF assms(1) that p assms(3,2)])
        moreover have "w_kind w = NVHAL_WRAP_AHB" using t(2) that p assms(2,3) unfolding refs_ok_def by force
        ultimately show False using False that p by auto
      qed
      with that show ?thesis by simp
    qed
    have "(if w_kind w = NVHAL_WRAP_AHB \<and> w_memory w \<noteq> 0 then detach p (w_memory w) W else Some W) = Some W"
    proof (cases "memory_map W (w_memory w)")
      case None
      then show ?thesis using memory_lookup(1) [OF t(1), of "w_memory w"] by (simp add: detach_def)
    next
      case (Some vm)
      obtain v m where vm: "vm = (v, m)" by force
      then show ?thesis using memory_lookup [OF t(1), of "w_memory w"] Some none [of "w_memory w" v m] by (simp add: detach_def)
    qed
    moreover have "refs_ok ((images W)(p := None)) (memory_map W)" by (rule keep) (use none in blast)
    ultimately show ?thesis using t(1) by (auto intro: exI [of _ "memrecs W"])
  qed
qed

lemma detach_frame: "detach p k (W\<lparr>wrappers := h, wrapper_count := c\<rparr>) = map_option (\<lambda>W. W\<lparr>wrappers := h, wrapper_count := c\<rparr>) (detach p k W)"
  by (simp add: detach_def Let_def split: option.splits)

lemma wrapper_released:
  "run_ev (M + wrapper_hold p w) (rel_if (w_real w) (HImage (w_real w)) @
     (if w_kind w = NVHAL_WRAP_SWAPCHAIN then rel_if (w_memory w) (HMemory (w_memory w)) else []) @ [Rel (HHeap p)]) = Some M"
  by (auto simp: wrapper_hold_def opt_hold_def rel_if_def)

lemma untracked_destroy:
  assumes "world_ok W" "image_map W img = None"
  shows "\<exists>W'. nvhal_ahb_DestroyImage img W = Some ([], False, W') \<and> step_ok W [] W' \<and> image_map W' = image_map W"
proof (cases "img = 0 \<or> nvhal_no_wrappers W")
  case True
  then show ?thesis using step_ok_same [OF assms(1)] by (auto simp: nvhal_ahb_DestroyImage_def)
next
  case False
  have t: "tables_ok W" "hash_inv (wrappers W)" using assms(1) by (auto simp: world_ok_def tables_ok_def)
  obtain p h where del: "nvhal_hash_del (wrappers W) img = (p, h)" by force
  have none: "hash_abs (wrappers W) img = None" using assms(2) image_map_dom [OF t(1)] by (metis domIff)
  then have "nvhal_hash_get (wrappers W) img = 0" by (simp add: hhash.get_abs [OF t(2)])
  then have p: "p = 0" using hhash.del_ret [OF t(2), of img] del by simp
  have abs: "hash_abs h = hash_abs (wrappers W)" using hhash.del_abs [OF t(2), of img] del none by (simp add: fun_upd_idem)
  define W' where "W' = W\<lparr>wrappers := h\<rparr>"
  have maps: "image_map W' = image_map W" "memory_map W' = memory_map W" "images W' = images W"
    by (rule image_map_cong memory_map_cong; simp add: W'_def abs)+ (simp add: W'_def)
  have "world_ok W'" using assms(1) hhash.del_inv [OF t(2), of img] del abs unfolding world_ok_def maps by (simp add: tables_ok_def W'_def)
  moreover have "held W' = held W" by (simp add: held_def maps)
  ultimately show ?thesis using del p False maps by (simp add: nvhal_ahb_DestroyImage_def step_ok_def W'_def)
qed

lemma tracked_destroy:
  assumes "world_ok W" "image_map W img = Some w"
  shows "\<exists>tr W'. nvhal_ahb_DestroyImage img W = Some (tr, True, W') \<and> step_ok W tr W' \<and> image_map W' = (image_map W)(img := None)"
proof -
  have t: "tables_ok W" "hash_inv (wrappers W)" using assms(1) by (auto simp: world_ok_def tables_ok_def)
  have img: "img \<noteq> 0" "images W img = Some w" "wrapper W img = img" using wrapper_lookup [OF t(1), of img] assms(2) by auto
  then have live: "\<not> nvhal_no_wrappers W" by (auto simp: wrapper_def split: if_splits)
  have hit: "hash_abs (wrappers W) img = Some img"
    using t(1) assms(2) by (auto simp: tables_ok_def image_map_def split: if_splits)
  obtain p h where del: "nvhal_hash_del (wrappers W) img = (p, h)" by force
  have "nvhal_hash_get (wrappers W) img = img" using hit by (simp add: hhash.get_abs [OF t(2)])
  then have p: "p = img" using hhash.del_ret [OF t(2), of img] del by simp
  have abs: "hash_abs h = (hash_abs (wrappers W))(img := None)" "hash_inv h"
    using hhash.del_abs [OF t(2), of img] hhash.del_inv [OF t(2), of img] del by simp_all
  obtain R where d: "(if w_kind w = NVHAL_WRAP_AHB \<and> w_memory w \<noteq> 0 then detach img (w_memory w) W else Some W) = Some (W\<lparr>memrecs := R\<rparr>)"
    and tR: "tables_ok (W\<lparr>memrecs := R\<rparr>)" and refs: "refs_ok ((images W)(img := None)) (memory_map (W\<lparr>memrecs := R\<rparr>))"
    and hold: "hold_all memory_hold (memory_map (W\<lparr>memrecs := R\<rparr>)) = hold_all memory_hold (memory_map W)"
    using detach_sound [OF assms(1) img(2,1)] by blast
  define W' where "W' = W\<lparr>memrecs := R, wrappers := h, wrapper_count := wrapper_count W - 1, images := (images W)(img := None)\<rparr>"
  let ?tr = "rel_if (w_real w) (HImage (w_real w)) @
     (if w_kind w = NVHAL_WRAP_SWAPCHAIN then rel_if (w_memory w) (HMemory (w_memory w)) else []) @ [Rel (HHeap img)]"
  have op: "nvhal_ahb_DestroyImage img W = Some (?tr, True, W')"
    using d del p img live by (auto simp: nvhal_ahb_DestroyImage_def W'_def detach_frame split: if_splits)
  have im: "image_map W' = (image_map W)(img := None)" by (auto simp: image_map_def W'_def abs fun_eq_iff)
  have mm: "memory_map W' = memory_map (W\<lparr>memrecs := R\<rparr>)" by (rule memory_map_cong) (simp_all add: W'_def)
  have card: "card (dom (hash_abs h)) = card (dom (hash_abs (wrappers W))) - 1" "card (dom (hash_abs (wrappers W))) \<noteq> 0"
    using domI [of "hash_abs (wrappers W)", OF hit] hash_abs_finite [of "wrappers W"]
    by (auto simp: abs card_eq_0_iff card_Diff_singleton)
  have "unat (wrapper_count W - 1) = unat (wrapper_count W) - 1"
    using card(2) t(1) by (intro unat_minus_one) (auto simp: tables_ok_def)
  then have "tables_ok W'" using tR card abs t(1) unfolding tables_ok_def by (auto simp: W'_def split: if_splits)
  then have ok: "world_ok W'" using refs assms(1) unfolding world_ok_def mm im
    by (auto simp: W'_def ran_def split: if_splits)
  have "held W = held W' + wrapper_hold img w"
    using hold_all_del [OF maps_finite(1) assms(2), of wrapper_hold] hold by (simp add: held_def im mm ac_simps)
  then have "run_ev (held W) ?tr = Some (held W')" by (simp only: wrapper_released)
  moreover have "card (dom (image_map W')) \<le> Suc (card (dom (image_map W)))"
    using card_mono [OF maps_finite(1), of "dom (image_map W')" W] by (auto simp: im)
  ultimately show ?thesis using op ok im unfolding step_ok_def by blast
qed

section \<open>Updates of one wrapper keep the invariant\<close>

lemma set_image_sound:
  assumes "world_ok W" "image_map W p = Some w" "w_kind w' = w_kind w" "image_ok w'" "w_memory w = 0 \<or> w_memory w' = w_memory w"
    "run_ev (wrapper_hold p w) tr = Some (wrapper_hold p w')"
  shows "step_ok W tr (W\<lparr>images := (images W)(p \<mapsto> w')\<rparr>)"
proof -
  have t: "tables_ok W" using assms(1) by (simp add: world_ok_def)
  have p: "images W p = Some w" "p \<noteq> 0" using wrapper_lookup(2) [OF t, of p] assms(2) by auto
  have refs: "w_memory w' = k" if "memory_map W k = Some (v, m)" "m_image m = p" "p \<noteq> 0" for k v m
    using unreferenced [OF assms(1) that p(1)] assms(5) by auto
  note upd = update_image [OF assms(1) p(1) assms(3,4) refs]
  have im: "image_map (W\<lparr>images := (images W)(p \<mapsto> w')\<rparr>) = (image_map W)(p \<mapsto> w')" using upd(3) assms(2) by simp
  have "card (dom (image_map W)) = card (dom ((image_map W)(p \<mapsto> w')))" using assms(2) by (simp add: insert_absorb domI)
  then show ?thesis using upd(1) wrapper_hold_upd [OF assms(2,6)] upd(2)
    unfolding step_ok_def held_def im by simp
qed

lemma wrapper_cases:
  assumes "world_ok W"
  obtains (none) "image_map W img = None" "wrapper W img = 0"
    | (some) w where "image_map W img = Some w" "wrapper W img = img" "images W img = Some w" "img \<noteq> 0" "image_ok w"
proof (cases "image_map W img")
  case None
  then show ?thesis using none wrapper_lookup(1) [of W img] assms by (simp add: world_ok_def)
next
  case (Some w)
  then have "image_ok w" using assms by (auto simp: world_ok_def ran_def)
  then show ?thesis using some [OF Some] Some wrapper_lookup [of W img] assms by (simp add: world_ok_def)
qed

lemma set_private_data_sound:
  assumes "world_ok W"
  shows "\<exists>W'. nvhal_ahb_set_private_data ok img slot x W = Some (image_map W img \<noteq> None, W') \<and> step_ok W [] W'"
  using assms
proof (cases rule: wrapper_cases [where img = img])
  case none
  then show ?thesis using step_ok_same [OF assms] by (simp add: nvhal_ahb_set_private_data_def)
next
  case (some w)
  have "step_ok W [] (W\<lparr>images := (images W)(img \<mapsto> w\<lparr>w_pd := pd\<rparr>)\<rparr>)" for pd
    using set_image_sound [OF assms some(1), of "w\<lparr>w_pd := pd\<rparr>" "[]"] some(5) by (simp add: image_ok_def wrapper_hold_def)
  then show ?thesis using some by (simp add: nvhal_ahb_set_private_data_def Let_def)
qed

lemma set_object_name_sound:
  assumes "world_ok W"
  shows "\<exists>W'. nvhal_ahb_set_object_name img name W = Some (image_map W img \<noteq> None, W') \<and> step_ok W [] W'"
  using assms
proof (cases rule: wrapper_cases [where img = img])
  case none
  then show ?thesis using step_ok_same [OF assms] by (simp add: nvhal_ahb_set_object_name_def)
next
  case (some w)
  have "step_ok W [] (W\<lparr>images := (images W)(img \<mapsto> w\<lparr>w_name := name\<rparr>)\<rparr>)"
    using set_image_sound [OF assms some(1), of "w\<lparr>w_name := name\<rparr>" "[]"] some(5) by (simp add: image_ok_def wrapper_hold_def)
  then show ?thesis using some by (simp add: nvhal_ahb_set_object_name_def)
qed

text \<open>A driver that reports success returns a handle.\<close>

definition handle_ok :: "vk_result \<times> handle \<Rightarrow> bool" where
  "handle_ok x \<longleftrightarrow> (fst x = VK_SUCCESS \<longrightarrow> snd x \<noteq> 0)"

definition sc_lawful :: "import_icd \<Rightarrow> bool" where
  "sc_lawful k \<longleftrightarrow> import_lawful k \<and> handle_ok (i_image k)"

lemma anb_import_handles:
  assumes "sc_lawful k" "nvhal_anb_import types (ci, h, k) = (tr, Inr a)"
  shows "a_image a \<noteq> 0 \<and> a_memory a \<noteq> 0"
  using assms by (auto simp: nvhal_anb_import_def sc_lawful_def import_lawful_def handle_ok_def Let_def
    split: sum.splits prod.splits option.splits if_splits)

lemma sc_bind_sound:
  assumes "world_ok W" "sc_lawful k"
  shows "\<exists>tr objs r W'. nvhal_sc_bind dev d img h k fns W = Some (tr, objs, r, W') \<and> step_ok W tr W' \<and>
    map_option w_kind \<circ> image_map W' = map_option w_kind \<circ> image_map W"
  using assms(1)
proof (cases rule: wrapper_cases [where img = img])
  case none
  then show ?thesis using step_ok_same [OF assms(1)] by (simp add: nvhal_sc_bind_def)
next
  case (some w)
  obtain tr res where imp: "nvhal_anb_import (d_mem_types d) (sc_icd_ci w, h, k) = (tr, res)" by force
  have run: "run_ev M tr = Some (M + (case res of Inl _ \<Rightarrow> {#} | Inr a \<Rightarrow> imported_holds a))" for M
    using anbimport.op_frame [of "(sc_icd_ci w, h, k)" M "d_mem_types d"] assms(2) imp
    by (simp add: sc_lawful_def anbimport.held_by_def)
  show ?thesis
  proof (cases "w_kind w \<noteq> NVHAL_WRAP_SWAPCHAIN \<or> w_dev w \<noteq> dev \<or> w_real w \<noteq> 0")
    case True
    then show ?thesis using some step_ok_same [OF assms(1)] by (auto simp: nvhal_sc_bind_def)
  next
    case False
    show ?thesis
    proof (cases res)
      case (Inl r)
      then show ?thesis using False some imp run step_ok_same [OF assms(1)] by (simp add: nvhal_sc_bind_def)
    next
      case (Inr a)
      let ?w = "w\<lparr>w_memory := a_memory a, w_real := a_image a\<rparr>"
      have nz: "a_image a \<noteq> 0" "a_memory a \<noteq> 0" using anb_import_handles [OF assms(2)] imp Inr by auto
      have z: "w_memory w = 0" using some(5) False by (auto simp: image_ok_def)
      have "run_ev (wrapper_hold img w) tr = Some (wrapper_hold img ?w)"
        using run [of "wrapper_hold img w"] Inr nz z False by (simp add: wrapper_hold_def opt_hold_def imported_holds_def)
      then have "step_ok W tr (W\<lparr>images := (images W)(img \<mapsto> ?w)\<rparr>)"
        using set_image_sound [OF assms(1) some(1), of ?w tr] some(5) nz z by (simp add: image_ok_def)
      moreover have "map_option w_kind \<circ> image_map (W\<lparr>images := (images W)(img \<mapsto> ?w)\<rparr>) = map_option w_kind \<circ> image_map W"
        using some by (auto simp: image_map_def fun_eq_iff)
      ultimately show ?thesis using False some imp Inr by (simp add: nvhal_sc_bind_def)
    qed
  qed
qed

section \<open>Memory objects\<close>

lemma import_dmabuf_trace:
  "import_dmabuf k = (tr, res) \<Longrightarrow>
   run_ev M tr = Some (M + (case res of Inl _ \<Rightarrow> {#} | Inr mem \<Rightarrow> {#HMemory mem#}))"
  "import_dmabuf k = (tr, Inr mem) \<Longrightarrow> l_memory k = (VK_SUCCESS, mem)"
  by (auto simp: import_dmabuf_def Let_def split: prod.splits if_splits)

lemma alloc_for_image_Inr:
  assumes "alloc_for_image k ai b bits w = (tr, Inr (w', mem))"
  shows "w_real w = 0" "l_memory k = (VK_SUCCESS, mem)" "r_image (l_realise k) = (VK_SUCCESS, w_real w')"
    "w' = w\<lparr>w_memory := mem, w_real := w_real w'\<rparr>"
    "run_ev M tr = Some (M + {#HImage (w_real w'), HMemory mem#})"
proof -
  obtain t1 t2 real c where r: "realise (l_realise k) w b = (t1, Inr (real, c))" and i: "import_dmabuf k = (t2, Inr mem)"
    and w: "w_real w = 0" "w' = w\<lparr>w_memory := mem, w_real := real\<rparr>" "tr = t1 @ t2"
    using assms by (auto simp: alloc_for_image_def Let_def split: prod.splits sum.splits if_splits)
  show "w_real w = 0" by (rule w)
  show "l_memory k = (VK_SUCCESS, mem)" by (rule import_dmabuf_trace(2) [OF i])
  show "r_image (l_realise k) = (VK_SUCCESS, w_real w')" using realise_Inr(5) [OF r] w(2) by simp
  show "w' = w\<lparr>w_memory := mem, w_real := w_real w'\<rparr>" using w(2) by simp
  show "run_ev M tr = Some (M + {#HImage (w_real w'), HMemory mem#})"
    using realise_trace [OF r] import_dmabuf_trace(1) [OF i] w by (simp add: run_ev_append)
qed

lemma alloc_for_image_Inl:
  assumes "alloc_for_image k ai b bits w = (tr, Inl r)"
  shows "run_ev M tr = Some M"
proof -
  have r: "\<forall>M. run_ev M t = Some (M + (case x of Inl _ \<Rightarrow> {#} | Inr (img, _) \<Rightarrow> {#HImage img#}))" if "realise (l_realise k) w b = (t, x)" for t x
    using realise_trace [OF that] by blast
  have i: "\<forall>M. run_ev M t = Some (M + (case x of Inl _ \<Rightarrow> {#} | Inr mem \<Rightarrow> {#HMemory mem#}))" if "import_dmabuf k = (t, x)" for t x
    using import_dmabuf_trace(1) [OF that] by blast
  show ?thesis using assms
    by (auto simp: alloc_for_image_def Let_def run_ev_append dest!: r i split: prod.splits sum.splits if_splits)
qed

text \<open>The laws of the driver and the allocator: new handles and pointers are not null and not in use.\<close>

definition alloc_lawful :: "alloc_env \<Rightarrow> ahb_world \<Rightarrow> bool" where
  "alloc_lawful k W \<longleftrightarrow> handle_ok (r_image (l_realise k)) \<and> handle_ok (l_memory k) \<and>
     (fst (l_memory k) = VK_SUCCESS \<longrightarrow> memory_map W (snd (l_memory k)) = None) \<and>
     (l_ptr k \<noteq> 0 \<longrightarrow> memrecs W (l_ptr k) = None)"

text \<open>The wrapper a dedicated allocation is for.\<close>

definition dedicated_ok :: "ahb_world \<Rightarrow> handle \<Rightarrow> bool" where
  "dedicated_ok W p \<longleftrightarrow> p = 0 \<or> (\<exists>w. image_map W p = Some w \<and> w_kind w = NVHAL_WRAP_AHB)"

text \<open>Stage one: the driver objects exist and the wrapper knows them.\<close>

lemma alloc_memory_sound:
  assumes "world_ok W" "dedicated_ok W p" "alloc_lawful k W"
  shows "\<exists>tr res. alloc_memory k ai b bits p W = Some (tr, res) \<and>
    (case res of Inl r \<Rightarrow> run_ev (held W) tr = Some (held W)
     | Inr (mem, real, objs, W1) \<Rightarrow> world_ok W1 \<and> run_ev (held W) tr = Some (held W1 + {#HMemory mem#}) \<and>
         l_memory k = (VK_SUCCESS, mem) \<and> ahb_mems W1 = ahb_mems W \<and> memrecs W1 = memrecs W \<and>
         dom (image_map W1) = dom (image_map W) \<and> (\<forall>k v m. memory_map W k = Some (v, m) \<longrightarrow> p \<noteq> 0 \<longrightarrow> m_image m \<noteq> p) \<and>
         (if p = 0 then W1 = W
          else \<exists>w. image_map W1 p = Some w \<and> w_kind w = NVHAL_WRAP_AHB \<and> w_memory w = mem \<and> w_real w = real \<and> real \<noteq> 0))"
proof (cases "p = 0")
  case True
  then show ?thesis using assms(1) import_dmabuf_trace [of k]
    by (auto simp: alloc_memory_def split: prod.splits sum.splits)
next
  case False
  then obtain w where w: "image_map W p = Some w" "w_kind w = NVHAL_WRAP_AHB" using assms(2) by (auto simp: dedicated_ok_def)
  have p: "images W p = Some w" "image_ok w"
    using w wrapper_lookup(2) [of W p] assms(1) by (auto simp: world_ok_def ran_def)
  show ?thesis
  proof (cases "\<exists>tr r. alloc_for_image k ai b bits w = (tr, Inl r)")
    case True
    then show ?thesis using p False alloc_for_image_Inl by (auto simp: alloc_memory_def)
  next
    case ok: False
    then obtain tr w' mem where al: "alloc_for_image k ai b bits w = (tr, Inr (w', mem))"
      by (metis obj_sumE prod.collapse)
    note a = alloc_for_image_Inr [OF al]
    have w': "w_kind w' = NVHAL_WRAP_AHB" "w_memory w' = mem" by (subst a(4), simp add: w(2))+
    have nz: "w_real w' \<noteq> 0" "mem \<noteq> 0" using a(2,3) assms(3) by (auto simp: alloc_lawful_def handle_ok_def)
    have z: "w_memory w = 0" using p(2) a(1) by (auto simp: image_ok_def)
    have un: "m_image m \<noteq> p" if "memory_map W j = Some (v, m)" for j v m
      using unreferenced(2) [OF assms(1) that _ False p(1)] z by blast
    let ?W = "W\<lparr>images := (images W)(p \<mapsto> w')\<rparr>"
    note upd = update_image [OF assms(1) p(1), of w']
    have ok': "world_ok ?W" "memory_map ?W = memory_map W" "image_map ?W = (image_map W)(p \<mapsto> w')"
      using upd w w' nz un by (auto simp: image_ok_def)
    have "run_ev (held W) tr = Some (held W + {#HImage (w_real w'), HMemory mem#})" by (rule a(5))
    moreover have "held ?W = held W + {#HImage (w_real w')#}"
      using hold_all_upd [OF maps_finite(1), of wrapper_hold W p w'] hold_all_del [OF maps_finite(1) w(1), of wrapper_hold]
        w w' nz a(1) z unfolding held_def ok' by (simp add: wrapper_hold_def opt_hold_def)
    ultimately have "run_ev (held W) tr = Some (held ?W + {#HMemory mem#})" by simp
    then show ?thesis using ok' al p w w' nz a(2) un False by (auto simp: alloc_memory_def)
  qed
qed

text \<open>Stage two: the record.\<close>

lemma record_memory_sound:
  assumes "world_ok W" "mem \<noteq> 0" "memory_map W mem = None" "l_ptr k \<noteq> 0 \<longrightarrow> memrecs W (l_ptr k) = None"
    "p = 0 \<or> (\<exists>w. images W p = Some w \<and> w_kind w = NVHAL_WRAP_AHB \<and> w_memory w = mem)"
  shows "\<exists>t b W'. record_memory k dev buf p mem W = Some (t, b, W') \<and> world_ok W' \<and> image_map W' = image_map W \<and> images W' = images W \<and>
    (if b then (\<forall>M. run_ev M t = Some (M + {#HHeap (l_ptr k)#})) \<and> held W' = held W + {#HMemory mem, HHeap (l_ptr k), HAhb buf#} \<and>
             memory_map W' = (memory_map W)(mem \<mapsto> (l_ptr k, \<lparr>m_dev = dev, m_buffer = buf, m_image = p\<rparr>))
     else (\<forall>M. run_ev M t = Some M) \<and> held W' = held W \<and> memory_map W' = memory_map W)"
proof (cases "l_ptr k = 0")
  case True
  then show ?thesis using assms(1) by (auto simp: record_memory_def)
next
  case False
  let ?v = "l_ptr k" and ?m = "\<lparr>m_dev = dev, m_buffer = buf, m_image = p\<rparr>"
  have t: "tables_ok W" "hash_inv (ahb_mems W)" using assms(1) by (auto simp: world_ok_def tables_ok_def)
  obtain b h where put: "nvhal_hash_put (l_put k) (ahb_mems W) mem ?v = Some (b, h)"
    using hhash.put_returns [OF t(2)] by fastforce
  have h: "hash_inv h" by (rule hhash.put_inv [OF t(2) put])
  show ?thesis
  proof (cases b)
    case False
    then have same: "hash_abs h = hash_abs (ahb_mems W)" using hhash.put_failed [OF t(2)] put by simp
    define W' where "W' = W\<lparr>ahb_mems := h\<rparr>"
    have maps: "image_map W' = image_map W" "memory_map W' = memory_map W" "images W' = images W"
      by (rule image_map_cong memory_map_cong; simp add: W'_def same)+ (simp add: W'_def)
    have "world_ok W'" using assms(1) h same unfolding world_ok_def maps by (simp add: tables_ok_def W'_def)
    moreover have "held W' = held W" by (simp add: held_def maps)
    ultimately show ?thesis using put False maps \<open>l_ptr k \<noteq> 0\<close> by (auto simp: record_memory_def W'_def [symmetric])
  next
    case True
    then have abs: "hash_abs h = (hash_abs (ahb_mems W))(mem \<mapsto> ?v)" using hhash.put_done [OF t(2)] put by simp
    have new: "hash_abs (ahb_mems W) j \<noteq> Some ?v" for j using t(1) assms(4) False unfolding tables_ok_def by metis
    define W' where "W' = W\<lparr>ahb_mems := h, memrecs := (memrecs W)(?v \<mapsto> ?m)\<rparr>"
    have mm: "memory_map W' = (memory_map W)(mem \<mapsto> (?v, ?m))"
      using new by (auto simp: memory_map_def W'_def abs fun_eq_iff split: option.splits)
    have im: "image_map W' = image_map W" by (rule image_map_cong) (simp_all add: W'_def)
    have "tables_ok W'" using t(1) h new False unfolding tables_ok_def W'_def by (auto simp: abs split: if_splits)
    moreover have "refs_ok (images W') (memory_map W')"
      using assms(1,5) unfolding world_ok_def refs_ok_def mm by (auto simp: W'_def)
    ultimately have "world_ok W'" using assms(1) by (simp add: world_ok_def im)
    moreover have "held W' = held W + {#HMemory mem, HHeap ?v, HAhb buf#}"
      using hold_all_new [OF maps_finite(2) assms(3), of memory_hold "(?v, ?m)"] by (simp add: held_def im mm memory_hold_def)
    moreover have "images W' = images W" by (simp add: W'_def)
    ultimately show ?thesis using put True mm im \<open>l_ptr k \<noteq> 0\<close> by (auto simp: record_memory_def W'_def [symmetric])
  qed
qed

lemma unrealise_sound:
  assumes "world_ok W" "image_map W p = Some w" "w_kind w = NVHAL_WRAP_AHB" "w_real w \<noteq> 0"
    "\<And>k v m. memory_map W k = Some (v, m) \<Longrightarrow> m_image m \<noteq> p"
  shows "world_ok (unrealise p W)" "held W = held (unrealise p W) + {#HImage (w_real w)#}"
    "memory_map (unrealise p W) = memory_map W" "dom (image_map (unrealise p W)) = dom (image_map W)"
proof -
  have p: "images W p = Some w" "p \<noteq> 0" using wrapper_lookup(2) [of W p] assms(1,2) by (auto simp: world_ok_def)
  let ?w = "w\<lparr>w_real := 0, w_memory := 0\<rparr>"
  have W': "unrealise p W = W\<lparr>images := (images W)(p \<mapsto> ?w)\<rparr>" using p by (simp add: unrealise_def)
  note upd = update_image [OF assms(1) p(1), of ?w]
  have ok': "world_ok (unrealise p W)" "memory_map (unrealise p W) = memory_map W" "image_map (unrealise p W) = (image_map W)(p \<mapsto> ?w)"
    using upd assms unfolding W' by (auto simp: image_ok_def)
  show "world_ok (unrealise p W)" "memory_map (unrealise p W) = memory_map W" by (rule ok')+
  show "dom (image_map (unrealise p W)) = dom (image_map W)" using assms(2) by (auto simp: ok')
  show "held W = held (unrealise p W) + {#HImage (w_real w)#}"
    using hold_all_upd [OF maps_finite(1), of wrapper_hold W p ?w] hold_all_del [OF maps_finite(1) assms(2), of wrapper_hold]
      assms(3,4) unfolding held_def ok' by (simp add: wrapper_hold_def opt_hold_def)
qed

definition owned_ref :: "bool \<Rightarrow> handle \<Rightarrow> hal_res multiset" where
  "owned_ref owned buf = (if owned then {#HAhb buf#} else {#})"

definition alloc_spec :: "alloc_env \<Rightarrow> handle \<Rightarrow> handle \<Rightarrow> handle \<Rightarrow> ahb_world \<Rightarrow> vk_result + handle \<Rightarrow> ahb_world \<Rightarrow> bool" where
  "alloc_spec k dev buf p W r W' \<longleftrightarrow> dom (image_map W') = dom (image_map W) \<and>
    (case r of Inl _ \<Rightarrow> memory_map W' = memory_map W
     | Inr mem \<Rightarrow> memory_map W mem = None \<and> memory_map W' = (memory_map W)(mem \<mapsto> (l_ptr k, \<lparr>m_dev = dev, m_buffer = buf, m_image = p\<rparr>)))"

definition stage_one :: "alloc_env \<Rightarrow> handle \<Rightarrow> ahb_world \<Rightarrow> hal_res ev list \<Rightarrow> handle \<Rightarrow> handle \<Rightarrow> ahb_world \<Rightarrow> bool" where
  "stage_one k p W tr mem real W1 \<longleftrightarrow> world_ok W1 \<and> run_ev (held W) tr = Some (held W1 + {#HMemory mem#}) \<and>
     l_memory k = (VK_SUCCESS, mem) \<and> ahb_mems W1 = ahb_mems W \<and> memrecs W1 = memrecs W \<and>
     dom (image_map W1) = dom (image_map W) \<and> (\<forall>k v m. memory_map W k = Some (v, m) \<longrightarrow> p \<noteq> 0 \<longrightarrow> m_image m \<noteq> p) \<and>
     (if p = 0 then W1 = W
      else \<exists>w. image_map W1 p = Some w \<and> w_kind w = NVHAL_WRAP_AHB \<and> w_memory w = mem \<and> w_real w = real \<and> real \<noteq> 0)"

text \<open>From the end of stage one.\<close>

lemma alloc_recorded:
  assumes "stage_one k p W tr mem real W1" "alloc_lawful k W"
    and op: "alloc_from_buffer k dev ai owned buf p W =
      (case record_memory k dev buf p mem W1 of
          None \<Rightarrow> None
        | Some (t2, False, W2) \<Rightarrow>
            Some (tr @ t2 @ (if p \<noteq> 0 then [Rel (HImage real)] else []) @ [Rel (HMemory mem)] @ (if owned then [Rel (HAhb buf)] else []), objs,
              Inl VK_ERROR_OUT_OF_HOST_MEMORY, unrealise p W2)
        | Some (t2, True, W2) \<Rightarrow>
            Some (tr @ t2 @ (if owned then [] else [Acq (HAhb buf)]), objs, Inr mem, W2))"
  shows "\<exists>tr objs r W'. alloc_from_buffer k dev ai owned buf p W = Some (tr, objs, r, W') \<and> world_ok W' \<and>
    run_ev (held W + owned_ref owned buf) tr = Some (held W') \<and> alloc_spec k dev buf p W r W'"
proof -
  note sp = assms(1) [unfolded stage_one_def]
  have mm1: "memory_map W1 = memory_map W" by (rule memory_map_cong) (use sp in simp_all)
  have mem: "mem \<noteq> 0" "memory_map W1 mem = None" "l_ptr k \<noteq> 0 \<longrightarrow> memrecs W1 (l_ptr k) = None"
    using sp assms(2) mm1 by (simp_all add: alloc_lawful_def handle_ok_def)
  have ok1: "world_ok W1" using sp by blast
  have ded: "p = 0 \<or> (\<exists>w. images W1 p = Some w \<and> w_kind w = NVHAL_WRAP_AHB \<and> w_memory w = mem)"
    using sp wrapper_lookup(2) [of W1 p] by (cases "p = 0") (auto simp: world_ok_def)
  obtain t2 b2 W2 where rec: "record_memory k dev buf p mem W1 = Some (t2, b2, W2)" "world_ok W2" "image_map W2 = image_map W1"
    "if b2 then (\<forall>M. run_ev M t2 = Some (M + {#HHeap (l_ptr k)#})) \<and> held W2 = held W1 + {#HMemory mem, HHeap (l_ptr k), HAhb buf#} \<and>
         memory_map W2 = (memory_map W1)(mem \<mapsto> (l_ptr k, \<lparr>m_dev = dev, m_buffer = buf, m_image = p\<rparr>))
     else (\<forall>M. run_ev M t2 = Some M) \<and> held W2 = held W1 \<and> memory_map W2 = memory_map W1"
    using record_memory_sound [OF ok1 mem ded] by blast
  have run: "run_ev (held W + owned_ref owned buf) tr = Some (owned_ref owned buf + held W1 + {#HMemory mem#})"
    using run_ev_frame [of "held W" tr _ "owned_ref owned buf"] sp by (simp add: ac_simps)
  show ?thesis
  proof (cases b2)
    case True
    have "run_ev (held W + owned_ref owned buf) (tr @ t2 @ (if owned then [] else [Acq (HAhb buf)])) = Some (held W2)"
      using run rec(4) True by (simp add: run_ev_append owned_ref_def)
    moreover have "alloc_spec k dev buf p W (Inr mem) W2" using rec True sp mem(2) mm1 by (simp add: alloc_spec_def)
    ultimately show ?thesis using op rec(1,2) True by simp
  next
    case False
    have un: "world_ok (unrealise p W2) \<and> held W2 = held (unrealise p W2) + (if p \<noteq> 0 then {#HImage real#} else {#}) \<and>
      memory_map (unrealise p W2) = memory_map W \<and> dom (image_map (unrealise p W2)) = dom (image_map W)"
    proof (cases "p = 0")
      case True
      then show ?thesis using rec False sp mm1 by (simp add: unrealise_def split: option.splits)
    next
      case p: False
      then obtain w where "image_map W1 p = Some w" "w_kind w = NVHAL_WRAP_AHB" "w_real w = real" "real \<noteq> 0" using sp by auto
      then show ?thesis using unrealise_sound [OF rec(2), of p w] rec(3,4) p False sp mm1 by simp
    qed
    have t2: "\<And>M. run_ev M t2 = Some M" and h1: "held W1 = held (unrealise p W2) + (if p \<noteq> 0 then {#HImage real#} else {#})"
      using rec(4) False un by auto
    have "run_ev (held W + owned_ref owned buf) (tr @ t2 @ (if p \<noteq> 0 then [Rel (HImage real)] else []) @ [Rel (HMemory mem)] @
        (if owned then [Rel (HAhb buf)] else [])) = Some (held (unrealise p W2))"
      using run t2 unfolding h1 by (cases "p = 0") (simp_all add: run_ev_append owned_ref_def)
    moreover have "alloc_spec k dev buf p W (Inl VK_ERROR_OUT_OF_HOST_MEMORY) (unrealise p W2)" using un by (simp add: alloc_spec_def)
    ultimately show ?thesis using op rec(1) False un by simp
  qed
qed

lemma alloc_from_buffer_sound:
  assumes "world_ok W" "dedicated_ok W p" "alloc_lawful k W"
  shows "\<exists>tr objs r W'. alloc_from_buffer k dev ai owned buf p W = Some (tr, objs, r, W') \<and> world_ok W' \<and>
    run_ev (held W + owned_ref owned buf) tr = Some (held W') \<and> alloc_spec k dev buf p W r W'"
proof -
  let ?fail = "if owned then [Rel (HAhb buf)] else []"
  let ?op = "alloc_from_buffer k dev ai owned buf p W"
  have fail: ?thesis if "run_ev (held W) tr = Some (held W)" "?op = Some (tr @ ?fail, [], Inl r, W)" for tr r
  proof -
    have "run_ev (held W + owned_ref owned buf) (tr @ ?fail) = Some (held W)"
      using run_ev_frame [OF that(1), of "owned_ref owned buf"] by (simp add: run_ev_append owned_ref_def add.commute)
    moreover have "alloc_spec k dev buf p W (Inl r) W" by (simp add: alloc_spec_def)
    ultimately show ?thesis using assms(1) that(2) by blast
  qed
  consider (early) r where "?op = Some (?fail, [], Inl r, W)"
    | (go) b where "gbuf_get buf (l_buffer k) = Inr b" "\<not> (\<not> owned \<and> ai_size ai \<noteq> b_size b)" "fst (l_fdprops k) = VK_SUCCESS"
    unfolding alloc_from_buffer_def Let_def by (cases "gbuf_get buf (l_buffer k)") (simp_all, metis)
  then show ?thesis
  proof cases
    case early
    then show ?thesis using fail [of "[]"] by simp
  next
    case go
    obtain tr res where am: "alloc_memory k ai b (snd (l_fdprops k)) p W = Some (tr, res)"
      and spec: "case res of Inl r \<Rightarrow> run_ev (held W) tr = Some (held W) | Inr (mem, real, objs, W1) \<Rightarrow> stage_one k p W tr mem real W1"
      using alloc_memory_sound [OF assms, of ai b "snd (l_fdprops k)"] unfolding stage_one_def by blast
    show ?thesis
    proof (cases res)
      case (Inl r)
      then have "?op = Some (tr @ ?fail, [], Inl r, W)" using am go by (auto simp: alloc_from_buffer_def)
      then show ?thesis using fail Inl spec by simp
    next
      case (Inr x)
      obtain mem real objs W1 where x: "x = (mem, real, objs, W1)" by (cases x)
      show ?thesis
      proof (rule alloc_recorded [OF _ assms(3)])
        show "stage_one k p W tr mem real W1" using spec by (simp add: Inr x)
      qed (use am go(1,3) in \<open>simp add: Inr x alloc_from_buffer_def Let_def if_not_P [OF go(2)]\<close>)
    qed
  qed
qed

lemma dedicated_lookup:
  assumes "world_ok W" "p = wrapper W i" "\<And>w. images W p = Some w \<Longrightarrow> p \<noteq> 0 \<Longrightarrow> w_kind w \<noteq> NVHAL_WRAP_SWAPCHAIN"
  shows "dedicated_ok W p"
  using assms(1)
proof (cases rule: wrapper_cases [where img = i])
  case none
  then show ?thesis using assms(2) by (simp add: dedicated_ok_def)
next
  case (some w)
  then have "w_kind w = NVHAL_WRAP_AHB" using assms(2,3) by (cases "w_kind w") (auto simp: image_ok_def)
  then show ?thesis using some assms(2) by (auto simp: dedicated_ok_def)
qed

text \<open>Memory that concerns no hardware buffer belongs to the app (\<open>HMemory mem\<close> beside what the tables hold).\<close>

definition app_memory :: "ahb_world \<Rightarrow> vk_result + handle \<Rightarrow> hal_res multiset" where
  "app_memory W r = (case r of Inl _ \<Rightarrow> {#} | Inr mem \<Rightarrow> if memory_map W mem = None then {#HMemory mem#} else {#})"

lemma allocate_sound:
  assumes "world_ok W" "alloc_lawful k W"
  shows "\<exists>tr objs r W'. nvhal_AllocateMemory k dev d ai W = Some (tr, objs, r, W') \<and> world_ok W' \<and>
    run_ev (held W) tr = Some (held W' + app_memory W' r) \<and> dom (image_map W') = dom (image_map W)"
proof -
  let ?op = "nvhal_AllocateMemory k dev d ai W"
  define p0 where "p0 = (case dedicated (ai_next ai) of Some (i, _) \<Rightarrow> wrapper W i | None \<Rightarrow> 0)"
  define p where "p = (if p0 = 0 then (case dedicated_nv (ai_next ai) of Some (i, _) \<Rightarrow> wrapper W i | None \<Rightarrow> 0) else p0)"
  define i where "i = (if p0 = 0 then (case dedicated_nv (ai_next ai) of Some (i, _) \<Rightarrow> i | None \<Rightarrow> 0)
    else (case dedicated (ai_next ai) of Some (i, _) \<Rightarrow> i | None \<Rightarrow> 0))"
  have "wrapper W 0 = 0" by (simp add: wrapper_def)
  then have i: "p = wrapper W i" by (simp add: p_def i_def p0_def split: option.splits prod.splits)
  have live: "p \<noteq> 0 \<Longrightarrow> \<exists>w. images W p = Some w"
    using assms(1) i by (cases rule: wrapper_cases [where img = i]) auto
  define G where "G x \<longleftrightarrow> (\<exists>tr objs r W'. x = Some (tr, objs :: obj_call list, r, W') \<and> world_ok W' \<and>
    run_ev (held W) tr = Some (held W' + app_memory W' r) \<and> dom (image_map W') = dom (image_map W))" for x
  have fail: "G (Some ([], [], Inl r, W))" for r using assms(1) by (simp add: G_def app_memory_def)
  have plain: "G (Some ([Acq (HMemory mem)], [], Inr mem, W))" if "l_memory k = (r, mem)" "r = VK_SUCCESS" for r mem
    using that assms by (simp add: G_def app_memory_def alloc_lawful_def)
  have built: "G (alloc_from_buffer k dev ai False buf p W)"
    "G (map_option (\<lambda>(tr, x). (Acq (HAhb buf) # tr, x)) (alloc_from_buffer k dev ai True buf p W))"
    if "\<And>w. images W p = Some w \<Longrightarrow> p \<noteq> 0 \<Longrightarrow> w_kind w \<noteq> NVHAL_WRAP_SWAPCHAIN" for buf
  proof -
    have ded: "dedicated_ok W p" by (rule dedicated_lookup [OF assms(1) i that])
    have spec: "\<exists>tr objs r W'. alloc_from_buffer k dev ai owned buf p W = Some (tr, objs, r, W') \<and> world_ok W' \<and>
      run_ev (held W + owned_ref owned buf) tr = Some (held W' + app_memory W' r) \<and> dom (image_map W') = dom (image_map W)" for owned
      using alloc_from_buffer_sound [OF assms(1) ded assms(2), of dev ai owned buf]
      by (fastforce simp: alloc_spec_def app_memory_def split: sum.splits)
    show "G (alloc_from_buffer k dev ai False buf p W)" using spec [of False] by (auto simp: G_def owned_ref_def)
    show "G (map_option (\<lambda>(tr, x). (Acq (HAhb buf) # tr, x)) (alloc_from_buffer k dev ai True buf p W))"
      using spec [of True] by (auto simp: G_def owned_ref_def)
  qed
  have "G ?op"
  proof (cases "p = 0")
    case True
    have "G (alloc_from_buffer k dev ai False buf 0 W)" for buf using built(1) True by simp
    then show ?thesis unfolding nvhal_AllocateMemory_def Let_def p0_def [symmetric] p_def [symmetric] True
      using True by (auto intro!: fail plain split: prod.split)
  next
    case False
    then obtain w where w: "images W p = Some w" using live by blast
    show ?thesis
    proof (cases "w_kind w = NVHAL_WRAP_SWAPCHAIN")
      case True
      then show ?thesis unfolding nvhal_AllocateMemory_def Let_def p0_def [symmetric] p_def [symmetric]
        using False w by (auto intro!: fail)
    next
      case kind: False
      then show ?thesis unfolding nvhal_AllocateMemory_def Let_def p0_def [symmetric] p_def [symmetric]
        using False w built by (auto intro!: fail split: prod.split)
    qed
  qed
  then show ?thesis unfolding G_def .
qed

text \<open>The table forgets a memory object; its record is still in the heap.\<close>

lemma forget_memory:
  assumes "world_ok W" "mem \<noteq> 0" "nvhal_hash_del (ahb_mems W) mem = (v, h)"
  shows "world_ok (W\<lparr>ahb_mems := h\<rparr>)" "memory_map (W\<lparr>ahb_mems := h\<rparr>) = (memory_map W)(mem := None)"
    "image_map (W\<lparr>ahb_mems := h\<rparr>) = image_map W" "v = (case memory_map W mem of None \<Rightarrow> 0 | Some (v, m) \<Rightarrow> v)"
proof -
  have t: "tables_ok W" "hash_inv (ahb_mems W)" using assms(1) by (auto simp: world_ok_def tables_ok_def)
  have abs: "hash_abs h = (hash_abs (ahb_mems W))(mem := None)" "hash_inv h" "v = nvhal_hash_get (ahb_mems W) mem"
    using hhash.del_abs [OF t(2), of mem] hhash.del_inv [OF t(2), of mem] hhash.del_ret [OF t(2), of mem] assms(3) by simp_all
  show mm: "memory_map (W\<lparr>ahb_mems := h\<rparr>) = (memory_map W)(mem := None)"
    by (auto simp: memory_map_def abs fun_eq_iff split: option.splits)
  show im: "image_map (W\<lparr>ahb_mems := h\<rparr>) = image_map W" by (rule image_map_cong) simp_all
  show "v = (case memory_map W mem of None \<Rightarrow> 0 | Some (v, m) \<Rightarrow> v)" using abs(3) memory_lookup(1) [OF t(1)] by simp
  have "tables_ok (W\<lparr>ahb_mems := h\<rparr>)" using t(1) abs unfolding tables_ok_def by (auto split: if_splits)
  then show "world_ok (W\<lparr>ahb_mems := h\<rparr>)" using assms(1) unfolding world_ok_def mm im refs_ok_def by (auto split: if_splits)
qed

text \<open>The record leaves the heap once no table entry points to it.\<close>

lemma drop_record:
  assumes "world_ok W" "\<And>k m. memory_map W k \<noteq> Some (v, m)"
  shows "world_ok (W\<lparr>memrecs := (memrecs W)(v := None)\<rparr>)" "memory_map (W\<lparr>memrecs := (memrecs W)(v := None)\<rparr>) = memory_map W"
    "image_map (W\<lparr>memrecs := (memrecs W)(v := None)\<rparr>) = image_map W"
proof -
  have t: "tables_ok W" using assms(1) by (simp add: world_ok_def)
  have new: "hash_abs (ahb_mems W) k \<noteq> Some v" for k
    using assms(2) [of k] t by (fastforce simp: memory_map_def tables_ok_def)
  show mm: "memory_map (W\<lparr>memrecs := (memrecs W)(v := None)\<rparr>) = memory_map W"
    using new by (auto simp: memory_map_def fun_eq_iff split: option.splits)
  show im: "image_map (W\<lparr>memrecs := (memrecs W)(v := None)\<rparr>) = image_map W" by (rule image_map_cong) simp_all
  have "tables_ok (W\<lparr>memrecs := (memrecs W)(v := None)\<rparr>)" using t new unfolding tables_ok_def by auto
  then show "world_ok (W\<lparr>memrecs := (memrecs W)(v := None)\<rparr>)" using assms(1) unfolding world_ok_def mm im by simp
qed

lemma forget_image_memory:
  assumes "world_ok W" "images W p = Some w" "w_kind w = NVHAL_WRAP_AHB" "\<And>k v m. memory_map W k = Some (v, m) \<Longrightarrow> m_image m \<noteq> p"
  defines "W' \<equiv> W\<lparr>images := (images W)(p \<mapsto> w\<lparr>w_memory := 0\<rparr>)\<rparr>"
  shows "world_ok W'" "held W' = held W" "memory_map W' = memory_map W" "dom (image_map W') = dom (image_map W)"
proof -
  note upd = update_image [OF assms(1,2), of "w\<lparr>w_memory := 0\<rparr>"]
  have ok': "world_ok W'" "memory_map W' = memory_map W"
    "image_map W' = (if image_map W p = None then image_map W else (image_map W)(p \<mapsto> w\<lparr>w_memory := 0\<rparr>))"
    using upd assms(3,4) by (auto simp: image_ok_def W'_def)
  show "world_ok W'" "memory_map W' = memory_map W" by (rule ok')+
  show "dom (image_map W') = dom (image_map W)" by (auto simp: ok' split: if_splits)
  show "held W' = held W"
  proof (cases "image_map W p")
    case None
    then show ?thesis by (simp add: held_def ok')
  next
    case (Some w0)
    then have "w0 = w" using assms(2) by (auto simp: image_map_def split: if_splits)
    then show ?thesis using Some hold_all_upd [OF maps_finite(1), of wrapper_hold W p "w\<lparr>w_memory := 0\<rparr>"]
        hold_all_del [OF maps_finite(1) Some, of wrapper_hold] assms(3) by (simp add: held_def ok' wrapper_hold_def)
  qed
qed

definition app_freed :: "ahb_world \<Rightarrow> handle \<Rightarrow> hal_res multiset" where
  "app_freed W mem = (if mem \<noteq> 0 \<and> memory_map W mem = None then {#HMemory mem#} else {#})"

lemma free_eq:
  assumes "mem \<noteq> 0" "nvhal_hash_del (ahb_mems W) mem = (v, h)" "v \<noteq> 0" "memrecs W v = Some m"
    "(if m_image m = 0 then Some (W\<lparr>ahb_mems := h\<rparr>)
      else map_option (\<lambda>w. W\<lparr>ahb_mems := h, images := (images (W\<lparr>ahb_mems := h\<rparr>))(m_image m \<mapsto> w\<lparr>w_memory := 0\<rparr>)\<rparr>)
        (images (W\<lparr>ahb_mems := h\<rparr>) (m_image m))) = Some W2"
  shows "nvhal_FreeMemory mem W = Some (rel_if mem (HMemory mem) @ [Rel (HAhb (m_buffer m)), Rel (HHeap v)],
    W2\<lparr>memrecs := (memrecs W2)(v := None)\<rparr>)"
proof -
  have "(if mem \<noteq> 0 then nvhal_hash_del (ahb_mems W) mem else (0, ahb_mems W)) = (v, h)" using assms(1,2) by simp
  moreover have "memrecs (W\<lparr>ahb_mems := h\<rparr>) v = Some m" using assms(4) by simp
  ultimately show ?thesis unfolding nvhal_FreeMemory_def Let_def using assms(3)
    by (simp only: prod.case if_False option.case assms(5))
qed

lemma free_sound:
  assumes "world_ok W"
  shows "\<exists>tr W'. nvhal_FreeMemory mem W = Some (tr, W') \<and> world_ok W' \<and> memory_map W' = (memory_map W)(mem := None) \<and>
    run_ev (held W + app_freed W mem) tr = Some (held W') \<and> dom (image_map W') = dom (image_map W)"
proof (cases "mem = 0")
  case True
  then have "memory_map W mem = None" using memory_lookup(2) [of W mem] assms by (cases "memory_map W mem") (auto simp: world_ok_def)
  then show ?thesis using True assms by (simp add: nvhal_FreeMemory_def app_freed_def rel_if_def fun_upd_idem)
next
  case False
  obtain v h where del: "nvhal_hash_del (ahb_mems W) mem = (v, h)" by force
  define W1 where "W1 = W\<lparr>ahb_mems := h\<rparr>"
  note f = forget_memory [OF assms False del, folded W1_def]
  show ?thesis
  proof (cases "memory_map W mem")
    case None
    then have "held W1 = held W" "memory_map W1 = memory_map W" using f by (simp_all add: held_def fun_upd_idem)
    then show ?thesis using None False del f by (simp add: nvhal_FreeMemory_def app_freed_def rel_if_def W1_def [symmetric])
  next
    case (Some vm)
    then obtain m where m: "memory_map W mem = Some (v, m)" using f(4) by (cases vm) auto
    have l: "v \<noteq> 0" "memrecs W1 v = Some m" using memory_lookup(2) [OF _ m] assms by (auto simp: world_ok_def W1_def)
    have h1: "held W = held W1 + memory_hold mem (v, m)"
      using hold_all_del [OF maps_finite(2) m, of memory_hold] by (simp add: held_def f ac_simps)
    obtain W2 where W2: "(if m_image m = 0 then Some W1
           else map_option (\<lambda>w. W1\<lparr>images := (images W1)(m_image m \<mapsto> w\<lparr>w_memory := 0\<rparr>)\<rparr>) (images W1 (m_image m))) = Some W2"
      "world_ok W2" "held W2 = held W1" "memory_map W2 = memory_map W1" "dom (image_map W2) = dom (image_map W1)"
    proof (cases "m_image m = 0")
      case True
      then show ?thesis using that f(1) by simp
    next
      case p: False
      obtain w where w: "images W1 (m_image m) = Some w" "w_kind w = NVHAL_WRAP_AHB" "w_memory w = mem"
        using assms m p unfolding world_ok_def refs_ok_def W1_def by fastforce
      have "m_image m' \<noteq> m_image m" if "memory_map W1 k = Some (v', m')" for k v' m'
        using unreferenced(1) [OF f(1) that _ p w(1)] w(3) that f(2) by auto
      note fm = forget_image_memory [OF f(1) w(1,2) this]
      show ?thesis by (rule that [OF _ fm]) (use p w(1) in simp_all)
    qed
    have "memory_map W2 k \<noteq> Some (v, m')" for k m'
    proof
      assume "memory_map W2 k = Some (v, m')"
      then have "k \<noteq> mem" "memory_map W k = Some (v, m')" using W2(4) f(2) by (auto split: if_splits)
      then show False using memory_inj [of W] m assms unfolding world_ok_def by blast
    qed
    note d0 = drop_record [OF W2(2) this]
    define W3 where "W3 = W2\<lparr>memrecs := (memrecs W2)(v := None)\<rparr>"
    note d = d0 [folded W3_def]
    have "run_ev (held W) (rel_if mem (HMemory mem) @ [Rel (HAhb (m_buffer m)), Rel (HHeap v)]) = Some (held W1)"
      unfolding h1 using False by (simp add: rel_if_def memory_hold_def)
    moreover have "held W3 = held W1" using d W2(3) by (simp add: held_def)
    moreover have "nvhal_FreeMemory mem W = Some (rel_if mem (HMemory mem) @ [Rel (HAhb (m_buffer m)), Rel (HHeap v)], W3)"
      unfolding W3_def by (rule free_eq [OF False del l(1) _ W2(1) [unfolded W1_def]]) (use l(2) in \<open>simp add: W1_def\<close>)
    moreover have "memory_map W3 = (memory_map W)(mem := None)" "dom (image_map W3) = dom (image_map W)"
      using d(2,3) W2(4,5) f(2,3) by simp_all
    moreover have "app_freed W mem = {#}" using m by (simp add: app_freed_def)
    ultimately show ?thesis using d(1) by simp
  qed
qed

lemma get_memory_sound:
  assumes "world_ok W"
  shows "\<exists>tr r. nvhal_GetMemoryAndroidHardwareBufferANDROID d mem W = Some (tr, r) \<and>
    run_ev M tr = Some (M + (case r of Inl _ \<Rightarrow> {#} | Inr buf \<Rightarrow> {#HAhb buf#})) \<and>
    (case r of Inl _ \<Rightarrow> True | Inr buf \<Rightarrow> \<exists>v m. memory_map W mem = Some (v, m) \<and> m_buffer m = buf)"
proof -
  have t: "tables_ok W" using assms by (simp add: world_ok_def)
  show ?thesis
  proof (cases "memory_map W mem")
    case None
    then show ?thesis using memory_lookup(1) [OF t, of mem]
      by (simp add: nvhal_GetMemoryAndroidHardwareBufferANDROID_def Let_def)
  next
    case (Some vm)
    obtain v m where vm: "vm = (v, m)" by force
    then show ?thesis using memory_lookup [OF t, of mem] Some
      by (simp add: nvhal_GetMemoryAndroidHardwareBufferANDROID_def Let_def)
  qed
qed

section \<open>Binding\<close>

lemma sc_binds_sound:
  assumes "world_ok W" "list_all (\<lambda>b. sc_lawful (icd (bi_image b))) bs"
  shows "\<exists>tr objs sts r' W'. sc_binds dev d icd fns bs r W = Some (tr, objs, sts, r', W') \<and> world_ok W' \<and>
    run_ev (held W) tr = Some (held W') \<and> map_option w_kind \<circ> image_map W' = map_option w_kind \<circ> image_map W"
  using assms
proof (induction bs arbitrary: r W)
  case Nil
  then show ?case by simp
next
  case (Cons b bs)
  obtain kind where kind: "nvhal_image_wrapper_kind W (bi_image b) = Some kind"
    using Cons.prems(1) by (cases rule: wrapper_cases [where img = "bi_image b"]) (auto simp: nvhal_image_wrapper_kind_def)
  have rest: "list_all (\<lambda>b. sc_lawful (icd (bi_image b))) bs" "sc_lawful (icd (bi_image b))" using Cons.prems(2) by simp_all
  show ?case
  proof (cases "kind = NVHAL_WRAP_SWAPCHAIN")
    case False
    then show ?thesis using kind Cons.IH [OF Cons.prems(1) rest(1), of r] by simp
  next
    case True
    obtain tr objs ri W1 where s: "nvhal_sc_bind dev d (bi_image b) (first_native_buffer (bi_next b)) (icd (bi_image b)) fns W = Some (tr, objs, ri, W1)"
      "step_ok W tr W1" "map_option w_kind \<circ> image_map W1 = map_option w_kind \<circ> image_map W"
      using sc_bind_sound [OF Cons.prems(1) rest(2)] by blast
    have "world_ok W1" "run_ev (held W) tr = Some (held W1)" using s(2) by (simp_all add: step_ok_def)
    then show ?thesis using Cons.IH [OF \<open>world_ok W1\<close> rest(1), of "if ri \<noteq> VK_SUCCESS \<and> r = VK_SUCCESS then ri else r"] kind True s(1,3)
      by (auto simp: run_ev_append)
  qed
qed

lemma translate_total: "world_ok W \<Longrightarrow> \<exists>res. translate_from W room c bs = Some res"
proof (induction bs arbitrary: c)
  case (Cons b bs)
  show ?case using Cons.prems
  proof (cases rule: wrapper_cases [where img = "bi_image b"])
    case none
    then show ?thesis using Cons.IH [OF Cons.prems, of c] by auto
  next
    case (some w)
    then show ?thesis using Cons.IH [OF Cons.prems, of True] by auto
  qed
qed simp

lemma binds_checked_total: "world_ok W \<Longrightarrow> \<exists>r. binds_checked W bs = Some r"
proof (induction bs)
  case (Cons b bs)
  have "\<exists>kind. nvhal_image_wrapper_kind W (bi_image b) = Some kind"
    using Cons.prems by (cases rule: wrapper_cases [where img = "bi_image b"]) (auto simp: nvhal_image_wrapper_kind_def)
  then show ?case using Cons by (auto simp: bind_checked_def)
qed simp

lemma bind2_sound:
  assumes "world_ok W" "list_all (\<lambda>b. sc_lawful (k_import k (bi_image b))) infos"
  shows "\<exists>tr objs sts bs r W'. bind2 k dev d infos W = Some (tr, objs, sts, bs, r, W') \<and> world_ok W' \<and>
    run_ev (held W) tr = Some (held W') \<and> dom (image_map W') = dom (image_map W)"
proof -
  obtain r0 where r0: "binds_checked W infos = Some r0" using binds_checked_total [OF assms(1)] by blast
  obtain tr objs sts r W1 where s: "sc_binds dev d (k_import k) (k_fns k) infos VK_SUCCESS W = Some (tr, objs, sts, r, W1)" "world_ok W1"
    "run_ev (held W) tr = Some (held W1)" "map_option w_kind \<circ> image_map W1 = map_option w_kind \<circ> image_map W"
    using sc_binds_sound [OF assms, of dev d "k_fns k" VK_SUCCESS] by blast
  have "image_map W1 p = None \<longleftrightarrow> image_map W p = None" for p using fun_cong [OF s(4), of p] by (auto split: option.splits)
  then have dom: "dom (image_map W1) = dom (image_map W)" by (simp add: dom_def)
  have tb: "\<exists>res. nvhal_ahb_translate_binds W1 m bs = Some res" for m bs
    using translate_total [OF s(2)] by (simp add: nvhal_ahb_translate_binds_def)
  show ?thesis
  proof (cases "r0 = VK_SUCCESS")
    case False
    then show ?thesis using r0 assms(1) by (simp add: bind2_def)
  next
    case True
    obtain res where "nvhal_ahb_translate_binds W1 (k_copy_malloc k)
        (filter (\<lambda>b. nvhal_image_wrapper_kind W (bi_image b) \<noteq> Some NVHAL_WRAP_SWAPCHAIN) infos) = Some res" using tb by blast
    then show ?thesis using r0 True s dom by (cases res) (auto simp: bind2_def Let_def)
  qed
qed

end
