(* ===== verification/Ahb_Session.thy ===== *)
theory Ahb_Session
  imports Ahb_World
begin

text \<open>
  Whole sessions over the wrapper and memory tables of nvidia-prolapse/hal/src/ahb.c: the device
  teardown, the sequences of calls an app makes, and what holds after each of them.
\<close>

section \<open>Device teardown\<close>

definition dropped :: "nvhal_image \<Rightarrow> bool" where
  "dropped w \<longleftrightarrow> w_kind w = NVHAL_WRAP_SWAPCHAIN \<and> w_memory w \<noteq> 0"

text \<open>What the HAL leaves of a swept wrapper: the heap object, and objects the device itself frees.\<close>

definition leftover :: "handle \<Rightarrow> nvhal_image \<Rightarrow> hal_res multiset" where
  "leftover p w = (if dropped w then {#HHeap p#} else wrapper_hold p w)"

lemma wrapper_drop_one:
  assumes "I p = Some w"
  shows "snd (wrapper_drop p I) = I(p \<mapsto> if dropped w then w\<lparr>w_memory := 0\<rparr> else w)"
    "run_ev (M + wrapper_hold p w) (fst (wrapper_drop p I)) = Some (M + leftover p w)"
  using assms by (auto simp: wrapper_drop_def Let_def dropped_def leftover_def wrapper_hold_def opt_hold_def rel_if_def fun_upd_idem)

lemma wrapper_drop_all:
  assumes "distinct ps" "\<forall>p \<in> set ps. I p \<noteq> None" "on_del wrapper_drop ps I = (t, I')"
  shows "I' = (\<lambda>p. if p \<in> set ps then map_option (\<lambda>w. if dropped w then w\<lparr>w_memory := 0\<rparr> else w) (I p) else I p) \<and>
    run_ev (M + (\<Sum>p \<in> set ps. wrapper_hold p (the (I p)))) t = Some (M + (\<Sum>p \<in> set ps. leftover p (the (I p))))"
  using assms
proof (induction ps arbitrary: I t M)
  case Nil
  then show ?case by simp
next
  case (Cons p ps)
  obtain w where w: "I p = Some w" using Cons.prems(2) by auto
  obtain t1 I1 where one: "wrapper_drop p I = (t1, I1)" by force
  obtain t2 where two: "on_del wrapper_drop ps I1 = (t2, I')" "t = t1 @ t2" using Cons.prems(3) one by (auto split: prod.splits)
  note d = wrapper_drop_one [of I p w, OF w, unfolded one fst_conv snd_conv]
  have same: "I1 q = I q" if "q \<in> set ps" for q using that Cons.prems(1) d(1) by auto
  have IH: "I' = (\<lambda>p. if p \<in> set ps then map_option (\<lambda>w. if dropped w then w\<lparr>w_memory := 0\<rparr> else w) (I1 p) else I1 p)"
    "run_ev (M + (\<Sum>p \<in> set ps. wrapper_hold p (the (I1 p)))) t2 = Some (M + (\<Sum>p \<in> set ps. leftover p (the (I1 p))))" for M
    using Cons.IH [OF _ _ two(1)] Cons.prems(1,2) same by auto
  have sums: "(\<Sum>p \<in> set ps. f p (the (I1 p))) = (\<Sum>p \<in> set ps. f p (the (I p)))" for f :: "handle \<Rightarrow> nvhal_image \<Rightarrow> hal_res multiset"
    by (rule sum.cong) (simp_all add: same)
  have "I' = (\<lambda>q. if q \<in> set (p # ps) then map_option (\<lambda>w. if dropped w then w\<lparr>w_memory := 0\<rparr> else w) (I q) else I q)"
    unfolding IH(1) using Cons.prems(1) d(1) w by (auto simp: fun_eq_iff)
  moreover have "run_ev (M + (\<Sum>p \<in> set (p # ps). wrapper_hold p (the (I p)))) t = Some (M + (\<Sum>p \<in> set (p # ps). leftover p (the (I p))))"
    using d(2) [of "M + (\<Sum>p \<in> set ps. wrapper_hold p (the (I p)))"] IH(2) [of "M + leftover p w", unfolded sums] Cons.prems(1) w two(2)
    by (simp add: run_ev_append ac_simps)
  ultimately show ?case by blast
qed

lemma mem_release_all:
  assumes "distinct vs" "on_del mem_release vs R = (t, R')"
  shows "R' = (\<lambda>v. if v \<in> set vs then None else R v) \<and>
    run_ev (M + (\<Sum>v \<in> set vs. {#HAhb (m_buffer (the (R v))), HHeap v#})) t = Some M"
  using assms
proof (induction vs arbitrary: R t)
  case Nil
  then show ?case by simp
next
  case (Cons v vs)
  obtain t2 where two: "on_del mem_release vs (R(v := None)) = (t2, R')" "t = [Rel (HAhb (m_buffer (the (R v)))), Rel (HHeap v)] @ t2"
    using Cons.prems(2) by (auto simp: mem_release_def [of v R] Let_def split: prod.splits)
  have sums: "(\<Sum>u \<in> set vs. {#HAhb (m_buffer (the ((R(v := None)) u))), HHeap u#}) = (\<Sum>u \<in> set vs. {#HAhb (m_buffer (the (R u))), HHeap u#})"
    by (rule sum.cong) (use Cons.prems(1) in auto)
  have IH: "R' = (\<lambda>u. if u \<in> set vs then None else (R(v := None)) u)"
    "run_ev (M + (\<Sum>u \<in> set vs. {#HAhb (m_buffer (the (R u))), HHeap u#})) t2 = Some M"
    using Cons.IH [OF _ two(1)] Cons.prems(1) unfolding sums by auto
  then show ?case using Cons.prems(1) two(2) by (auto simp: fun_eq_iff)
qed

lemma swept_list:
  assumes "hash_inv h" "inj_on (\<lambda>k. the (hash_abs h k)) (dom (hash_abs h))" "nvhal_hash_sweep h pred = (n, g, vs)"
  shows "n = length vs" "distinct vs" "set vs = {v. \<exists>k. hash_abs h k = Some v \<and> pred v}" "hash_inv g"
    "hash_abs g = (\<lambda>k. case hash_abs h k of None \<Rightarrow> None | Some v \<Rightarrow> if pred v then None else Some v)"
proof -
  let ?K = "{k. \<exists>v. hash_abs h k = Some v \<and> pred v}"
  obtain g' where g: "nvhal_hash_sweep h pred = (length (filter (swept pred h) [0..<hcap h]), g',
      map ((!) (hv h)) (filter (swept pred h) [0..<hcap h]))" "hash_inv g'"
    "\<forall>key. hash_abs g' key = (case hash_abs h key of None \<Rightarrow> None | Some v \<Rightarrow> if pred v then None else Some v)"
    using hash_sweep_spec [OF assms(1)] by blast
  have vs: "vs = map ((!) (hv h)) (filter (swept pred h) [0..<hcap h])" "g = g'" "n = length vs" using g(1) assms(3) by auto
  show "n = length vs" "hash_inv g" using vs g by auto
  show "hash_abs g = (\<lambda>k. case hash_abs h k of None \<Rightarrow> None | Some v \<Rightarrow> if pred v then None else Some v)" using g(3) vs(2) by auto
  have sub: "?K \<subseteq> dom (hash_abs h)" by auto
  have fin: "finite ?K" by (rule finite_subset [OF sub hash_abs_finite])
  have "mset vs = mset_set ((\<lambda>k. the (hash_abs h k)) ` ?K)"
    unfolding vs(1) swept_values [OF assms(1)] by (rule image_mset_mset_set [OF inj_on_subset [OF assms(2) sub]])
  moreover have im: "(\<lambda>k. the (hash_abs h k)) ` ?K = {v. \<exists>k. hash_abs h k = Some v \<and> pred v}" by force
  ultimately have m: "mset vs = mset_set {v. \<exists>k. hash_abs h k = Some v \<and> pred v}" by simp
  have f2: "finite {v. \<exists>k. hash_abs h k = Some v \<and> pred v}" unfolding im [symmetric] by (rule finite_imageI [OF fin])
  show set: "set vs = {v. \<exists>k. hash_abs h k = Some v \<and> pred v}" using arg_cong [OF m, of set_mset] f2 by simp
  show "distinct vs" unfolding distinct_count_atmost_1 m set using f2 by simp
qed

lemma entries_live_ok:
  assumes "hash_inv h" "\<And>k v. hash_abs h k = Some v \<Longrightarrow> P v"
  shows "entries_live h P"
proof -
  have ok: "keys_ok (hk h)" "length (hv h) = hcap h" using assms(1) by (auto simp: hash_inv_def)
  have "P (hv h ! i)" if "i < hcap h" "hk h ! i \<noteq> 0" "hk h ! i \<noteq> HASH_TOMB" for i
  proof -
    have "entry_index (hk h) (hk h ! i) = Some i" unfolding entry_index_iff [OF ok(1)] using that by (simp add: live_def)
    then have "hash_abs h (hk h ! i) = Some (hv h ! i)" by (simp add: hash_abs_def lookup_def)
    then show ?thesis by (rule assms(2))
  qed
  then show ?thesis using ok(2) by (auto simp: entries_live_def list_all_iff set_zip)
qed

lemma sum_split: "finite A \<Longrightarrow> S \<subseteq> A \<Longrightarrow> sum f A = sum f (A - S) + sum f S" for f :: "'a \<Rightarrow> 'b multiset"
  by (metis sum.subset_diff)

text \<open>After the teardown neither table has an entry of the device. Every buffer reference and every
  record of its memory objects is released; of its wrappers the heap object is left and, unless it is
  a bound swapchain image, the image the driver frees with the device.\<close>

definition left_images :: "handle \<Rightarrow> ahb_world \<Rightarrow> hal_res multiset" where
  "left_images dev W = (\<Sum>p | \<exists>w. image_map W p = Some w \<and> w_dev w = dev. leftover p (the (image_map W p)))"

definition left_memories :: "handle \<Rightarrow> ahb_world \<Rightarrow> hal_res multiset" where
  "left_memories dev W = (\<Sum>k | \<exists>v m. memory_map W k = Some (v, m) \<and> m_dev m = dev. {#HMemory k#})"

lemma ahb_teardown_images:
  assumes "world_ok W" "nvhal_hash_sweep (wrappers W) (\<lambda>p. w_dev (the (images W p)) = dev) = (n, h, ps)"
    "on_del wrapper_drop ps (images W) = (t, I)"
  shows "hash_inv h" "unat (wrapper_count W) - n = card (dom (hash_abs h))" "n \<le> unat (wrapper_count W)"
    "\<And>p v. hash_abs h p = Some v \<Longrightarrow> v = p \<and> I p = image_map W p \<and> I p \<noteq> None"
    "(\<lambda>p. if hash_abs h p = None then None else I p) = (\<lambda>p. case image_map W p of Some w \<Rightarrow> if w_dev w = dev then None else Some w | None \<Rightarrow> None)"
    "\<And>p w. images W p = Some w \<Longrightarrow> w_kind w = NVHAL_WRAP_AHB \<Longrightarrow> I p = Some w"
    "run_ev (M + hold_all wrapper_hold (image_map W)) t =
       Some (M + hold_all wrapper_hold (\<lambda>p. if hash_abs h p = None then None else I p) + left_images dev W)"
proof -
  let ?S = "{p. \<exists>w. image_map W p = Some w \<and> w_dev w = dev}"
  have t: "tables_ok W" "hash_inv (wrappers W)" using assms(1) by (auto simp: world_ok_def tables_ok_def)
  have key: "hash_abs (wrappers W) p = Some v \<Longrightarrow> v = p \<and> images W p \<noteq> None" for p v using t(1) by (simp add: tables_ok_def)
  have inj: "inj_on (\<lambda>k. the (hash_abs (wrappers W) k)) (dom (hash_abs (wrappers W)))" using key by (fastforce simp: inj_on_def)
  note sw = swept_list [OF t(2) inj assms(2)]
  have S: "set ps = ?S" unfolding sw(3) using key by (force simp: image_map_def split: if_splits)
  have live: "\<forall>p \<in> set ps. images W p \<noteq> None" unfolding S by (auto simp: image_map_def split: if_splits)
  note dr = wrapper_drop_all [OF sw(2) live assms(3)]
  have abs: "hash_abs h p = (if p \<in> ?S then None else hash_abs (wrappers W) p)" for p
    unfolding sw(5) using key [of p] by (auto simp: image_map_def split: option.splits)
  show "hash_inv h" by (rule sw(4))
  show I: "v = p \<and> I p = image_map W p \<and> I p \<noteq> None" if "hash_abs h p = Some v" for p v
  proof -
    have "p \<notin> ?S" "hash_abs (wrappers W) p = Some v" using that unfolding abs by (auto split: if_splits)
    then show ?thesis using key [of p v] dr S by (auto simp: image_map_def)
  qed
  show im: "(\<lambda>p. if hash_abs h p = None then None else I p) = (\<lambda>p. case image_map W p of Some w \<Rightarrow> if w_dev w = dev then None else Some w | None \<Rightarrow> None)"
  proof
    fix p show "(if hash_abs h p = None then None else I p) = (case image_map W p of Some w \<Rightarrow> if w_dev w = dev then None else Some w | None \<Rightarrow> None)"
      using I [of p] abs [of p] image_map_dom [OF t(1)] by (cases "hash_abs h p") (auto simp: image_map_def split: option.splits if_splits)
  qed
  show "I p = Some w" if "images W p = Some w" "w_kind w = NVHAL_WRAP_AHB" for p w using that dr by (auto simp: dropped_def)
  have sub: "?S \<subseteq> dom (hash_abs (wrappers W))" using image_map_dom [OF t(1)] by auto
  have cnt: "n = card ?S" using sw(1,2) distinct_card [of ps] S by simp
  have dom: "dom (hash_abs h) = dom (hash_abs (wrappers W)) - ?S" using abs by (auto simp: dom_def)
  have "unat (wrapper_count W) = card (dom (hash_abs (wrappers W)))" using t(1) by (simp add: tables_ok_def)
  then show "unat (wrapper_count W) - n = card (dom (hash_abs h))" "n \<le> unat (wrapper_count W)"
    unfolding cnt dom using sub hash_abs_finite by (simp_all add: card_Diff_subset [OF finite_subset [OF sub hash_abs_finite] sub] card_mono)
  define J where "J = (\<lambda>p. if hash_abs h p = None then None else I p)"
  have J: "J p = (case image_map W p of Some w \<Rightarrow> if w_dev w = dev then None else Some w | None \<Rightarrow> None)" for p
    unfolding J_def im ..
  have dJ: "dom J = dom (image_map W) - ?S" by (auto simp: J dom_def split: option.splits if_splits)
  have "hold_all wrapper_hold J = (\<Sum>p \<in> dom (image_map W) - ?S. wrapper_hold p (the (image_map W p)))"
    unfolding hold_all_def dJ by (rule sum.cong) (auto simp: J)
  then have all: "hold_all wrapper_hold (image_map W) = hold_all wrapper_hold J + (\<Sum>p \<in> ?S. wrapper_hold p (the (image_map W p)))"
    unfolding hold_all_def [of wrapper_hold "image_map W"] using sum_split [OF maps_finite(1), of ?S W] by auto
  have eq: "(\<Sum>p \<in> set ps. f p (the (images W p))) = (\<Sum>p \<in> ?S. f p (the (image_map W p)))" for f :: "handle \<Rightarrow> nvhal_image \<Rightarrow> hal_res multiset"
    unfolding S by (rule sum.cong) (auto simp: image_map_def split: if_splits)
  show "run_ev (M + hold_all wrapper_hold (image_map W)) t =
      Some (M + hold_all wrapper_hold (\<lambda>p. if hash_abs h p = None then None else I p) + left_images dev W)"
    unfolding J_def [symmetric] using dr [of "M + hold_all wrapper_hold J"] unfolding eq all left_images_def by (simp add: ac_simps)
qed

lemma ahb_teardown_memories:
  assumes "world_ok W" "nvhal_hash_sweep (ahb_mems W) (\<lambda>v. m_dev (the (memrecs W v)) = dev) = (n, g, vs)"
    "on_del mem_release vs (memrecs W) = (t, R)"
  defines "MM \<equiv> \<lambda>k. case hash_abs g k of None \<Rightarrow> None | Some v \<Rightarrow> map_option (Pair v) (R v)"
  shows "hash_inv g" "\<And>k v. hash_abs g k = Some v \<Longrightarrow> hash_abs (ahb_mems W) k = Some v \<and> R v \<noteq> None"
    "MM = (\<lambda>k. case memory_map W k of Some (v, m) \<Rightarrow> if m_dev m = dev then None else Some (v, m) | None \<Rightarrow> None)"
    "run_ev (M + hold_all memory_hold (memory_map W)) t = Some (M + hold_all memory_hold MM + left_memories dev W)"
proof -
  let ?K = "{k. \<exists>v m. memory_map W k = Some (v, m) \<and> m_dev m = dev}"
  let ?f = "\<lambda>v. {#HAhb (m_buffer (the (memrecs W v))), HHeap v#}"
  have t: "tables_ok W" "hash_inv (ahb_mems W)" using assms(1) by (auto simp: world_ok_def tables_ok_def)
  have rec: "hash_abs (ahb_mems W) k = Some v \<Longrightarrow> \<exists>m. memrecs W v = Some m \<and> memory_map W k = Some (v, m)" for k v
    using t(1) by (auto simp: tables_ok_def memory_map_def)
  have one: "k = k'" if "hash_abs (ahb_mems W) k = Some v" "hash_abs (ahb_mems W) k' = Some v" for k k' v
    using t(1) that unfolding tables_ok_def by blast
  have inj: "inj_on (\<lambda>k. the (hash_abs (ahb_mems W) k)) (dom (hash_abs (ahb_mems W)))" using one by (fastforce simp: inj_on_def)
  note sw = swept_list [OF t(2) inj assms(2)]
  note rel = mem_release_all [OF sw(2) assms(3)]
  show "hash_inv g" by (rule sw(4))
  show g: "hash_abs (ahb_mems W) k = Some v \<and> R v \<noteq> None" if "hash_abs g k = Some v" for k v
    using that rec [of k v] rel unfolding sw(5) sw(3) by (auto split: option.splits if_splits)
  have R: "R v = Some m" if "memrecs W v = Some m" "m_dev m \<noteq> dev" for v m using that rel sw(3) by auto
  have MMk: "MM k = (case memory_map W k of Some (v, m) \<Rightarrow> if m_dev m = dev then None else Some (v, m) | None \<Rightarrow> None)" for k
  proof (cases "hash_abs (ahb_mems W) k")
    case None
    then show ?thesis by (simp add: MM_def sw(5) memory_map_def)
  next
    case (Some v)
    then obtain m where m: "memrecs W v = Some m" "memory_map W k = Some (v, m)" using rec by blast
    then show ?thesis using Some R [of v m] by (simp add: MM_def sw(5))
  qed
  show "MM = (\<lambda>k. case memory_map W k of Some (v, m) \<Rightarrow> if m_dev m = dev then None else Some (v, m) | None \<Rightarrow> None)"
    using MMk by blast
  have dMM: "dom MM = dom (memory_map W) - ?K" by (auto simp: MMk dom_def split: option.splits if_splits)
  have "hold_all memory_hold MM = (\<Sum>k \<in> dom (memory_map W) - ?K. memory_hold k (the (memory_map W k)))"
    unfolding hold_all_def dMM by (rule sum.cong) (auto simp: MMk)
  then have all: "hold_all memory_hold (memory_map W) = hold_all memory_hold MM + (\<Sum>k \<in> ?K. memory_hold k (the (memory_map W k)))"
    unfolding hold_all_def [of memory_hold "memory_map W"] using sum_split [OF maps_finite(2), of ?K W] by auto
  have at: "hash_abs (ahb_mems W) k = Some v \<and> memrecs W v = Some m" if "memory_map W k = Some (v, m)" for k v m
    using memory_lookup(2) [OF t(1) that] by simp
  have K: "bij_betw (\<lambda>k. the (hash_abs (ahb_mems W) k)) ?K (set vs)"
  proof (rule bij_betw_imageI)
    show "inj_on (\<lambda>k. the (hash_abs (ahb_mems W) k)) ?K" by (rule inj_on_subset [OF inj]) (use at in blast)
    show "(\<lambda>k. the (hash_abs (ahb_mems W) k)) ` ?K = set vs"
    proof (rule set_eqI)
      fix v show "v \<in> (\<lambda>k. the (hash_abs (ahb_mems W) k)) ` ?K \<longleftrightarrow> v \<in> set vs"
      proof
        assume "v \<in> (\<lambda>k. the (hash_abs (ahb_mems W) k)) ` ?K"
        then obtain k v' m where k: "memory_map W k = Some (v', m)" "m_dev m = dev" "v = the (hash_abs (ahb_mems W) k)" by blast
        then show "v \<in> set vs" unfolding sw(3) using at [OF k(1)] by auto
      next
        assume "v \<in> set vs"
        then obtain k where k: "hash_abs (ahb_mems W) k = Some v" "m_dev (the (memrecs W v)) = dev" unfolding sw(3) by blast
        then show "v \<in> (\<lambda>k. the (hash_abs (ahb_mems W) k)) ` ?K" using rec [OF k(1)] by (intro image_eqI [of _ _ k]) auto
      qed
    qed
  qed
  have "(\<Sum>k \<in> ?K. memory_hold k (the (memory_map W k))) = (\<Sum>k \<in> ?K. {#HMemory k#} + ?f (the (hash_abs (ahb_mems W) k)))"
  proof (rule sum.cong)
    fix k assume "k \<in> ?K"
    then obtain v m where m: "memory_map W k = Some (v, m)" by blast
    then show "memory_hold k (the (memory_map W k)) = {#HMemory k#} + ?f (the (hash_abs (ahb_mems W) k))"
      using at [OF m] by (simp add: memory_hold_def)
  qed simp
  also have "\<dots> = left_memories dev W + (\<Sum>v \<in> set vs. ?f v)"
    unfolding left_memories_def sum.distrib using sum.reindex_bij_betw [OF K, of ?f] by (simp only:)
  finally show "run_ev (M + hold_all memory_hold (memory_map W)) t = Some (M + hold_all memory_hold MM + left_memories dev W)"
    using rel [of "M + hold_all memory_hold MM + left_memories dev W"] unfolding all by (simp add: ac_simps)
qed

lemma ahb_teardown_sound:
  assumes "world_ok W"
  shows "\<exists>tr W'. nvhal_ahb_device_teardown dev W = Some (tr, W') \<and> world_ok W' \<and>
    run_ev (held W) tr = Some (held W' + left_images dev W + left_memories dev W) \<and>
    image_map W' = (\<lambda>p. case image_map W p of Some w \<Rightarrow> if w_dev w = dev then None else Some w | None \<Rightarrow> None) \<and>
    memory_map W' = (\<lambda>k. case memory_map W k of Some (v, m) \<Rightarrow> if m_dev m = dev then None else Some (v, m) | None \<Rightarrow> None)"
proof (cases "nvhal_no_wrappers W \<and> hn (ahb_mems W) = 0")
  case True
  have t: "tables_ok W" using assms by (simp add: world_ok_def)
  have "dom (image_map W) = {}" using True t hash_abs_finite image_map_dom [OF t]
    by (auto simp: nvhal_no_wrappers_def tables_ok_def)
  moreover have "hash_abs (ahb_mems W) k = None" for k
  proof -
    have "filter live (hk (ahb_mems W)) = []" using True t by (auto simp: tables_ok_def hash_inv_def)
    then have "List.find (\<lambda>i. hk (ahb_mems W) ! i = k) [0..<length (hk (ahb_mems W))] = None" if "live k"
      using that by (auto simp: find_None_iff filter_empty_conv dest: nth_mem)
    then show ?thesis by (simp add: hash_abs_def lookup_def entry_index_def)
  qed
  ultimately have "image_map W = Map.empty" "memory_map W = Map.empty" by (auto simp: memory_map_def)
  then show ?thesis using True assms by (simp add: nvhal_ahb_device_teardown_def left_images_def left_memories_def)
next
  case False
  have t: "tables_ok W" using assms by (simp add: world_ok_def)
  have live: "entries_live (wrappers W) (\<lambda>p. images W p \<noteq> None)" "entries_live (ahb_mems W) (\<lambda>v. memrecs W v \<noteq> None)"
    by (rule entries_live_ok; use t in \<open>auto simp: tables_ok_def\<close>)+
  obtain n h ps where sw: "nvhal_hash_sweep (wrappers W) (\<lambda>p. w_dev (the (images W p)) = dev) = (n, h, ps)" by (metis prod.exhaust)
  obtain t1 I where dr: "on_del wrapper_drop ps (images W) = (t1, I)" by force
  obtain nm g vs where sm: "nvhal_hash_sweep (ahb_mems W) (\<lambda>v. m_dev (the (memrecs W v)) = dev) = (nm, g, vs)" by (metis prod.exhaust)
  obtain t2 R where rl: "on_del mem_release vs (memrecs W) = (t2, R)" by force
  note ti = ahb_teardown_images [OF assms sw dr] and tm = ahb_teardown_memories [OF assms sm rl]
  define W' where "W' = W\<lparr>wrappers := h, wrapper_count := wrapper_count W - of_nat n, images := I, ahb_mems := g, memrecs := R\<rparr>"
  have op: "nvhal_ahb_device_teardown dev W = Some (t1 @ t2, W')"
    unfolding nvhal_ahb_device_teardown_def if_not_P [OF False] W'_def using live sw dr sm rl by simp
  have im: "image_map W' = (\<lambda>p. if hash_abs h p = None then None else I p)"
    by (rule ext) (simp add: image_map_def W'_def)
  have mm: "memory_map W' = (\<lambda>k. case hash_abs g k of None \<Rightarrow> None | Some v \<Rightarrow> map_option (Pair v) (R v))"
    by (rule ext) (simp add: memory_map_def W'_def split: option.split)
  have "unat (wrapper_count W - of_nat n) = unat (wrapper_count W) - n"
    using le_unat_uoi [OF ti(3)] ti(3) by (simp add: unat_sub word_le_nat_alt)
  then have count': "unat (wrapper_count W') = card (dom (hash_abs (wrappers W')))" using ti(2) by (simp add: W'_def)
  have fs: "wrappers W' = h" "ahb_mems W' = g" "images W' = I" "memrecs W' = R" by (simp_all add: W'_def)
  have one: "k = k'" if "hash_abs g k = Some v" "hash_abs g k' = Some v" for k k' v
    using tm(2) [OF that(1)] tm(2) [OF that(2)] t unfolding tables_ok_def by blast
  have nz: "v \<noteq> 0 \<and> R v \<noteq> None" if "hash_abs g k = Some v" for k v
    using tm(2) [OF that] t unfolding tables_ok_def by blast
  have tab: "tables_ok W'" unfolding tables_ok_def fs
    using ti(1,4) tm(1) one nz count' [unfolded fs] by blast
  have refs: "refs_ok (images W') (memory_map W')"
  proof -
    have "refs_ok (images W) (memory_map W)" using assms by (simp add: world_ok_def)
    then show ?thesis using ti(6) unfolding refs_ok_def mm tm(3) by (fastforce simp: W'_def split: option.splits if_splits)
  qed
  have "\<forall>w \<in> ran (image_map W'). image_ok w" using assms unfolding im ti(5) world_ok_def ran_def
    by (auto split: option.splits if_splits)
  then have ok: "world_ok W'" using tab refs by (simp add: world_ok_def)
  have "run_ev (held W) (t1 @ t2) = Some (held W' + left_images dev W + left_memories dev W)"
    using ti(7) [of "hold_all memory_hold (memory_map W)"] tm(4) [of "hold_all wrapper_hold (image_map W') + left_images dev W"]
    unfolding held_def im [symmetric] mm [symmetric] by (simp add: run_ev_append ac_simps)
  then show ?thesis using op ok im ti(5) mm tm(3) by auto
qed

section \<open>Sessions\<close>

text \<open>The calls that change the tables, with the answers each of them gets, and the app's own release
  of a buffer reference.\<close>

datatype ahb_op =
    OCreateAhb create_env handle nvhal_device image_ci
  | OCreateSwapchain create_env handle nvhal_device image_ci handle
  | ODestroy handle
  | OSetPrivateData bool handle handle u64
  | OSetName handle "string option"
  | OBind bind_env handle nvhal_device "bind_info list"
  | OAllocate alloc_env handle nvhal_device alloc_info
  | OFree handle
  | OGetBuffer nvhal_device handle
  | OReleaseBuffer handle

text \<open>The state is the world and what the app itself owns: memory objects without a buffer and
  buffer references.\<close>

type_synonym ahb_state = "ahb_world \<times> hal_res multiset"

fun ahb_step :: "ahb_op \<Rightarrow> ahb_state \<Rightarrow> (hal_res ev list \<times> ahb_state) option" where
  "ahb_step (OCreateAhb k dev d ci) (W, P) = map_option (\<lambda>(tr, _, W'). (tr, W', P)) (nvhal_ahb_CreateImage k dev d ci W)"
| "ahb_step (OCreateSwapchain k dev d ci sc) (W, P) = map_option (\<lambda>(tr, _, W'). (tr, W', P)) (nvhal_sc_CreateImage k dev d ci sc W)"
| "ahb_step (ODestroy img) (W, P) = map_option (\<lambda>(tr, _, W'). (tr, W', P)) (nvhal_ahb_DestroyImage img W)"
| "ahb_step (OSetPrivateData ok img slot x) (W, P) = map_option (\<lambda>(_, W'). ([], W', P)) (nvhal_ahb_set_private_data ok img slot x W)"
| "ahb_step (OSetName img name) (W, P) = map_option (\<lambda>(_, W'). ([], W', P)) (nvhal_ahb_set_object_name img name W)"
| "ahb_step (OBind k dev d infos) (W, P) = map_option (\<lambda>(tr, _, _, _, _, W'). (tr, W', P)) (bind2 k dev d infos W)"
| "ahb_step (OAllocate k dev d ai) (W, P) =
    map_option (\<lambda>(tr, _, r, W'). (tr, W', P + app_memory W' r)) (nvhal_AllocateMemory k dev d ai W)"
| "ahb_step (OFree mem) (W, P) = map_option (\<lambda>(tr, W'). (tr, W', P - app_freed W mem)) (nvhal_FreeMemory mem W)"
| "ahb_step (OGetBuffer d mem) (W, P) =
    map_option (\<lambda>(tr, r). (tr, W, P + (case r of Inl _ \<Rightarrow> {#} | Inr buf \<Rightarrow> {#HAhb buf#})))
      (nvhal_GetMemoryAndroidHardwareBufferANDROID (Some d) mem W)"
| "ahb_step (OReleaseBuffer buf) (W, P) = Some ([Rel (HAhb buf)], W, P - {#HAhb buf#})"

fun ahb_run :: "ahb_op list \<Rightarrow> ahb_state \<Rightarrow> (hal_res ev list \<times> ahb_state) option" where
  "ahb_run [] s = Some ([], s)"
| "ahb_run (x # xs) s = (case ahb_step x s of None \<Rightarrow> None | Some (tr, s1) \<Rightarrow>
     map_option (\<lambda>(tr', s2). (tr @ tr', s2)) (ahb_run xs s1))"

text \<open>The laws of one call: new pointers and handles are not in use, and the app frees memory and
  releases buffers that are its own.\<close>

fun call_ok :: "ahb_op \<Rightarrow> ahb_state \<Rightarrow> bool" where
  "call_ok (OCreateAhb k dev d ci) (W, P) \<longleftrightarrow> c_ptr k = 0 \<or> images W (c_ptr k) = None"
| "call_ok (OCreateSwapchain k dev d ci sc) (W, P) \<longleftrightarrow> c_ptr k = 0 \<or> images W (c_ptr k) = None"
| "call_ok (OBind k dev d infos) (W, P) \<longleftrightarrow> list_all (\<lambda>b. sc_lawful (k_import k (bi_image b))) infos"
| "call_ok (OAllocate k dev d ai) (W, P) \<longleftrightarrow> alloc_lawful k W"
| "call_ok (OFree mem) (W, P) \<longleftrightarrow> app_freed W mem \<subseteq># P"
| "call_ok (OReleaseBuffer buf) (W, P) \<longleftrightarrow> HAhb buf \<in># P"
| "call_ok _ _ \<longleftrightarrow> True"

fun calls_ok :: "ahb_op list \<Rightarrow> ahb_state \<Rightarrow> bool" where
  "calls_ok [] s \<longleftrightarrow> True"
| "calls_ok (x # xs) s \<longleftrightarrow> call_ok x s \<and> (case ahb_step x s of None \<Rightarrow> True | Some (_, s') \<Rightarrow> calls_ok xs s')"

definition ahb_world_init :: ahb_world where
  "ahb_world_init = \<lparr>wrappers = NVHAL_HASH_INIT, wrapper_count = 0, images = Map.empty, ahb_mems = NVHAL_HASH_INIT, memrecs = Map.empty\<rparr>"

lemma world_init: "world_ok ahb_world_init" "image_map ahb_world_init = Map.empty" "held ahb_world_init = {#}"
proof -
  have maps: "image_map ahb_world_init = Map.empty" "memory_map ahb_world_init = Map.empty"
    by (simp_all add: image_map_def memory_map_def ahb_world_init_def hash_init_inv)
  show "image_map ahb_world_init = Map.empty" by (rule maps)
  show "held ahb_world_init = {#}" by (simp add: held_def maps)
  show "world_ok ahb_world_init" unfolding world_ok_def tables_ok_def maps
    by (simp add: ahb_world_init_def hash_init_inv refs_ok_def)
qed

lemma ahb_step_sound:
  assumes "world_ok W" "call_ok x (W, P)" "card (dom (image_map W)) < 2 ^ 32 - 1"
  shows "\<exists>tr W' P'. ahb_step x (W, P) = Some (tr, W', P') \<and> world_ok W' \<and> run_ev (held W + P) tr = Some (held W' + P') \<and>
    card (dom (image_map W')) \<le> Suc (card (dom (image_map W)))"
proof -
  have framed: "run_ev (held W + P) tr = Some (N + P)" if "run_ev (held W) tr = Some N" for tr N
    using run_ev_frame [OF that, of P] by (simp add: add.commute)
  have fin: ?thesis if "ahb_step x (W, P) = Some (tr, W', P)" "step_ok W tr W'" for tr W'
    using that framed [of tr "held W'"] by (simp add: step_ok_def)
  show ?thesis
  proof (cases x)
    case (OCreateAhb k dev d ci)
    have "c_ptr k = 0 \<or> images W (c_ptr k) = None" using assms(2) OCreateAhb by simp
    then obtain tr r W' where "nvhal_ahb_CreateImage k dev d ci W = Some (tr, r, W')" "step_ok W tr W'"
      using ahb_create_sound [OF assms(1) _ assms(3)] by blast
    then show ?thesis using fin OCreateAhb by simp
  next
    case (OCreateSwapchain k dev d ci sc)
    have "c_ptr k = 0 \<or> images W (c_ptr k) = None" using assms(2) OCreateSwapchain by simp
    then obtain tr r W' where "nvhal_sc_CreateImage k dev d ci sc W = Some (tr, r, W')" "step_ok W tr W'"
      using sc_create_sound [OF assms(1) _ assms(3)] by blast
    then show ?thesis using fin OCreateSwapchain by simp
  next
    case (ODestroy img)
    obtain tr b W' where "nvhal_ahb_DestroyImage img W = Some (tr, b, W')" "step_ok W tr W'"
      using untracked_destroy [OF assms(1), of img] tracked_destroy [OF assms(1), of img] by (cases "image_map W img") blast+
    then show ?thesis using fin ODestroy by simp
  next
    case (OSetPrivateData ok img slot y)
    then show ?thesis using set_private_data_sound [OF assms(1), of ok img slot y] fin by auto
  next
    case (OSetName img name)
    then show ?thesis using set_object_name_sound [OF assms(1), of img name] fin by auto
  next
    case (OBind k dev d infos)
    have "list_all (\<lambda>b. sc_lawful (k_import k (bi_image b))) infos" using assms(2) OBind by simp
    then obtain tr objs sts bs r W' where "bind2 k dev d infos W = Some (tr, objs, sts, bs, r, W')" "world_ok W'"
      "run_ev (held W) tr = Some (held W')" "dom (image_map W') = dom (image_map W)"
      using bind2_sound [OF assms(1)] by blast
    then show ?thesis using fin [of tr W'] OBind by (simp add: step_ok_def)
  next
    case (OAllocate k dev d ai)
    have "alloc_lawful k W" using assms(2) OAllocate by simp
    then obtain tr objs r W' where a: "nvhal_AllocateMemory k dev d ai W = Some (tr, objs, r, W')" "world_ok W'"
      "run_ev (held W) tr = Some (held W' + app_memory W' r)" "dom (image_map W') = dom (image_map W)"
      using allocate_sound [OF assms(1)] by blast
    have "held W' + app_memory W' r + P = held W' + (P + app_memory W' r)" by (simp only: ac_simps)
    then have "run_ev (held W + P) tr = Some (held W' + (P + app_memory W' r))" using framed [OF a(3)] by (simp only:)
    moreover have "ahb_step x (W, P) = Some (tr, W', P + app_memory W' r)" using OAllocate a(1) by simp
    ultimately show ?thesis using a(2,4) by auto
  next
    case (OFree mem)
    obtain tr W' where f: "nvhal_FreeMemory mem W = Some (tr, W')" "world_ok W'" "run_ev (held W + app_freed W mem) tr = Some (held W')"
      "dom (image_map W') = dom (image_map W)" using free_sound [OF assms(1), of mem] by blast
    define Q where "Q = P - app_freed W mem"
    have P: "P = app_freed W mem + Q" using assms(2) OFree by (simp add: Q_def)
    have "run_ev (Q + (held W + app_freed W mem)) tr = Some (Q + held W')" by (rule run_ev_frame [OF f(3)])
    moreover have "Q + (held W + app_freed W mem) = held W + P" "Q + held W' = held W' + Q" unfolding P by (simp_all only: ac_simps)
    ultimately have "run_ev (held W + P) tr = Some (held W' + Q)" by (simp only:)
    then show ?thesis using f(1,2,4) OFree unfolding Q_def by simp
  next
    case (OGetBuffer d mem)
    obtain tr r where g: "nvhal_GetMemoryAndroidHardwareBufferANDROID (Some d) mem W = Some (tr, r)"
      "run_ev (held W + P) tr = Some (held W + P + (case r of Inl _ \<Rightarrow> {#} | Inr buf \<Rightarrow> {#HAhb buf#}))"
      using get_memory_sound [OF assms(1)] by blast
    have "ahb_step x (W, P) = Some (tr, W, P + (case r of Inl _ \<Rightarrow> {#} | Inr buf \<Rightarrow> {#HAhb buf#}))" using OGetBuffer g(1) by simp
    moreover have "card (dom (image_map W)) \<le> Suc (card (dom (image_map W)))" by simp
    ultimately show ?thesis using g(2) [unfolded add.assoc] assms(1) by blast
  next
    case (OReleaseBuffer buf)
    have mem: "HAhb buf \<in># P" using assms(2) OReleaseBuffer by simp
    have "run_ev (held W + P) [Rel (HAhb buf)] = Some (held W + (P - {#HAhb buf#}))"
      using mem diff_union_single_conv [OF mem, of "held W"] by simp
    moreover have "ahb_step x (W, P) = Some ([Rel (HAhb buf)], W, P - {#HAhb buf#})" using OReleaseBuffer by simp
    moreover have "card (dom (image_map W)) \<le> Suc (card (dom (image_map W)))" by simp
    ultimately show ?thesis using assms(1) by blast
  qed
qed

lemma ahb_run_sound:
  assumes "world_ok W" "calls_ok xs (W, P)" "card (dom (image_map W)) + length xs < 2 ^ 32"
  shows "\<exists>tr W' P'. ahb_run xs (W, P) = Some (tr, W', P') \<and> world_ok W' \<and> run_ev (held W + P) tr = Some (held W' + P')"
  using assms
proof (induction xs arbitrary: W P)
  case Nil
  then show ?case by simp
next
  case (Cons x xs)
  obtain tr W1 P1 where s: "ahb_step x (W, P) = Some (tr, W1, P1)" "world_ok W1" "run_ev (held W + P) tr = Some (held W1 + P1)"
    "card (dom (image_map W1)) \<le> Suc (card (dom (image_map W)))"
    using ahb_step_sound [OF Cons.prems(1), of x P] Cons.prems(2,3) by auto
  obtain tr' W2 P2 where "ahb_run xs (W1, P1) = Some (tr', W2, P2)" "world_ok W2" "run_ev (held W1 + P1) tr' = Some (held W2 + P2)"
    using Cons.IH [OF s(2), of P1] Cons.prems(2,3) s(1,4) by auto
  then show ?case using s by (simp add: run_ev_append)
qed

text \<open>
  C4. The tables of hardware buffer images stay well-typed. Over any sequence of image creations and
  destructions, private data and names, binds, allocations, frees and buffer queries (fewer than 2^32
  of them, new pointers and handles not in use, the app freeing only what it owns), every call
  returns. Every lookup of an image handle finds nothing or a live wrapper of a definite kind under
  its own address, the wrapper count is the number of wrappers, and every record of a memory object
  is live and refers to no image or to a live hardware buffer image that knows this memory. So no
  call ever follows a pointer to a freed wrapper or record.
\<close>

theorem ahb_tables_typed:
  assumes "calls_ok ops (ahb_world_init, {#})" "length ops < 2 ^ 32"
  shows "\<exists>tr W P. ahb_run ops (ahb_world_init, {#}) = Some (tr, W, P) \<and>
    (\<forall>img. wrapper W img = 0 \<or> wrapper W img = img \<and> (\<exists>w. images W img = Some w \<and> w_kind w \<in> {NVHAL_WRAP_AHB, NVHAL_WRAP_SWAPCHAIN})) \<and>
    unat (wrapper_count W) = card {img. wrapper W img \<noteq> 0} \<and>
    (\<forall>mem. nvhal_hash_get (ahb_mems W) mem = 0 \<or> (\<exists>m. memrecs W (nvhal_hash_get (ahb_mems W) mem) = Some m \<and>
       (m_image m = 0 \<or> (\<exists>w. images W (m_image m) = Some w \<and> w_kind w = NVHAL_WRAP_AHB \<and> w_memory w = mem))))"
proof -
  obtain tr W P where run: "ahb_run ops (ahb_world_init, {#}) = Some (tr, W, P)" "world_ok W"
    using ahb_run_sound [OF world_init(1) assms(1)] assms(2) world_init(2) by auto
  have t: "tables_ok W" using run(2) by (simp add: world_ok_def)
  have "wrapper W img = 0 \<or> wrapper W img = img \<and> (\<exists>w. images W img = Some w \<and> w_kind w \<in> {NVHAL_WRAP_AHB, NVHAL_WRAP_SWAPCHAIN})" for img
    using run(2)
  proof (cases rule: wrapper_cases [where img = img])
    case (some w)
    then have "w_kind w \<in> {NVHAL_WRAP_AHB, NVHAL_WRAP_SWAPCHAIN}" by (cases "w_kind w") (auto simp: image_ok_def)
    then show ?thesis using some by simp
  qed simp
  moreover have "{img. wrapper W img \<noteq> 0} = dom (image_map W)"
    using wrapper_lookup [OF t] by (auto simp: domIff)
  then have "unat (wrapper_count W) = card {img. wrapper W img \<noteq> 0}"
    using t image_map_dom [OF t] by (simp add: tables_ok_def)
  moreover have "nvhal_hash_get (ahb_mems W) mem = 0 \<or> (\<exists>m. memrecs W (nvhal_hash_get (ahb_mems W) mem) = Some m \<and>
       (m_image m = 0 \<or> (\<exists>w. images W (m_image m) = Some w \<and> w_kind w = NVHAL_WRAP_AHB \<and> w_memory w = mem)))" for mem
  proof (cases "memory_map W mem")
    case None
    then show ?thesis using memory_lookup(1) [OF t, of mem] by simp
  next
    case (Some vm)
    obtain v m where vm: "vm = (v, m)" by force
    have "refs_ok (images W) (memory_map W)" using run(2) by (simp add: world_ok_def)
    then show ?thesis using memory_lookup [OF t, of mem] Some vm unfolding refs_ok_def by auto
  qed
  ultimately show ?thesis using run(1) by blast
qed

text \<open>
  C5. Ownership over a session with hardware buffers. After any such sequence of calls exactly these
  are held: every wrapper with its driver image and, for a bound swapchain image, the imported
  memory; every memory object backed by a buffer with its record and one reference to the buffer;
  and what the app owns itself. Nothing is released twice and nothing else is left. The teardown of a
  device returns too, removes exactly the entries of that device from both tables and releases the
  buffer references, the records and the imported memory; only the heap objects of its wrappers and
  the objects that the driver frees with the device remain.
\<close>

theorem ahb_session_safe:
  assumes "calls_ok ops (ahb_world_init, {#})" "length ops < 2 ^ 32"
  shows "\<exists>tr W P tr' W'. ahb_run ops (ahb_world_init, {#}) = Some (tr, W, P) \<and> run_ev {#} tr = Some (held W + P) \<and>
    nvhal_ahb_device_teardown dev W = Some (tr', W') \<and>
    run_ev {#} (tr @ tr') = Some (held W' + left_images dev W + left_memories dev W + P) \<and>
    image_map W' = (\<lambda>p. case image_map W p of Some w \<Rightarrow> if w_dev w = dev then None else Some w | None \<Rightarrow> None) \<and>
    memory_map W' = (\<lambda>k. case memory_map W k of Some (v, m) \<Rightarrow> if m_dev m = dev then None else Some (v, m) | None \<Rightarrow> None)"
proof -
  obtain tr W P where run: "ahb_run ops (ahb_world_init, {#}) = Some (tr, W, P)" "world_ok W" "run_ev {#} tr = Some (held W + P)"
    using ahb_run_sound [OF world_init(1) assms(1)] assms(2) world_init(2,3) by auto
  obtain tr' W' where td: "nvhal_ahb_device_teardown dev W = Some (tr', W')"
      "run_ev (held W) tr' = Some (held W' + left_images dev W + left_memories dev W)"
      "image_map W' = (\<lambda>p. case image_map W p of Some w \<Rightarrow> if w_dev w = dev then None else Some w | None \<Rightarrow> None)"
      "memory_map W' = (\<lambda>k. case memory_map W k of Some (v, m) \<Rightarrow> if m_dev m = dev then None else Some (v, m) | None \<Rightarrow> None)"
    using ahb_teardown_sound [OF run(2), of dev] by blast
  have "run_ev (held W + P) tr' = Some (held W' + left_images dev W + left_memories dev W + P)"
    using run_ev_frame [OF td(2), of P] by (simp only: add.commute)
  then have "run_ev {#} (tr @ tr') = Some (held W' + left_images dev W + left_memories dev W + P)" using run(3) by (simp add: run_ev_append)
  then show ?thesis using run(1,3) td(1,3,4) by blast
qed

section \<open>A session\<close>

definition demo_dev :: nvhal_device where
  "demo_dev = \<lparr>d_anb_enabled = True, d_ahb_enabled = True, d_wait_fence = False, d_wait_semaphore = True, d_mem_types = [0, 1, 1],
     d_anb_images = [], d_anb_cap = 0, d_fence_pool = [], d_fence_cap = 0\<rparr>"

definition demo_ahb_ci :: image_ci where
  "demo_ahb_ci = demo_ci\<lparr>ci_height := 64, ci_next := [ExternalMemoryImage HANDLE_TYPE_AHB]\<rparr>"

definition demo_alloc :: alloc_env where
  "demo_alloc = \<lparr>l_allocate = (0, 0),
     l_buffer = \<lparr>be_desc = \<lparr>ad_width = 64, ad_height = 64, ad_layers = 1, ad_format = 1, ad_usage = 0x100\<rparr>,
       be_handle = Some demo_handle, be_seek_end = 16384, be_seek_set = 0, be_inode0 = None, be_inode1 = None\<rparr>,
     l_fdprops = (VK_SUCCESS, 3), l_realise = \<lparr>r_query = i_query Anb.demo_icd, r_mods = (\<lambda>_. []), r_probe = (0, 0), r_plane_reqs = [],
       r_image = (VK_SUCCESS, 0x100)\<rparr>, l_reqs = (16384, 3), l_dup = (9, 0), l_memory = (VK_SUCCESS, 0x200), l_ptr = 0x3000,
     l_put = True, l_fns = (True, True)\<rparr>"

definition demo_calls :: "ahb_op list" where
  "demo_calls =
    [OCreateAhb \<lparr>c_ptr = 0x1000, c_views = True, c_families = True, c_put = True\<rparr> 1 demo_dev demo_ahb_ci,
     OSetName 0x1000 (Some ''frame''),
     OAllocate demo_alloc 1 demo_dev \<lparr>ai_size = 16384, ai_type = 1, ai_next = [ImportAndroidHardwareBuffer 0x2000, MemoryDedicated 0x1000 0]\<rparr>,
     OGetBuffer demo_dev 0x200,
     OReleaseBuffer 0x2000]"

declare probe_while.simps [code]

lemma demo_calls_run: "(case ahb_run demo_calls (ahb_world_init, {#}) of None \<Rightarrow> None | Some (tr, W, P) \<Rightarrow> Some (tr, P, wrapper W 0x1000, nvhal_image_xl W 0x1000)) =
  Some ([Acq (HHeap 0x1000), Acq (HImage 0x100), Acq (HFd 9), Acq (HMemory 0x200), Rel (HFd 9), Acq (HHeap 0x3000), Acq (HAhb 0x2000), Acq (HAhb 0x2000), Rel (HAhb 0x2000)], {#}, 0x1000, Some (0x100, True))"
  by code_simp

lemma demo_calls_ok: "calls_ok demo_calls (ahb_world_init, {#})" "length demo_calls < 2 ^ 32"
proof -
  show "calls_ok demo_calls (ahb_world_init, {#})" by code_simp
qed (simp add: demo_calls_def)

theorem ahb_tables_typed_witness:
  "\<exists>tr W P w. ahb_run demo_calls (ahb_world_init, {#}) = Some (tr, W, P) \<and> images W 0x1000 = Some w \<and>
     w_kind w \<in> {NVHAL_WRAP_AHB, NVHAL_WRAP_SWAPCHAIN} \<and> w_real w = 0x100"
proof -
  obtain tr W P where r: "ahb_run demo_calls (ahb_world_init, {#}) = Some (tr, W, P)"
    and w: "\<And>img. wrapper W img = 0 \<or> wrapper W img = img \<and> (\<exists>w. images W img = Some w \<and> w_kind w \<in> {NVHAL_WRAP_AHB, NVHAL_WRAP_SWAPCHAIN})"
    using ahb_tables_typed [OF demo_calls_ok] by blast
  have x: "wrapper W 0x1000 = 0x1000" "nvhal_image_xl W 0x1000 = Some (0x100, True)" using demo_calls_run r by simp_all
  obtain w0 where w0: "images W 0x1000 = Some w0" "w_kind w0 \<in> {NVHAL_WRAP_AHB, NVHAL_WRAP_SWAPCHAIN}" using w [of "0x1000"] x(1) by auto
  have "w_real w0 = 0x100" using x w0(1) by (simp add: nvhal_image_xl_def)
  then show ?thesis using r w0 by blast
qed

theorem ahb_session_safe_witness:
  "\<exists>tr W tr' W'. ahb_run demo_calls (ahb_world_init, {#}) = Some (tr, W, {#}) \<and>
     held W = {#HAhb 0x2000, HHeap 0x3000, HMemory 0x200, HImage 0x100, HHeap 0x1000#} \<and>
     nvhal_ahb_device_teardown 1 W = Some (tr', W')"
proof -
  obtain tr W P tr' W' where r: "ahb_run demo_calls (ahb_world_init, {#}) = Some (tr, W, P)" "run_ev {#} tr = Some (held W + P)"
    "nvhal_ahb_device_teardown 1 W = Some (tr', W')"
    using ahb_session_safe [OF demo_calls_ok, of 1] by blast
  have tr: "tr = [Acq (HHeap 0x1000), Acq (HImage 0x100), Acq (HFd 9), Acq (HMemory 0x200), Rel (HFd 9), Acq (HHeap 0x3000),
      Acq (HAhb 0x2000), Acq (HAhb 0x2000), Rel (HAhb 0x2000)]" "P = {#}" using demo_calls_run r(1) by simp_all
  have "held W = {#HAhb 0x2000, HHeap 0x3000, HMemory 0x200, HImage 0x100, HHeap 0x1000#}" using r(2) [symmetric] unfolding tr by simp
  then show ?thesis using r(1,3) tr(2) by blast
qed

end
