(* ===== verification/Ahb_Binds.thy ===== *)
theory Ahb_Binds
  imports Ahb_Session
begin

text \<open>
  What vkBindImageMemory2 (bind2 in nvidia-prolapse/hal/src/anb.c, nvhal_ahb_translate_binds in
  nvidia-prolapse/hal/src/ahb.c) gives to the driver.
\<close>

text \<open>A bind and its translation.\<close>

definition bind_rel :: "ahb_world \<Rightarrow> bind_info \<Rightarrow> bind_info \<Rightarrow> bool" where
  "bind_rel W b b' \<longleftrightarrow> (case image_map W (bi_image b) of None \<Rightarrow> b' = b
     | Some w \<Rightarrow> w_kind w = NVHAL_WRAP_AHB \<and> w_real w \<noteq> 0 \<and> w_memory w = bi_memory b \<and> bi_offset b = 0 \<and>
         b' = b\<lparr>bi_image := w_real w\<rparr>)"

lemma map_sum_Inr: "map_sum f g z = Inr y \<longleftrightarrow> (\<exists>x. z = Inr x \<and> y = g x)"
  by (cases z) auto

lemma translate_from_rel:
  assumes "world_ok W" "translate_from W room c bs = Some (Inr out)"
  shows "list_all2 (bind_rel W) bs out"
  using assms(2)
proof (induction bs arbitrary: c out)
  case Nil
  then show ?case by simp
next
  case (Cons b bs)
  show ?case using assms(1)
  proof (cases rule: wrapper_cases [where img = "bi_image b"])
    case none
    then obtain out' where "translate_from W room c bs = Some (Inr out')" "out = b # out'"
      using Cons.prems by (auto simp: map_sum_Inr)
    then show ?thesis using Cons.IH none by (auto simp: bind_rel_def)
  next
    case (some w)
    have k: "w_kind w \<noteq> NVHAL_WRAP_SWAPCHAIN" "w_real w \<noteq> 0" "w_memory w = bi_memory b" "bi_offset b = 0"
      using Cons.prems some by (auto simp: Let_def split: if_splits)
    then have ahb: "w_kind w = NVHAL_WRAP_AHB" using some(5) by (cases "w_kind w") (auto simp: image_ok_def)
    obtain out' where "translate_from W room True bs = Some (Inr out')" "out = b\<lparr>bi_image := w_real w\<rparr> # out'"
      using Cons.prems some k by (auto simp: map_sum_Inr split: if_splits)
    then show ?thesis using Cons.IH some ahb k by (auto simp: bind_rel_def)
  qed
qed

lemma translate_from_error: "translate_from W room c bs = Some (Inl r) \<Longrightarrow> r \<noteq> VK_SUCCESS"
proof (induction bs arbitrary: c)
  case (Cons b bs)
  have "z = Inl r" if "map_sum id f z = Inl r" for z and f :: "bind_info list \<Rightarrow> bind_info list" using that by (cases z) auto
  then show ?case using Cons by (auto simp: Let_def codes split: if_splits option.splits)
qed simp

lemma no_wrappers_map: "world_ok W \<Longrightarrow> nvhal_no_wrappers W \<Longrightarrow> image_map W img = None"
  by (erule wrapper_cases [where img = img]) (auto simp: wrapper_def)

lemma translate_binds_rel:
  assumes "world_ok W" "nvhal_ahb_translate_binds W ok bs = Some (Inr out)"
  shows "list_all2 (bind_rel W) bs out"
proof (cases "nvhal_no_wrappers W")
  case True
  then have "bs = out" "\<And>b. bind_rel W b b" using assms no_wrappers_map by (simp_all add: nvhal_ahb_translate_binds_def bind_rel_def)
  then show ?thesis by (simp add: list_all2_refl)
next
  case False
  then show ?thesis using assms translate_from_rel by (simp add: nvhal_ahb_translate_binds_def)
qed

definition realised :: "ahb_world \<Rightarrow> handle \<Rightarrow> bool" where
  "realised W img \<longleftrightarrow> (\<exists>w. image_map W img = Some w \<and> w_real w \<noteq> 0)"

lemma anb_check_error: "anb_check query ci h = Inl e \<Longrightarrow> e \<noteq> VK_SUCCESS"
  by (auto simp: anb_check_def nvhal_cros_handle_def codes Let_def split: sum.splits option.splits if_splits prod.splits)

lemma anb_import_error: "nvhal_anb_import types (ci, h, k) = (tr, Inl e) \<Longrightarrow> e \<noteq> VK_SUCCESS"
  by (auto simp: nvhal_anb_import_def Let_def dup_error_def codes dest: anb_check_error split: sum.splits option.splits if_splits prod.splits)

lemma realised_upd:
  assumes "world_ok W" "image_map W img = Some w" "w_real w' \<noteq> 0"
  shows "realised (W\<lparr>images := (images W)(img \<mapsto> w')\<rparr>) img" "realised W i \<Longrightarrow> realised (W\<lparr>images := (images W)(img \<mapsto> w')\<rparr>) i"
  using assms(2,3) by (auto simp: realised_def image_map_def split: if_splits)

lemma sc_bind_realises:
  assumes "world_ok W" "sc_lawful k" "nvhal_sc_bind dev d img h k fns W = Some (tr, objs, r, W')"
  shows "r = VK_SUCCESS \<Longrightarrow> realised W' img" "realised W i \<Longrightarrow> realised W' i"
proof -
  have "(r = VK_SUCCESS \<longrightarrow> realised W' img) \<and> (realised W i \<longrightarrow> realised W' i)"
    using assms(1)
  proof (cases rule: wrapper_cases [where img = img])
    case none
    then show ?thesis using assms(3) by (auto simp: nvhal_sc_bind_def codes)
  next
    case (some w)
    obtain t res where imp: "nvhal_anb_import (d_mem_types d) (sc_icd_ci w, h, k) = (t, res)" by force
    show ?thesis
    proof (cases "w_kind w \<noteq> NVHAL_WRAP_SWAPCHAIN \<or> w_dev w \<noteq> dev \<or> w_real w \<noteq> 0")
      case True
      then show ?thesis using some assms(3) by (auto simp: nvhal_sc_bind_def codes split: if_splits)
    next
      case False
      show ?thesis
      proof (cases res)
        case (Inl e)
        then show ?thesis using False some assms(3) imp anb_import_error [of "d_mem_types d" "sc_icd_ci w" h k t e]
          by (auto simp: nvhal_sc_bind_def)
      next
        case (Inr a)
        then show ?thesis using False some assms(3) imp anb_import_handles [OF assms(2), of "d_mem_types d" "sc_icd_ci w" h t a]
            realised_upd [OF assms(1) some(1), of "w\<lparr>w_memory := a_memory a, w_real := a_image a\<rparr>"]
          by (auto simp: nvhal_sc_bind_def)
      qed
    qed
  qed
  then show "r = VK_SUCCESS \<Longrightarrow> realised W' img" "realised W i \<Longrightarrow> realised W' i" by blast+
qed

lemma kind_from_map: "world_ok W \<Longrightarrow> nvhal_image_wrapper_kind W img = Some (case image_map W img of None \<Rightarrow> NVHAL_WRAP_NONE | Some w \<Rightarrow> w_kind w)"
  by (erule wrapper_cases [where img = img]) (auto simp: nvhal_image_wrapper_kind_def)

lemma kinds_same:
  assumes "world_ok W" "world_ok W'" "map_option w_kind \<circ> image_map W' = map_option w_kind \<circ> image_map W"
  shows "nvhal_image_wrapper_kind W' img = nvhal_image_wrapper_kind W img"
proof -
  have "map_option w_kind (image_map W' img) = map_option w_kind (image_map W img)" using fun_cong [OF assms(3), of img] by simp
  then show ?thesis unfolding kind_from_map [OF assms(1)] kind_from_map [OF assms(2)]
    by (cases "image_map W img"; cases "image_map W' img") simp_all
qed

lemma sc_binds_realise:
  assumes "world_ok W" "list_all (\<lambda>b. sc_lawful (icd (bi_image b))) bs" "sc_binds dev d icd fns bs r W = Some (tr, objs, sts, VK_SUCCESS, W')"
  shows "r = VK_SUCCESS \<and> (realised W i \<longrightarrow> realised W' i) \<and>
    (\<forall>b \<in> set bs. nvhal_image_wrapper_kind W (bi_image b) = Some NVHAL_WRAP_SWAPCHAIN \<longrightarrow> realised W' (bi_image b))"
  using assms
proof (induction bs arbitrary: r W tr objs sts i)
  case Nil
  then show ?case by simp
next
  case (Cons b bs)
  have law: "list_all (\<lambda>b. sc_lawful (icd (bi_image b))) bs" "sc_lawful (icd (bi_image b))" using Cons.prems(2) by simp_all
  show ?case
  proof (cases "nvhal_image_wrapper_kind W (bi_image b) = Some NVHAL_WRAP_SWAPCHAIN")
    case False
    then have "sc_binds dev d icd fns bs r W = Some (tr, objs, sts, VK_SUCCESS, W')"
      using Cons.prems(1,3) kind_from_map [OF Cons.prems(1), of "bi_image b"] by simp
    then show ?thesis using Cons.IH [OF Cons.prems(1) law(1)] False by auto
  next
    case True
    obtain t o1 ri W1 where s: "nvhal_sc_bind dev d (bi_image b) (first_native_buffer (bi_next b)) (icd (bi_image b)) fns W = Some (t, o1, ri, W1)"
      "step_ok W t W1" "map_option w_kind \<circ> image_map W1 = map_option w_kind \<circ> image_map W"
      using sc_bind_sound [OF Cons.prems(1) law(2)] by blast
    have ok1: "world_ok W1" using s(2) by (simp add: step_ok_def)
    obtain tr' o' s' where rest: "sc_binds dev d icd fns bs (if ri \<noteq> VK_SUCCESS \<and> r = VK_SUCCESS then ri else r) W1 = Some (tr', o', s', VK_SUCCESS, W')"
      using Cons.prems(3) True s(1) by auto
    note IH = Cons.IH [OF ok1 law(1) rest]
    have "(if ri \<noteq> VK_SUCCESS \<and> r = VK_SUCCESS then ri else r) = VK_SUCCESS" using IH by blast
    then have "r = VK_SUCCESS" "ri = VK_SUCCESS" by (auto split: if_splits)
    moreover have "realised W' (bi_image b)" "realised W i \<longrightarrow> realised W' i"
      using IH sc_bind_realises [OF Cons.prems(1) law(2) s(1)] Cons.IH [OF ok1 law(1) rest] \<open>ri = VK_SUCCESS\<close> by blast+
    moreover have "\<forall>b \<in> set bs. nvhal_image_wrapper_kind W (bi_image b) = Some NVHAL_WRAP_SWAPCHAIN \<longrightarrow> realised W' (bi_image b)"
      using IH kinds_same [OF Cons.prems(1) ok1 s(3)] by simp
    ultimately show ?thesis by simp
  qed
qed

text \<open>The three ways the call ends: an error with nothing for the driver, nothing left for the driver,
  or the translated binds.\<close>

lemma bind2_cases:
  assumes "world_ok W" "list_all (\<lambda>b. sc_lawful (k_import k (bi_image b))) infos" "bind2 k dev d infos W = Some (tr, objs, sts, bs, r, W')"
    and rest_def: "rest = filter (\<lambda>b. nvhal_image_wrapper_kind W (bi_image b) \<noteq> Some NVHAL_WRAP_SWAPCHAIN) infos"
  obtains (none) "bs = []" "r \<noteq> VK_SUCCESS"
    | (all) t o1 s1 where "bs = []" "rest = []" "sc_binds dev d (k_import k) (k_fns k) infos VK_SUCCESS W = Some (t, o1, s1, VK_SUCCESS, W')"
    | (some) t o1 s1 where "nvhal_ahb_translate_binds W' (k_copy_malloc k) rest = Some (Inr bs)"
        "sc_binds dev d (k_import k) (k_fns k) infos VK_SUCCESS W = Some (t, o1, s1, VK_SUCCESS, W')"
proof -
  obtain r0 where r0: "binds_checked W infos = Some r0" using binds_checked_total [OF assms(1)] by blast
  obtain t1 o1 s1 r1 W1 where s: "sc_binds dev d (k_import k) (k_fns k) infos VK_SUCCESS W = Some (t1, o1, s1, r1, W1)" "world_ok W1"
    using sc_binds_sound [OF assms(1,2), of dev d "k_fns k" VK_SUCCESS] by blast
  have def: "bind2 k dev d infos W = (if r0 \<noteq> VK_SUCCESS then Some ([], [], [], [], r0, W)
     else if r1 \<noteq> VK_SUCCESS then Some (t1, o1, s1, [], r1, W1)
     else if length infos - length rest = length infos then Some (t1, o1, s1, [], VK_SUCCESS, W1)
     else if length infos - length rest \<noteq> 0 \<and> \<not> (length rest \<le> 8 \<or> k_rest_malloc k) then Some (t1, o1, s1, [], VK_ERROR_OUT_OF_HOST_MEMORY, W1)
     else case nvhal_ahb_translate_binds W1 (k_copy_malloc k) rest of
       None \<Rightarrow> None
     | Some (Inl r) \<Rightarrow> Some (t1, o1, s1, [], r, W1)
     | Some (Inr bs) \<Rightarrow> Some (t1, o1, s1, bs, k_bind k, W1))"
    by (simp add: bind2_def r0 s(1) rest_def Let_def)
  have empty: "rest = []" if "length infos - length rest = length infos"
  proof (rule ccontr)
    assume "rest \<noteq> []"
    then have "0 < length rest" "0 < length infos" by (auto simp: rest_def filter_empty_conv)
    then show False using that by linarith
  qed
  show ?thesis
  proof (cases "r0 = VK_SUCCESS \<and> r1 = VK_SUCCESS")
    case False
    then show ?thesis using assms(3) none unfolding def by (auto split: if_splits)
  next
    case True
    obtain res where res: "nvhal_ahb_translate_binds W1 (k_copy_malloc k) rest = Some res"
      using translate_total [OF s(2), of "length rest \<le> 8 \<or> k_copy_malloc k" False rest]
      by (cases "nvhal_no_wrappers W1") (auto simp: nvhal_ahb_translate_binds_def)
    note op = assms(3) [unfolded def res option.case]
    show ?thesis
    proof (cases "length infos - length rest = length infos")
      case A: True
      then show ?thesis using op True all [of t1 o1 s1] empty s(1) by simp
    next
      case A: False
      show ?thesis
      proof (cases "length infos - length rest \<noteq> 0 \<and> \<not> (length rest \<le> 8 \<or> k_rest_malloc k)")
        case B: True
        then show ?thesis using op True A none by (simp add: codes)
      next
        case B: False
        show ?thesis
        proof (cases res)
          case (Inl e)
          have "e \<noteq> VK_SUCCESS" using res Inl translate_from_error
            by (auto simp: nvhal_ahb_translate_binds_def split: if_splits)
          then show ?thesis using op True A B Inl none by (auto split: if_splits)
        next
          case (Inr out)
          then show ?thesis using op True A B res some [of t1 o1 s1] s(1) by (auto split: if_splits)
        qed
      qed
    qed
  qed
qed

definition other_binds :: "ahb_world \<Rightarrow> bind_info list \<Rightarrow> bind_info list" where
  "other_binds W infos = filter (\<lambda>b. nvhal_image_wrapper_kind W (bi_image b) \<noteq> Some NVHAL_WRAP_SWAPCHAIN) infos"


definition demo_bind :: bind_info where
  "demo_bind = \<lparr>bi_image = 0x1000, bi_memory = 0x200, bi_offset = 0, bi_next = []\<rparr>"

definition demo_bind_env :: bind_env where
  "demo_bind_env = \<lparr>k_import = (\<lambda>_. Anb.demo_icd), k_rest_malloc = True, k_copy_malloc = True, k_bind = VK_SUCCESS, k_fns = (True, True)\<rparr>"

lemma demo_bind2: "(case ahb_run demo_calls (ahb_world_init, {#}) of None \<Rightarrow> None | Some (t, W, P) \<Rightarrow>
    (case bind2 demo_bind_env 1 demo_dev [demo_bind] W of None \<Rightarrow> None | Some (tr, objs, sts, bs, r, W') \<Rightarrow> Some (bs, r))) =
  Some ([demo_bind\<lparr>bi_image := 0x100\<rparr>], VK_SUCCESS)"
  by code_simp


end
