(* ===== verification/Ahb_Planes.thy ===== *)
theory Ahb_Planes
  imports Ahb_Buffer
begin

text \<open>
  The planes of video buffers in nvidia-prolapse/hal/src/ahb.c: what gbuf_get and
  yuv_layout_bindable establish before the driver binds them.
\<close>

text \<open>Widening a 32-bit field keeps its value.\<close>

lemma unat_widen [simp]: "unat (ucast (x :: u32) :: u64) = unat x"
  using unsigned_less [of x] by (simp add: unsigned_ucast_eq take_bit_eq_mod)

lemma plane_fits:
  assumes "\<not> plane_bad total_bytes stride offset (ucast (rows :: u32))"
  shows "stride \<noteq> 0" "unat offset + unat stride * unat rows \<le> unat total_bytes"
proof -
  show "stride \<noteq> 0" using assms by (simp add: plane_bad_def)
  have s: "unat offset < 2 ^ 32" "unat stride < 2 ^ 32" "unat rows < 2 ^ 32" using unsigned_less [of offset] unsigned_less [of stride] unsigned_less [of rows] by auto
  then have "unat stride * unat rows \<le> (2 ^ 32 - 1) * (2 ^ 32 - 1)" by (intro mult_le_mono) auto
  then have small: "unat offset + unat stride * unat rows < 2 ^ 64" using s(1) by simp
  then have "unat (ucast stride * ucast rows :: u64) = unat stride * unat rows"
    by (simp add: unat_word_ariths)
  then have "unat (ucast offset + ucast stride * ucast rows :: u64) = unat offset + unat stride * unat rows"
    using small by (simp add: unat_word_ariths)
  moreover have "ucast offset + ucast stride * ucast rows \<le> total_bytes" using assms by (simp add: plane_bad_def not_less)
  ultimately show "unat offset + unat stride * unat rows \<le> unat total_bytes" by (simp add: word_le_nat_alt)
qed

lemma half_rows: "h \<noteq> 0xffffffff \<Longrightarrow> unat ((h + 1) div 2 :: u32) = (unat h + 1) div 2"
proof -
  assume h: "h \<noteq> 0xffffffff"
  have "unat h \<noteq> unat (0xffffffff :: u32)" using h unsigned_word_eqI by blast
  moreover have "unat h < 2 ^ 32" using unsigned_less [of h] by simp
  ultimately have "unat h + 1 < 2 ^ 32" by simp
  then show ?thesis by (simp add: unat_div unat_word_ariths)
qed

lemma yuv_planes:
  assumes "gbuf_get buf k = Inr b" "b_yuv b"
  shows "\<exists>s0 s1 o0 o1. b_strides b = [s0, s1] \<and> b_offsets b = [o0, o1] \<and> g_modifier (b_g b) = DRM_FORMAT_MOD_LINEAR \<and>
    \<not> plane_bad (b_size b) s0 o0 (ucast (ad_height (b_desc b))) \<and>
    \<not> plane_bad (b_size b) s1 o1 (ucast ((ad_height (b_desc b) + 1) div 2))"
  using assms by (auto simp: gbuf_get_def Let_def split: sum.splits if_splits)

lemma plane_step:
  assumes "planes_bindable total_bytes prev ((off, need, align) # ps)" "unat need < 2 ^ 63"
  shows "unat align dvd unat off" "unat prev \<le> unat off" "unat off + unat need \<le> unat total_bytes"
    "unat (ucast off + need) = unat off + unat need" "planes_bindable total_bytes (ucast off + need) ps"
proof -
  have p: "align \<noteq> 0" "(ucast off :: u64) mod align = 0" "ucast off + need \<le> total_bytes" "prev \<le> ucast off"
    using assms(1) by (auto simp: Let_def not_less split: if_splits)
  show "planes_bindable total_bytes (ucast off + need) ps" using assms(1) by (auto simp: Let_def split: if_splits)
  have u: "unat (ucast off :: u64) = unat off" by simp
  have "unat off < 2 ^ 32" using unsigned_less [of off] by simp
  then show s: "unat (ucast off + need) = unat off + unat need" using assms(2) u by (simp add: unat_word_ariths)
  show "unat align dvd unat off" using arg_cong [OF p(2), of unat] by (simp add: unat_mod u dvd_eq_mod_eq_0)
  show "unat prev \<le> unat off" using p(4) u by (simp add: word_le_nat_alt)
  show "unat off + unat need \<le> unat total_bytes" using p(3) s by (simp add: word_le_nat_alt)
qed

text \<open>
  C19. Video planes stay inside their buffer. When a two-plane buffer has been accepted and its driver
  image created, both planes lie in the dma-buf with all their rows (the chroma plane has half the
  rows, rounded up), each plane starts at a multiple of the alignment the driver wants, and the
  ranges the driver will map follow each other without overlap and end inside the dma-buf. The image
  height is not 2^32 - 1, where the row count of the chroma plane wraps to 0, and the driver's plane
  sizes are below 2^63.
\<close>

theorem video_planes_inside:
  assumes "gbuf_get buf env = Inr b" "b_yuv b" "ad_height (b_desc b) \<noteq> 0xffffffff" "realise k w b = (tr, Inr (img, c))"
    "r_plane_reqs k = [(n0, a0), (n1, a1)]" "unat n0 < 2 ^ 63" "unat n1 < 2 ^ 63"
  shows "\<exists>s0 s1 o0 o1. b_strides b = [s0, s1] \<and> b_offsets b = [o0, o1] \<and>
    unat o0 + unat s0 * unat (ad_height (b_desc b)) \<le> unat (b_size b) \<and>
    unat o1 + unat s1 * ((unat (ad_height (b_desc b)) + 1) div 2) \<le> unat (b_size b) \<and>
    unat a0 dvd unat o0 \<and> unat a1 dvd unat o1 \<and> unat o0 + unat n0 \<le> unat o1 \<and> unat o1 + unat n1 \<le> unat (b_size b) \<and>
    DrmModifierExplicit DRM_FORMAT_MOD_LINEAR [(o0, s0), (o1, s1)] \<in> set (ci_next c)"
proof -
  obtain s0 s1 o0 o1 where b: "b_strides b = [s0, s1]" "b_offsets b = [o0, o1]" "g_modifier (b_g b) = DRM_FORMAT_MOD_LINEAR"
    "\<not> plane_bad (b_size b) s0 o0 (ucast (ad_height (b_desc b)))"
    "\<not> plane_bad (b_size b) s1 o1 (ucast ((ad_height (b_desc b) + 1) div 2))"
    using yuv_planes [OF assms(1,2)] by blast
  have "planes_bindable (b_size b) 0 ((o0, n0, a0) # [(o1, n1, a1)])"
    using realise_Inr(8) [OF assms(4)] b(1,2) assms(5) by simp
  note p0 = plane_step [OF this assms(6)]
  note p1 = plane_step [OF p0(5) assms(7)]
  show ?thesis using b(1-3) plane_fits(2) [OF b(4)] plane_fits(2) [OF b(5)] half_rows [OF assms(3)] p0(1,4) p1(1-3)
      realise_Inr(7) [OF assms(4)] by simp
qed

text \<open>A 640x480 NV12 buffer with its planes at 0 and 327680 of one 512 KiB dma-buf.\<close>

definition demo_nv12 :: cros_gralloc_handle where
  "demo_nv12 = demo_handle\<lparr>g_numFds := 2, g_numInts := 33, g_fds := [7, 8, -1, -1, -1], g_strides := [640, 640, 0, 0],
     g_offsets := [0, 327680, 0, 0], g_width := 640, g_height := 480, g_format := DRM_FORMAT_NV12, g_num_planes := 2\<rparr>"

definition demo_nv12_env :: buffer_env where
  "demo_nv12_env = \<lparr>be_desc = \<lparr>ad_width = 640, ad_height = 480, ad_layers = 1, ad_format = 0x23, ad_usage = AHB_USAGE_SAMPLED_IMAGE\<rparr>,
     be_handle = Some demo_nv12, be_seek_end = 524288, be_seek_set = 0, be_inode0 = Some (1, 5), be_inode1 = Some (1, 5)\<rparr>"

definition demo_nv12_image :: nvhal_image where
  "demo_nv12_image = \<lparr>w_kind = NVHAL_WRAP_AHB, w_dev = 1, w_real = 0, w_memory = 0, w_swapchain = 0,
     w_ci = demo_ci\<lparr>ci_format := VKF_G8_B8R8_2PLANE_420_UNORM, ci_width := 640, ci_height := 480, ci_usage := USE_SAMPLED, ci_next := []\<rparr>,
     w_views = [], w_stencil = None, w_external = True, w_name = None, w_pd = []\<rparr>"

definition demo_nv12_icd :: realise_icd where
  "demo_nv12_icd = \<lparr>r_query = i_query Anb.demo_icd, r_mods = (\<lambda>_. [\<lparr>p_modifier = DRM_FORMAT_MOD_LINEAR, p_planes = 2, p_features = F2_DISJOINT\<rparr>]),
     r_probe = (VK_SUCCESS, 0x300), r_plane_reqs = [(307200, 65536), (153600, 65536)], r_image = (VK_SUCCESS, 0x100)\<rparr>"

definition demo_nv12_buf :: gbuf where
  "demo_nv12_buf = \<lparr>b_desc = be_desc demo_nv12_env, b_g = demo_nv12, b_fd = 7, b_size = 524288, b_format = VKF_G8_B8R8_2PLANE_420_UNORM,
     b_blob = False, b_yuv = True, b_strides = [640, 640], b_offsets = [0, 327680]\<rparr>"

lemmas demo_nv12_defs = demo_nv12_def demo_nv12_env_def demo_nv12_image_def demo_nv12_icd_def demo_nv12_buf_def demo_handle_def demo_ci_def

lemma demo_nv12_got: "gbuf_get 0x2000 demo_nv12_env = Inr demo_nv12_buf"
  by (simp add: gbuf_get_def nvhal_cros_handle_def yuv_fourcc_to_vk_def yuv_formats_def plane_bad_def DRV_MAX_FDS_def
    CROS_GRALLOC_HANDLE_NUM_INTS_TOTAL_def demo_nv12_defs codes)

lemma demo_nv12_usage:
  "effective_usage (r_query demo_nv12_icd) ici m USE_SAMPLED = (VK_SUCCESS, USE_SAMPLED)"
  by (simp add: effective_usage_def nvhal_modifier_usage_ok_def demo_nv12_icd_def Anb.demo_icd_def codes)

theorem video_planes_inside_witness:
  "\<exists>tr img c. realise demo_nv12_icd demo_nv12_image demo_nv12_buf = (tr, Inr (img, c)) \<and>
     DrmModifierExplicit DRM_FORMAT_MOD_LINEAR [(0, 640), (327680, 640)] \<in> set (ci_next c)"
proof -
  let ?b = "demo_nv12_buf" and ?k = "demo_nv12_icd"
  have ci: "ci_usage (build_icd_ci demo_nv12_image m ps None) = USE_SAMPLED" for m ps
    by (simp add: build_icd_ci_def demo_nv12_image_def)
  have "snd (yuv_layout_bindable ?k ?b) = VK_SUCCESS"
    by (simp add: yuv_layout_bindable_def modifier_features_def F2_DISJOINT_def demo_nv12_defs codes)
  then obtain t where y: "yuv_layout_bindable ?k ?b = (t, VK_SUCCESS)" by (metis prod.collapse)
  obtain tr img c where r: "realise ?k demo_nv12_image ?b = (tr, Inr (img, c))"
    unfolding realise_def Let_def ci demo_nv12_usage prod.case y by (simp add: demo_nv12_defs)
  have "ad_height (b_desc ?b) = 480" "b_yuv ?b" "r_plane_reqs ?k = [(307200, 65536), (153600, 65536)]" by (simp_all add: demo_nv12_defs)
  with video_planes_inside [OF demo_nv12_got _ _ r] r show ?thesis by (simp add: demo_nv12_buf_def)
qed

lemma bindable_step:
  assumes "align \<noteq> 0" "unat align dvd unat off" "unat prev \<le> unat off" "unat off + unat need \<le> unat total_bytes"
  shows "planes_bindable total_bytes prev ((off, need, align) # ps) = planes_bindable total_bytes (ucast off + need) ps"
    "unat (ucast off + need) = unat off + unat need"
proof -
  have u: "unat (ucast off :: u64) = unat off" by simp
  have "unat total_bytes < 2 ^ 64" using unsigned_less [of total_bytes] by simp
  then show s: "unat (ucast off + need) = unat off + unat need" using assms(4) u by (simp add: unat_word_ariths)
  have "unat ((ucast off :: u64) mod align) = 0" using assms(2) by (simp add: unat_mod u dvd_eq_mod_eq_0)
  then have "(ucast off :: u64) mod align = 0" by (simp add: unat_eq_zero)
  moreover have "\<not> ucast off + need > total_bytes" "\<not> ucast off < prev"
    using assms(3,4) s u by (simp_all add: word_less_nat_alt)
  ultimately show "planes_bindable total_bytes prev ((off, need, align) # ps) = planes_bindable total_bytes (ucast off + need) ps"
    using assms(1) by (simp add: Let_def)
qed

text \<open>
  C20. The gralloc and the HAL agree on video buffers. A two-plane layout that the native gralloc
  granted is one the HAL accepts: in a dma-buf of at least the granted size, with a driver that
  answers the same plane requirements to both and never an alignment of 0, the check before the
  driver image is created succeeds and leaves no object behind.
\<close>

theorem gralloc_video_layout_accepted:
  assumes "\<And>p. unat (fst (pl_req d p)) \<le> 2 ^ 62" "\<And>p. unat (snd (pl_req d p)) \<le> 2 ^ 62" "\<And>p. snd (pl_req d p) \<noteq> 0"
    and "nvg_plane_layout e d dev fmt width height n offsets g = ((tr, Inr (o0, o1, tot)), g')"
    and "b_offsets b = [o0, o1]" "tot \<le> b_size b" "r_plane_reqs k = [pl_req d 0, pl_req d 1]" "fst (r_probe k) = VK_SUCCESS"
    and "modifier_features (r_mods k) (b_format b) DRM_FORMAT_MOD_LINEAR AND F2_DISJOINT \<noteq> 0"
  shows "\<exists>t. yuv_layout_bindable k b = (t, VK_SUCCESS) \<and> run_ev {#} t = Some {#}"
proof -
  obtain n0 a0 n1 a1 where r: "pl_req d 0 = (n0, a0)" "pl_req d 1 = (n1, a1)" by (metis prod.collapse)
  have nz: "a0 \<noteq> 0" "a1 \<noteq> 0" using assms(3) [of 0] assms(3) [of 1] r by simp_all
  have l: "unat a0 dvd unat o0" "unat a1 dvd unat o1" "unat o0 + unat n0 \<le> unat o1" "unat o1 + unat n1 \<le> unat tot"
    using plane_layout_bounds [OF assms(1,2,4)] r nz by (simp_all add: req_align_def dvd_eq_mod_eq_0)
  have t: "unat tot \<le> unat (b_size b)" using assms(6) by (simp add: word_le_nat_alt)
  have s0: "planes_bindable (b_size b) 0 ((o0, n0, a0) # [(o1, n1, a1)]) = planes_bindable (b_size b) (ucast o0 + n0) [(o1, n1, a1)]"
    "unat (ucast o0 + n0) = unat o0 + unat n0"
    using bindable_step(1) [OF nz(1) l(1), of 0 n0 "b_size b" "[(o1, n1, a1)]"] bindable_step(2) [OF nz(1) l(1), of 0 n0 "b_size b"] l t by simp_all
  have "planes_bindable (b_size b) (ucast o0 + n0) [(o1, n1, a1)]"
    using bindable_step(1) [OF nz(2) l(2), of "ucast o0 + n0" n1 "b_size b" "[]"] l t s0(2) by simp
  then have "planes_bindable (b_size b) 0 (zip (b_offsets b) (r_plane_reqs k))" using s0(1) assms(5,7) r by simp
  then show ?thesis using assms(8,9) by (auto simp: yuv_layout_bindable_def split: prod.splits)
qed

text \<open>The driver of the example answers the gralloc and the HAL alike.\<close>

definition demo_same_icd :: realise_icd where
  "demo_same_icd = demo_nv12_icd\<lparr>r_plane_reqs := [pl_req demo_plane 0, pl_req demo_plane 1]\<rparr>"

theorem gralloc_video_layout_accepted_witness:
  "\<exists>tr o0 o1 tot g' t. nvg_plane_layout Gbm_Alloc.demo_icd demo_plane (Some None) DRM_FORMAT_NV12 640 480 2 (0, 90000) gbm_global_zero
      = ((tr, Inr (o0, o1, tot)), g') \<and>
     yuv_layout_bindable demo_same_icd (demo_nv12_buf\<lparr>b_offsets := [o0, o1], b_size := tot\<rparr>) = (t, VK_SUCCESS) \<and> run_ev {#} t = Some {#}"
proof -
  let ?lay = "nvg_plane_layout Gbm_Alloc.demo_icd demo_plane (Some None) DRM_FORMAT_NV12 640 480 2 (0, 90000) gbm_global_zero"
  have "case snd (fst ?lay) of Inr out \<Rightarrow> True | Inl _ \<Rightarrow> False" by code_simp
  then obtain tr o0 o1 tot g' where run: "?lay = ((tr, Inr (o0, o1, tot)), g')"
    by (cases ?lay) (auto split: sum.splits prod.splits)
  have bounds: "unat (fst (pl_req demo_plane p)) \<le> 2 ^ 62" "unat (snd (pl_req demo_plane p)) \<le> 2 ^ 62" "snd (pl_req demo_plane p) \<noteq> 0" for p
    by (simp_all add: demo_plane_def)
  have "modifier_features (r_mods demo_same_icd) (b_format demo_nv12_buf) DRM_FORMAT_MOD_LINEAR AND F2_DISJOINT \<noteq> 0"
    by (simp add: modifier_features_def F2_DISJOINT_def demo_same_icd_def demo_nv12_icd_def codes)
  then have "\<exists>t. yuv_layout_bindable demo_same_icd (demo_nv12_buf\<lparr>b_offsets := [o0, o1], b_size := tot\<rparr>) = (t, VK_SUCCESS) \<and> run_ev {#} t = Some {#}"
    by (intro gralloc_video_layout_accepted [OF bounds run]) (simp_all add: demo_same_icd_def demo_nv12_icd_def)
  then show ?thesis using run by blast
qed

end
