(* ===== verification/Spec2Isabelle.thy ===== *)
theory Spec2Isabelle
  imports Handle_Map Handle_Hash Cmd_Restore Cmd_Pools Vtest_Wrapper Vtest_Buffers Vtest_Alloc Gbm_Map Anb_Sync Ahb_Binds Ahb_Planes
begin

text \<open>
  A verification library of the buffer paths of the NVIDIA graphics stack for Waydroid containers.

  \<^bold>\<open>The program.\<close> An Android container gets its graphics buffers from a gralloc backend and draws into
  them through a Vulkan driver made for Linux. Four parts of the sources under src/ carry the buffers:
  \<^item> the vtest backend, a client in the container (src/minigbm-vtest/vtest_wrapper.c) that asks an
    allocator on the host (src/virglrenderer-vtest/vtest_gpu_alloc.c) over a socket;
  \<^item> the native backend (nvidia-prolapse/gralloc/nvidia_gbm_wrapper.c), which allocates with the
    Vulkan driver in the process and gives the CPU access to buffers;
  \<^item> the Vulkan HAL (nvidia-prolapse/hal/src), which imports gralloc buffers as swapchain images
    (anb.c) and as hardware buffer images and memory (ahb.c);
  \<^item> inside the HAL, handle tables (util.c) and a shadow of the compute state of command buffers
    (cmdstate.c), which other parts of the HAL use.

  \<^bold>\<open>How code is modelled.\<close> Structs are records, 32- and 64-bit integers are words whose arithmetic wraps,
  error codes are values of a sum. State is passed explicitly. The driver, the kernel, the allocator
  and the buffer library are arguments: a record of their answers, over which the theorems quantify.
  What an operation acquires and releases is its trace, a list of events; \<open>run_ev\<close> runs a trace on the
  multiset of what is held and has no result when something is released that is not held. A use of a
  freed or missing object in the model has no result (\<open>None\<close>) either, so a theorem that a call returns
  excludes it. Calls under one lock are one step; sequences of calls are lists of operations.

  \<^bold>\<open>Theories.\<close>
  \<^item> Nv_Prelude: words, result codes, traces, and the interface \<open>owned_op\<close> of an operation that holds
    what it returns and nothing when it fails. The imports and receptions of Vtest_Wrapper,
    Vtest_Buffers, Vtest_Alloc, Gbm_Map and Anb are interpretations of it.
  \<^item> Handle_Table, Handle_Map, Handle_Hash (util.c): the interface \<open>handle_table\<close> and its two
    implementations, an array and an open-addressing hash table. Both refine maps over any history;
    the sweep of the hash table removes exactly what its predicate says.
  \<^item> Cmd_State, Cmd_State_Inv, Cmd_Restore, Cmd_Pools (cmdstate.c): recording of commands, the
    invariant of the reference counts, and the replay. Recording is memory safe; the replay restores
    pipeline, sets and push constants, with the one gap stated in \<open>incremental_push_not_restored\<close>.
  \<^item> Vtest_Wrapper, Vtest_Buffers (vtest_wrapper.c): the protocol client over an arbitrary kernel, and
    the buffers of the mapper. An allocation leaves the connection in step with the server or closed.
  \<^item> Vtest_Alloc (vtest_gpu_alloc.c): device setup, modifier cache, image and CPU allocation. The cache
    does not change results, sizes are exact inside stated bounds and everything is released.
  \<^item> Gbm_Abi, Gbm_Device, Gbm_Alloc, Gbm_Map (nvidia_gbm_wrapper.c and its headers): one-time device
    setup, allocation with its modifier rule, plane layout, and locks of LINEAR and block-linear
    buffers. A lock shows the pixels of the buffer and an unlock stores exactly what was written.
  \<^item> Hal_Types, Anb, Anb_Sync (nvhal.h, cros_gralloc_handle.h, anb.c): import of a native buffer, the
    images of a device, acquire with its native fence, release with the pool of export fences.
  \<^item> Ahb_Buffer, Ahb, Ahb_World, Ahb_Session, Ahb_Binds, Ahb_Planes (ahb.c and bind2 of anb.c):
    buffers and create infos; the two tables with every operation on them; their invariant and what
    they hold, kept by each operation; whole sessions with the device teardown; what the driver is
    asked to bind; and the planes of video buffers, with the agreement of the native gralloc's layout
    and the HAL's acceptance.
  \<^item> This theory: the agreement of the format tables of the two backends and of the host.
\<close>

text \<open>
  \<^bold>\<open>Bounds and loops.\<close> No model has fuel. Loops bounded by their data are total functions; the loops that
  wait for the kernel (socket transfers, poll, the dma-buf ioctl) and the probes of the hash table are
  \<open>partial_function (option)\<close>, where not returning is \<open>None\<close>. The theorems show that the probes return by
  the load limit of the table, and that the waiting loops return when the kernel stops interrupting
  them. A session over the AHB tables has fewer than 2^32 calls, since the count of wrappers has 32
  bits. Sizes answered by a driver are below 2^62 or 2^63 where the code adds them in 64 bits; the
  theorems on wrap-around show what happens outside such a bound where the code does not guard it.

  \<^bold>\<open>What the theorems rely on.\<close> Drivers and kernels return new handles and descriptors for new objects
  (\<open>import_lawful\<close>, \<open>sc_lawful\<close>, \<open>lawful\<close>, \<open>call_ok\<close>), an app frees only what it owns, and a chain has at most
  one structure of a type. Each theorem with such a hypothesis is followed by an instance of it.

  \<^bold>\<open>Not modelled.\<close>
  \<^item> ahb.c: the property queries and the requirement probes fill output structures from answers of the
    driver and change no state; the ASTC emulation (astc.c) and the memory type experiment are off.
    The meaning of astc.c lies in shaders and in driver objects.
  \<^item> imgxlate.c rewrites the image handles of Vulkan structures by the lookup of theory Ahb; device.c
    and hal.c load the driver and resolve entry points; gputime.c is diagnostics, off by default.
  \<^item> The interleaving of threads inside a call: state is accessed under the locks named above, and the
    calls of a session are taken in the order in which they hold them. Log messages have no effect.
  \<^item> The EGL platform, the ABI shim, the Codec2 component, the Gallium driver and the kernel-mode
    interface are glue to libraries and hardware that are not in the sources. The driver in Rust, the
    tools, probes, packaging and the game module are separate programs outside this library's scope.
\<close>

lemma formats_agree:
  "FMT_R8 = ALLOC_DRM_FORMAT_R8" "FMT_RGB565 = ALLOC_DRM_FORMAT_RGB565" "FMT_XRGB8888 = ALLOC_DRM_FORMAT_XRGB8888"
  "FMT_ARGB8888 = ALLOC_DRM_FORMAT_ARGB8888" "FMT_XBGR8888 = ALLOC_DRM_FORMAT_XBGR8888"
  "FMT_ABGR8888 = ALLOC_DRM_FORMAT_ABGR8888" "FMT_ABGR2101010 = ALLOC_DRM_FORMAT_ABGR2101010"
  "FMT_ABGR16161616F = ALLOC_DRM_FORMAT_ABGR16161616F" "FMT_NV12 = ALLOC_DRM_FORMAT_NV12"
  by code_simp+

text \<open>
  C30. Guest and host agree on formats: the wrapper in the container accepts exactly the formats the
  host allocator can create as an image, and NV12; and an NV12 request is always sent with the
  mappable flag, which is the one path of the host that knows NV12.
\<close>

theorem guest_host_formats_agree:
  "(vtest_get_gbm_format f = 0) = (drm_format_to_vk f = VK_FORMAT_UNDEFINED \<and> f \<noteq> ALLOC_DRM_FORMAT_NV12) \<and>
   bit (vtest_flags (a\<lparr>a_format := ALLOC_DRM_FORMAT_NV12\<rparr>)) 0 \<and> drm_format_to_vk ALLOC_DRM_FORMAT_NV12 = VK_FORMAT_UNDEFINED"
proof -
  have "bit (vtest_flags (a\<lparr>a_format := ALLOC_DRM_FORMAT_NV12\<rparr>)) 0"
    by (simp add: vtest_flags_def formats_agree VCMD_ALLOC_GPU_FLAG_MAPPABLE_def VCMD_ALLOC_GPU_FLAG_SCANOUT_def bit_simps)
  moreover have "drm_format_to_vk ALLOC_DRM_FORMAT_NV12 = VK_FORMAT_UNDEFINED" by code_simp
  moreover have "(0 :: u32) \<notin> set [FMT_R8, FMT_RGB565, FMT_XRGB8888, FMT_ARGB8888, FMT_XBGR8888, FMT_ABGR8888,
      FMT_ABGR2101010, FMT_ABGR16161616F, FMT_NV12]" by code_simp
  ultimately show ?thesis
    by (auto simp: vtest_get_gbm_format_def drm_format_to_vk_def formats_agree)
qed

lemma native_table:
  "nvg_get_gbm_format f = (if f \<in> set (map nf_drm nvg_formats) then f else 0)"
  by (auto simp: nvg_get_gbm_format_def find_format_def find_None_iff)

lemma native_set:
  "set (map nf_drm nvg_formats) = {FMT_R8, FMT_RGB565, FMT_XRGB8888, FMT_ARGB8888, FMT_XBGR8888, FMT_ABGR8888,
     FMT_ABGR2101010, FMT_ABGR16161616F}"
  by code_simp

lemma nv12_apart:
  "ALLOC_DRM_FORMAT_NV12 \<notin> {FMT_R8, FMT_RGB565, FMT_XRGB8888, FMT_ARGB8888, FMT_XBGR8888, FMT_ABGR8888,
     FMT_ABGR2101010, FMT_ABGR16161616F}"
  by code_simp

text \<open>
  C33. The two gralloc backends accept the same formats except NV12, which only the vtest backend
  takes; on the formats of the native table the bytes per pixel are those of the vtest host.
\<close>

theorem backends_formats:
  "nvg_get_gbm_format f = (if f = ALLOC_DRM_FORMAT_NV12 then 0 else vtest_get_gbm_format f) \<and>
   vtest_get_gbm_format ALLOC_DRM_FORMAT_NV12 = ALLOC_DRM_FORMAT_NV12 \<and>
   list_all (\<lambda>e. nf_bpp e = drm_format_bpp (nf_drm e)) nvg_formats"
proof (intro conjI)
  show "list_all (\<lambda>e. nf_bpp e = drm_format_bpp (nf_drm e)) nvg_formats" by code_simp
  show "nvg_get_gbm_format f = (if f = ALLOC_DRM_FORMAT_NV12 then 0 else vtest_get_gbm_format f)"
    using nv12_apart unfolding native_table native_set vtest_get_gbm_format_def formats_agree(9) by (simp only: insert_iff) simp
  show "vtest_get_gbm_format ALLOC_DRM_FORMAT_NV12 = ALLOC_DRM_FORMAT_NV12"
    by (simp add: vtest_get_gbm_format_def formats_agree(9))
qed

end
